(* ===== verification/Prelude.thy ===== *)
theory Prelude
  imports Main "HOL-Library.Word"
begin

unbundle bit_operations_syntax

section \<open>Shared vocabulary of the model\<close>

text \<open>
  The types and the generic lemmas every component uses: bytes and byte vectors
  (\<^verbatim>\<open>lib/include/msg801/byte_types.hpp\<close>), machine integers, the outcome of a call
  that may throw or loop forever, the big-endian layout of a 32-bit word that both the
  padding frames and the relay frames use, and facts about lists.
\<close>

subsection \<open>Bytes, sizes and buffers\<close>

type_synonym Byte = "8 word"
type_synonym ByteVector = "Byte list"
type_synonym u16 = "16 word"
type_synonym u32 = "32 word"
type_synonym u64 = "64 word"

text \<open>
  \<^verbatim>\<open>DataBuffer\<close> has the one field \<^verbatim>\<open>data\<close>; a list of buffers is what one call
  of a processor pushes to its output.
\<close>

type_synonym DataBufferList = "ByteVector list"

text \<open>\<^verbatim>\<open>ByteVector(s.begin(), s.end())\<close> on a string, and the way back.\<close>

definition bytes_of_string :: "string \<Rightarrow> ByteVector" where
  "bytes_of_string s = map of_char s"

definition string_of_bytes :: "ByteVector \<Rightarrow> string" where
  "string_of_bytes bs = map (\<lambda>b. char_of (unat b)) bs"

subsection \<open>Outcomes of a call\<close>

text \<open>
  A C++ call returns, throws, or never comes back. The exceptions are the ones the code
  throws itself and the ones of the standard conversions it calls.
\<close>

datatype exn = RuntimeError string | InvalidArgument string | OutOfRange string

datatype 'a outcome = Ret 'a | Throw exn | Diverge

fun obind :: "'a outcome \<Rightarrow> ('a \<Rightarrow> 'b outcome) \<Rightarrow> 'b outcome" where
  "obind (Ret x) f = f x"
| "obind (Throw e) f = Throw e"
| "obind Diverge f = Diverge"

lemma obind_eq_Ret: "obind m f = Ret y \<longleftrightarrow> (\<exists>x. m = Ret x \<and> f x = Ret y)"
  by (cases m) auto

lemma obind_assoc: "obind (obind m f) g = obind m (\<lambda>x. obind (f x) g)"
  by (cases m) auto

lemma obind_Ret_right [simp]: "obind m Ret = m"
  by (cases m) auto

lemma obind_cong [fundef_cong]:
  "m = m' \<Longrightarrow> (\<And>x. m' = Ret x \<Longrightarrow> f x = f' x) \<Longrightarrow> obind m f = obind m' f'"
  by (cases m') auto

subsection \<open>A 32-bit word as four bytes, most significant first\<close>

definition be32 :: "u32 \<Rightarrow> ByteVector" where
  "be32 v = [ucast (drop_bit 24 v AND 0xFF), ucast (drop_bit 16 v AND 0xFF),
             ucast (drop_bit 8 v AND 0xFF), ucast (v AND 0xFF)]"

definition of_be32 :: "Byte \<Rightarrow> Byte \<Rightarrow> Byte \<Rightarrow> Byte \<Rightarrow> u32" where
  "of_be32 b0 b1 b2 b3 =
     push_bit 24 (ucast b0) OR push_bit 16 (ucast b1) OR push_bit 8 (ucast b2) OR ucast b3"

lemma length_be32 [simp]: "length (be32 v) = 4"
  by (simp add: be32_def)

lemma bit_of_be32:
  assumes "n < 32"
  shows "bit (of_be32 b0 b1 b2 b3) n =
    (if n < 8 then bit b3 n else if n < 16 then bit b2 (n - 8)
     else if n < 24 then bit b1 (n - 16) else bit b0 (n - 24))"
  using assms bit_imp_le_length [of b0 "n - 24"] bit_imp_le_length [of b1 "n - 16"]
    bit_imp_le_length [of b2 "n - 8"] bit_imp_le_length [of b3 n]
  by (auto simp: of_be32_def bit_simps dest: bit_imp_le_length)

lemma of_be32_be32:
  "of_be32 (be32 v ! 0) (be32 v ! 1) (be32 v ! 2) (be32 v ! 3) = v"
proof (rule bit_word_eqI)
  fix n assume "n < LENGTH(32)"
  then have n: "n < 32" by simp
  have m: "(0xFF :: u32) = mask 8" by (simp add: mask_eq_exp_minus_1)
  show "bit (of_be32 (be32 v ! 0) (be32 v ! 1) (be32 v ! 2) (be32 v ! 3)) n = bit v n"
    unfolding bit_of_be32 [OF n] using n by (auto simp: be32_def m bit_simps)
qed

lemma be32_of_be32 [simp]: "be32 (of_be32 b0 b1 b2 b3) = [b0, b1, b2, b3]"
proof -
  have m: "(0xFF :: u32) = mask 8" by (simp add: mask_eq_exp_minus_1)
  have "ucast (drop_bit k (of_be32 b0 b1 b2 b3) AND 0xFF) =
      (if k = 0 then b3 else if k = 8 then b2 else if k = 16 then b1 else b0)"
    if "k \<in> {0, 8, 16, 24}" for k
    by (rule bit_word_eqI) (use that in \<open>auto simp: m bit_simps bit_of_be32\<close>)
  from this [of 24] this [of 16] this [of 8] this [of 0] show ?thesis
    by (simp add: be32_def)
qed

subsection \<open>Lists\<close>

lemma concat_append_single [simp]: "concat (xss @ [xs]) = concat xss @ xs"
  by simp

lemma take_eq_append_drop: "n \<le> length xs \<Longrightarrow> \<exists>ys. xs = take n xs @ ys"
  by (metis append_take_drop_id)

end
