(* ===== verification/Text.thy ===== *)
theory Text
  imports Prelude
begin

section \<open>Strings and number conversions of the standard library\<close>

text \<open>
  What the code uses of \<^verbatim>\<open>std::string\<close>, \<^verbatim>\<open>std::getline\<close>, \<^verbatim>\<open>std::stoul\<close> and
  \<^verbatim>\<open>std::stoull\<close> (both 64 bits wide on the LP64 targets of the build). A position that
  is not found, \<^verbatim>\<open>npos\<close>, is \<open>None\<close>.
\<close>

fun find_char :: "char \<Rightarrow> string \<Rightarrow> nat option" where
  "find_char c [] = None"
| "find_char c (x # xs) = (if x = c then Some 0 else map_option Suc (find_char c xs))"

fun rfind_char :: "char \<Rightarrow> string \<Rightarrow> nat option" where
  "rfind_char c [] = None"
| "rfind_char c (x # xs) = (case rfind_char c xs of
     Some i \<Rightarrow> Some (Suc i)
   | None \<Rightarrow> if x = c then Some 0 else None)"

text \<open>
  The loop \<^verbatim>\<open>while (std::getline(ss, item, delim))\<close>: an item ends at the delimiter or at
  the end of the text, and no item is read once the text is used up.
\<close>

function split :: "string \<Rightarrow> char \<Rightarrow> string list" where
  "split s delim =
     (if s = [] then []
      else takeWhile (\<lambda>c. c \<noteq> delim) s # split (drop 1 (dropWhile (\<lambda>c. c \<noteq> delim) s)) delim)"
  by pat_completeness auto
termination
proof (relation "measure (\<lambda>(s, delim). length s)", simp)
  fix s :: string and delim
  assume "s \<noteq> []"
  then have "length (dropWhile (\<lambda>c. c \<noteq> delim) s) - 1 < length s"
    using length_dropWhile_le [of "\<lambda>c. c \<noteq> delim" s] length_greater_0_conv [of s] by linarith
  then show "((drop 1 (dropWhile (\<lambda>c. c \<noteq> delim) s), delim), s, delim) \<in>
      measure (\<lambda>(s, delim). length s)" by simp
qed

declare split.simps [simp del]

definition is_space :: "char \<Rightarrow> bool" where
  "is_space c \<longleftrightarrow> (let n = of_char c :: nat in n = 32 \<or> (9 \<le> n \<and> n \<le> 13))"

definition digit_value :: "char \<Rightarrow> nat option" where
  "digit_value c = (let n = of_char c :: nat in if 48 \<le> n \<and> n \<le> 57 then Some (n - 48) else None)"

text \<open>The leading digits: their value on top of \<open>acc\<close>, and how many there are.\<close>

fun read_digits :: "nat \<Rightarrow> string \<Rightarrow> nat \<times> nat" where
  "read_digits acc [] = (acc, 0)"
| "read_digits acc (c # cs) = (case digit_value c of
     None \<Rightarrow> (acc, 0)
   | Some d \<Rightarrow> (let (v, k) = read_digits (10 * acc + d) cs in (v, Suc k)))"

text \<open>
  \<^verbatim>\<open>stoull\<close> in base 10: white space, a sign, digits; what follows is ignored. A minus
  sign negates modulo \<open>2^64\<close>. No digits is \<^verbatim>\<open>std::invalid_argument\<close>, a magnitude that
  does not fit is \<^verbatim>\<open>std::out_of_range\<close>.
\<close>

definition stoull :: "string \<Rightarrow> u64 outcome" where
  "stoull s =
     (let s = dropWhile is_space s;
          neg = (case s of c # _ \<Rightarrow> c = CHR ''-'' | [] \<Rightarrow> False);
          s = (case s of c # cs \<Rightarrow> if c = CHR ''-'' \<or> c = CHR ''+'' then cs else s | [] \<Rightarrow> []);
          (v, k) = read_digits 0 s
      in if k = 0 then Throw (InvalidArgument ''stoull'')
         else if 2 ^ 64 \<le> v then Throw (OutOfRange ''stoull'')
         else Ret (if neg then - of_nat v else of_nat v))"

lemma find_char_Some:
  "find_char c s = Some i \<Longrightarrow> i < length s \<and> s ! i = c \<and> c \<notin> set (take i s)"
  by (induction s arbitrary: i) (auto split: if_splits)

lemma find_char_None: "find_char c s = None \<longleftrightarrow> c \<notin> set s"
  by (induction s) auto

lemma find_char_append: "c \<notin> set xs \<Longrightarrow> find_char c (xs @ c # ys) = Some (length xs)"
  by (induction xs) auto

lemma rfind_char_None: "rfind_char c s = None \<longleftrightarrow> c \<notin> set s"
  by (induction s) (auto split: option.splits)

lemma rfind_char_append: "c \<notin> set ys \<Longrightarrow> rfind_char c (xs @ c # ys) = Some (length xs)"
  by (induction xs) (auto split: option.splits simp: rfind_char_None)

text \<open>Splitting undoes joining with the delimiter, if the last item is not empty.\<close>

fun join :: "char \<Rightarrow> string list \<Rightarrow> string" where
  "join d [] = []"
| "join d [x] = x"
| "join d (x # xs) = x @ d # join d xs"

lemma cut_at:
  assumes "d \<notin> set x"
  shows "takeWhile (\<lambda>c. c \<noteq> d) (x @ d # rest) = x" "dropWhile (\<lambda>c. c \<noteq> d) (x @ d # rest) = d # rest"
    "takeWhile (\<lambda>c. c \<noteq> d) x = x" "dropWhile (\<lambda>c. c \<noteq> d) x = []"
  using assms by (induction x) auto

lemma split_item: "d \<notin> set x \<Longrightarrow> split (x @ d # rest) d = x # split rest d"
  by (subst split.simps) (simp add: cut_at)

lemma split_join:
  assumes "\<forall>x\<in>set xs. d \<notin> set x" "xs \<noteq> []" "last xs \<noteq> []"
  shows "split (join d xs) d = xs"
  using assms
proof (induction d xs rule: join.induct)
  case (2 d x)
  then show ?case by (simp add: split.simps [of x] split.simps [of "[]"] cut_at)
next
  case (3 d x y ys)
  then show ?case by (simp add: split_item)
qed simp

subsection \<open>Decimal numbers\<close>

definition digit_char :: "nat \<Rightarrow> char" where
  "digit_char d = char_of (48 + d)"

fun decimal :: "nat \<Rightarrow> string" where
  "decimal n = (if n < 10 then [digit_char n] else decimal (n div 10) @ [digit_char (n mod 10)])"

declare decimal.simps [simp del]

lemma digit_value_digit_char [simp]: "d < 10 \<Longrightarrow> digit_value (digit_char d) = Some d"
  by (simp add: digit_value_def digit_char_def of_char_of)

lemma digit_char_plain [simp]:
  "d < 10 \<Longrightarrow> \<not> is_space (digit_char d)" "d < 10 \<Longrightarrow> digit_char d \<noteq> CHR ''-''"
  "d < 10 \<Longrightarrow> digit_char d \<noteq> CHR ''+''"
proof -
  assume d: "d < 10"
  then show "\<not> is_space (digit_char d)" by (simp add: is_space_def digit_char_def of_char_of)
  have "of_char (digit_char d) = 48 + d" using d by (simp add: digit_char_def of_char_of)
  then show "digit_char d \<noteq> CHR ''-''" "digit_char d \<noteq> CHR ''+''" by auto
qed

definition no_digit :: "string \<Rightarrow> bool" where
  "no_digit s \<longleftrightarrow> (case s of [] \<Rightarrow> True | c # _ \<Rightarrow> digit_value c = None)"

lemma read_digits_no_digit: "no_digit s \<Longrightarrow> read_digits acc s = (acc, 0)"
  by (cases s) (auto simp: no_digit_def)

lemma read_digits_decimal:
  "read_digits 0 (decimal n @ rest) =
    (let (v, k) = read_digits n rest in (v, length (decimal n) + k))"
proof (induction n arbitrary: rest rule: decimal.induct)
  case (1 n)
  show ?case
  proof (cases "n < 10")
    case True
    then show ?thesis by (simp add: decimal.simps [of n])
  next
    case False
    have n: "10 * (n div 10) + n mod 10 = n" by simp
    from False "1.IH" [of "digit_char (n mod 10) # rest"] show ?thesis
      by (simp add: decimal.simps [of n] n split_beta Let_def)
  qed
qed

lemma decimal_first: "\<exists>d cs. decimal n = digit_char d # cs \<and> d < 10"
proof (induction n rule: decimal.induct)
  case (1 n)
  then show ?case by (cases "n < 10") (auto simp: decimal.simps [of n])
qed

lemma stoull_decimal:
  assumes "no_digit rest"
  shows "stoull (decimal n @ rest) =
    (if n < 2 ^ 64 then Ret (of_nat n) else Throw (OutOfRange ''stoull''))"
proof -
  obtain d cs where d: "decimal n = digit_char d # cs" "d < 10" using decimal_first by blast
  have r: "read_digits 0 (digit_char d # cs @ rest) = (n, Suc (length cs))"
    using read_digits_decimal [of n rest] assms d(1)
    by (simp add: read_digits_no_digit del: read_digits.simps)
  then show ?thesis using d by (simp add: stoull_def r not_less del: read_digits.simps)
qed

text \<open>
  The numeric arguments of the command line: the decimal text of a number is
  read as that number when it fits 64 bits and is out of range otherwise, leading white
  space is skipped, anything after the digits is ignored, and a text without digits is an
  invalid argument.
\<close>

lemma stoull_reads_decimal:
  assumes "no_digit rest" "\<forall>c\<in>set blanks. is_space c"
  shows "stoull (blanks @ decimal n @ rest) =
      (if n < 2 ^ 64 then Ret (of_nat n) else Throw (OutOfRange ''stoull'')) \<and>
    (rest = [] \<or> \<not> is_space (hd rest) \<and> hd rest \<noteq> CHR ''-'' \<and> hd rest \<noteq> CHR ''+'' \<longrightarrow>
      stoull (blanks @ rest) = Throw (InvalidArgument ''stoull''))"
proof -
  have drop: "stoull (blanks @ s) = stoull s" for s
    using assms(2) by (induction blanks) (simp_all add: stoull_def)
  have "stoull rest = Throw (InvalidArgument ''stoull'')"
    if "rest = [] \<or> \<not> is_space (hd rest) \<and> hd rest \<noteq> CHR ''-'' \<and> hd rest \<noteq> CHR ''+''"
    using that read_digits_no_digit [OF assms(1), of 0]
    by (cases rest) (simp_all add: stoull_def del: read_digits.simps)
  then show ?thesis using stoull_decimal [OF assms(1), of n] by (simp add: drop)
qed

end
