(* ===== verification/Byte_Stream.thy ===== *)
theory Byte_Stream
  imports Prelude "HOL-Library.Sublist"
begin

section \<open>Byte streams and the contracts of encoders and decoders\<close>

text \<open>
  TCP keeps the order of the bytes and forgets how they were cut into buffers, so what a
  processor promises is a promise about byte streams. This theory gives the stream view
  of a call that pushes buffers, runs a call over a list of fragments, and states three
  interfaces as locales:
  \<^item> \<open>stream_decoder\<close>: a decoder whose result does not depend on how its input is cut;
  \<^item> \<open>stream_codec\<close>: an encoder with a decoder that undoes it;
  \<^item> \<open>processor_contract\<close>: the \<^verbatim>\<open>pack\<close>/\<^verbatim>\<open>unpack\<close> pair of
    \<^verbatim>\<open>msg801::tunnel::Processor\<close>, whose two directions also leave each other alone.
\<close>

subsection \<open>The stream view of a call\<close>

definition stream_view :: "(DataBufferList \<times> 's) outcome \<Rightarrow> (ByteVector \<times> 's) option" where
  "stream_view r = (case r of Ret (bufs, s) \<Rightarrow> Some (concat bufs, s) | _ \<Rightarrow> None)"

lemma stream_view_simps [simp]:
  "stream_view (Ret (bufs, s)) = Some (concat bufs, s)"
  "stream_view (Throw e) = None"
  "stream_view Diverge = None"
  by (simp_all add: stream_view_def)

lemma stream_view_eq_Some:
  "stream_view r = Some (y, s) \<longleftrightarrow> (\<exists>bufs. r = Ret (bufs, s) \<and> y = concat bufs)"
  by (auto simp: stream_view_def split: outcome.splits)

lemma stream_view_obind:
  "stream_view (obind m f) = (case m of Ret x \<Rightarrow> stream_view (f x) | _ \<Rightarrow> None)"
  by (cases m) auto

text \<open>Run a stream function over fragments, one after the other.\<close>

fun feed_stream :: "('s \<Rightarrow> ByteVector \<Rightarrow> (ByteVector \<times> 's) option) \<Rightarrow> 's \<Rightarrow> ByteVector list
    \<Rightarrow> (ByteVector \<times> 's) option" where
  "feed_stream f s [] = Some ([], s)"
| "feed_stream f s (x # xs) = Option.bind (f s x) (\<lambda>(y, s'). Option.bind (feed_stream f s' xs)
     (\<lambda>(z, s''). Some (y @ z, s'')))"

lemma feed_stream_Cons_eq_Some:
  "feed_stream f s (x # xs) = Some (out, s'') \<longleftrightarrow>
    (\<exists>y z s'. f s x = Some (y, s') \<and> feed_stream f s' xs = Some (z, s'') \<and> out = y @ z)"
  by (auto simp: bind_eq_Some_conv)

subsection \<open>Decoders\<close>

locale stream_decoder =
  fixes dec :: "'s \<Rightarrow> ByteVector \<Rightarrow> (ByteVector \<times> 's) option"
    and inv :: "'s \<Rightarrow> bool"
  assumes dec_nil: "inv s \<Longrightarrow> dec s [] = Some ([], s)"
    and dec_append: "inv s \<Longrightarrow> dec s (a @ b) =
      Option.bind (dec s a) (\<lambda>(x, s'). Option.bind (dec s' b) (\<lambda>(y, s''). Some (x @ y, s'')))"
    and dec_inv: "inv s \<Longrightarrow> dec s a = Some (x, s') \<Longrightarrow> inv s'"
begin

text \<open>However the input is cut, the decoded bytes and the state are the same.\<close>

lemma feed_eq_concat:
  "inv s \<Longrightarrow> feed_stream dec s frags = dec s (concat frags)"
proof (induction frags arbitrary: s)
  case Nil
  then show ?case by (simp add: dec_nil)
next
  case (Cons x xs)
  then show ?case
    by (cases "dec s x") (auto simp: dec_append intro!: bind_option_cong dest: dec_inv)
qed

lemma dec_append_SomeD:
  assumes "inv s" "dec s (a @ b) = Some (z, s'')"
  obtains x y s' where "dec s a = Some (x, s')" "dec s' b = Some (y, s'')" "z = x @ y"
  using assms by (auto simp: dec_append bind_eq_Some_conv)

lemma dec_prefix:
  assumes "inv s" "dec s (a @ b) = Some (z, s'')"
  shows "\<exists>x s'. dec s a = Some (x, s') \<and> prefix x z"
  using assms by (auto elim: dec_append_SomeD)

end

subsection \<open>Codecs\<close>

text \<open>
  \<open>sync e s\<close> says that the encoder's state and the decoder's state match: what the
  encoder produces next, the decoder turns back.
\<close>

locale stream_codec = stream_decoder dec inv
  for dec :: "'s \<Rightarrow> ByteVector \<Rightarrow> (ByteVector \<times> 's) option"
    and inv :: "'s \<Rightarrow> bool" +
  fixes enc :: "'e \<Rightarrow> ByteVector \<Rightarrow> (ByteVector \<times> 'e) option"
    and sync :: "'e \<Rightarrow> 's \<Rightarrow> bool"
  assumes sync_inv: "sync e s \<Longrightarrow> inv s"
    and enc_dec: "sync e s \<Longrightarrow> enc e x = Some (y, e') \<Longrightarrow>
      \<exists>s'. dec s y = Some (x, s') \<and> sync e' s'"
begin

lemma feed_enc_dec:
  "sync e s \<Longrightarrow> feed_stream enc e xs = Some (wire, e') \<Longrightarrow>
    \<exists>s'. dec s wire = Some (concat xs, s') \<and> sync e' s'"
proof (induction xs arbitrary: e s wire)
  case Nil
  then show ?case by (auto simp: dec_nil sync_inv)
next
  case (Cons x xs)
  then obtain y z e1 where 1: "enc e x = Some (y, e1)"
      "feed_stream enc e1 xs = Some (z, e')" "wire = y @ z"
    by (auto simp: bind_eq_Some_conv)
  from enc_dec [OF Cons.prems(1) 1(1)] obtain s1 where
    2: "dec s y = Some (x, s1)" "sync e1 s1" by auto
  from Cons.IH [OF 2(2) 1(2)] obtain s2 where
    "dec s1 z = Some (concat xs, s2)" "sync e' s2" by auto
  with 1(3) 2(1) Cons.prems(1) show ?case
    by (auto simp: dec_append [OF sync_inv])
qed

text \<open>
  The round trip over a byte stream: encode any chunks, cut the encoded stream anywhere,
  decode the fragments, and the chunks' bytes come back in order.
\<close>

lemma roundtrip:
  assumes "sync e s" "feed_stream enc e xs = Some (wire, e')" "concat frags = wire"
  shows "\<exists>s'. feed_stream dec s frags = Some (concat xs, s') \<and> sync e' s'"
  using feed_enc_dec [OF assms(1,2)] assms(3) by (auto simp: feed_eq_concat sync_inv [OF assms(1)])

text \<open>While only part of the stream has arrived, a prefix of the bytes comes out.\<close>

lemma delivered_prefix:
  assumes "sync e s" "feed_stream enc e xs = Some (wire, e')" "prefix (concat frags) wire"
  shows "\<exists>got s'. feed_stream dec s frags = Some (got, s') \<and> prefix got (concat xs)"
proof -
  from assms(3) obtain rest where "wire = concat frags @ rest" by (auto simp: prefix_def)
  with feed_enc_dec [OF assms(1,2)] have "\<exists>s'. dec s (concat frags @ rest) = Some (concat xs, s')"
    by auto
  then show ?thesis
    using dec_prefix [OF sync_inv [OF assms(1)]] by (fastforce simp: feed_eq_concat sync_inv [OF assms(1)])
qed

end

subsection \<open>The contract of a processor\<close>

text \<open>
  \<open>pack\<close> draws on the outside world \<open>'w\<close> (random bytes), \<open>unpack\<close> does not. One
  object carries both directions. \<open>same_unpack\<close> says that two objects agree on the
  unpacking side; the last laws say that each direction leaves the other alone.
\<close>

locale processor_contract =
  fixes pack :: "'w \<Rightarrow> 'p \<Rightarrow> ByteVector \<Rightarrow> (DataBufferList \<times> 'p \<times> 'w) outcome"
    and unpack :: "'p \<Rightarrow> ByteVector \<Rightarrow> (DataBufferList \<times> 'p) outcome"
    and inv :: "'p \<Rightarrow> bool"
    and sync :: "'p \<Rightarrow> 'p \<Rightarrow> bool"
    and same_unpack :: "'p \<Rightarrow> 'p \<Rightarrow> bool"
  assumes unpack_nil: "inv p \<Longrightarrow> stream_view (unpack p []) = Some ([], p)"
    and unpack_append: "inv p \<Longrightarrow> stream_view (unpack p (a @ b)) =
      Option.bind (stream_view (unpack p a)) (\<lambda>(x, p').
        Option.bind (stream_view (unpack p' b)) (\<lambda>(y, p''). Some (x @ y, p'')))"
    and unpack_inv: "inv p \<Longrightarrow> unpack p a = Ret (bufs, p') \<Longrightarrow> inv p'"
    and sync_inv: "sync e d \<Longrightarrow> inv d"
    and pack_unpack: "sync e d \<Longrightarrow> pack w e x = Ret (bufs, e', w') \<Longrightarrow>
      \<exists>d'. stream_view (unpack d (concat bufs)) = Some (x, d') \<and> sync e' d'"
    and unpack_frame: "sync e d \<Longrightarrow> unpack e x = Ret (bufs, e') \<Longrightarrow> sync e' d"
    and pack_same_unpack: "pack w p x = Ret (bufs, p', w') \<Longrightarrow> same_unpack p p'"
    and same_unpack_inv: "same_unpack p q \<Longrightarrow> inv p \<Longrightarrow> inv q"
    and same_unpack_sync: "same_unpack p q \<Longrightarrow> sync e p \<Longrightarrow> sync e q"
    and same_unpack_step: "same_unpack p q \<Longrightarrow> unpack p x = Ret (bufs, p') \<Longrightarrow>
      \<exists>q'. unpack q x = Ret (bufs, q') \<and> same_unpack p' q'"
begin

lemma pack_inv: "inv p \<Longrightarrow> pack w p x = Ret (bufs, p', w') \<Longrightarrow> inv p'"
  by (blast intro: same_unpack_inv pack_same_unpack)

lemma pack_frame: "sync e d \<Longrightarrow> pack w d x = Ret (bufs, d', w') \<Longrightarrow> sync e d'"
  by (blast intro: same_unpack_sync pack_same_unpack)

end

sublocale processor_contract \<subseteq> codec: stream_codec
  "\<lambda>p x. stream_view (unpack p x)" inv
  "\<lambda>(p, w) x. stream_view (pack w p x)" "\<lambda>(e, w) d. sync e d"
  by unfold_locales
    (auto simp: unpack_nil unpack_append stream_view_eq_Some sync_inv
      dest: unpack_inv pack_unpack [unfolded stream_view_eq_Some])

subsection \<open>One direction of a connection between two nodes\<close>

text \<open>
  \<open>link e d wire sent got\<close>: the node \<open>e\<close> has packed the bytes \<open>sent\<close>, the node \<open>d\<close> has
  unpacked \<open>got\<close> so far, and \<open>wire\<close> is still under way. The rest of \<open>sent\<close> is what
  unpacking the wire would give, and the two nodes would then be in step again.
\<close>

definition link :: "('p \<Rightarrow> ByteVector \<Rightarrow> (DataBufferList \<times> 'p) outcome) \<Rightarrow> ('p \<Rightarrow> bool)
    \<Rightarrow> ('p \<Rightarrow> 'p \<Rightarrow> bool) \<Rightarrow> 'p \<Rightarrow> 'p \<Rightarrow> ByteVector \<Rightarrow> ByteVector \<Rightarrow> ByteVector \<Rightarrow> bool" where
  "link unpk ok syn e d wire sent got \<longleftrightarrow> ok d \<and>
     (\<exists>rest d'. stream_view (unpk d wire) = Some (rest, d') \<and> syn e d' \<and> sent = got @ rest)"

context processor_contract
begin

lemma link_start: "sync e d \<Longrightarrow> link unpack inv sync e d [] [] []"
  by (simp add: link_def unpack_nil sync_inv)

lemma link_send:
  assumes "link unpack inv sync e d wire sent got" "pack w e x = Ret (bufs, e', w')"
  shows "link unpack inv sync e' d (wire @ concat bufs) (sent @ x) got"
proof -
  from assms(1) obtain rest d' where d: "inv d" "stream_view (unpack d wire) = Some (rest, d')"
    "sync e d'" "sent = got @ rest" by (auto simp: link_def)
  from pack_unpack [OF d(3) assms(2)] obtain d'' where
    "stream_view (unpack d' (concat bufs)) = Some (x, d'')" "sync e' d''" by auto
  with d show ?thesis by (simp add: link_def unpack_append)
qed

lemma link_receive:
  assumes "link unpack inv sync e d (a @ b) sent got"
  obtains bufs d' where "unpack d a = Ret (bufs, d')" "link unpack inv sync e d' b sent (got @ concat bufs)"
proof -
  from assms obtain rest d2 where d: "inv d" "stream_view (unpack d (a @ b)) = Some (rest, d2)"
    "sync e d2" "sent = got @ rest" by (auto simp: link_def)
  then obtain x y d1 where 1: "stream_view (unpack d a) = Some (x, d1)"
    "stream_view (unpack d1 b) = Some (y, d2)" "rest = x @ y"
    by (auto elim: codec.dec_append_SomeD)
  from 1(1) obtain bufs where u: "unpack d a = Ret (bufs, d1)" "x = concat bufs"
    by (auto simp: stream_view_eq_Some)
  with d 1 have "link unpack inv sync e d1 b sent (got @ concat bufs)"
    by (auto simp: link_def intro: unpack_inv)
  with u(1) show ?thesis by (rule that)
qed

lemma link_other_send:
  assumes "link unpack inv sync e d wire sent got" "pack w d x = Ret (bufs, d', w')"
  shows "link unpack inv sync e d' wire sent got"
proof -
  have same: "same_unpack d d'" using assms(2) by (rule pack_same_unpack)
  from assms(1) obtain rest d1 out where d: "inv d" "unpack d wire = Ret (out, d1)"
    "sync e d1" "sent = got @ concat out"
    by (auto simp: link_def stream_view_eq_Some)
  from same_unpack_step [OF same d(2)] obtain d2 where
    "unpack d' wire = Ret (out, d2)" "same_unpack d1 d2" by auto
  with d same show ?thesis
    by (auto simp: link_def intro: same_unpack_inv same_unpack_sync)
qed

lemma link_other_receive:
  "link unpack inv sync e d wire sent got \<Longrightarrow> unpack e x = Ret (bufs, e') \<Longrightarrow> link unpack inv sync e' d wire sent got"
  by (auto simp: link_def intro: unpack_frame)

lemma link_prefix: "link unpack inv sync e d wire sent got \<Longrightarrow> prefix got sent"
  by (auto simp: link_def)

lemma link_drained: "link unpack inv sync e d [] sent got \<Longrightarrow> got = sent"
  by (auto simp: link_def unpack_nil)

end

end
