(* ===== verification/Identity.thy ===== *)
theory Identity
  imports Byte_Stream
begin

section \<open>The processor base class and the identity processor\<close>

text \<open>
  \<^verbatim>\<open>Processor\<close> (\<^verbatim>\<open>tunnel/processor.hpp\<close>) keeps the one flag \<^verbatim>\<open>reverse_\<close>; the
  concrete processors extend its record, as the classes extend the base class.
  \<^verbatim>\<open>IdentityProcessor\<close> (\<^verbatim>\<open>identity.cpp\<close>) copies its input in both directions.
\<close>

record Processor =
  reverse :: bool

type_synonym IdentityProcessor = Processor

definition IdentityProcessor_new :: "bool \<Rightarrow> IdentityProcessor" where
  "IdentityProcessor_new rv = \<lparr>reverse = rv\<rparr>"

definition identity_pack :: "'w \<Rightarrow> IdentityProcessor \<Rightarrow> ByteVector
    \<Rightarrow> (DataBufferList \<times> IdentityProcessor \<times> 'w) outcome" where
  "identity_pack w p input = Ret ([input], p, w)"

definition identity_unpack :: "IdentityProcessor \<Rightarrow> ByteVector
    \<Rightarrow> (DataBufferList \<times> IdentityProcessor) outcome" where
  "identity_unpack p input = Ret ([input], p)"

interpretation identity: processor_contract
  identity_pack identity_unpack "\<lambda>_. True" "\<lambda>_ _. True" "\<lambda>_ _. True"
  by unfold_locales (auto simp: identity_pack_def identity_unpack_def)

end
