(* ===== verification/Cfb.thy ===== *)
theory Cfb
  imports Identity
begin

section \<open>CfbProcessor\<close>

text \<open>
  \<^verbatim>\<open>CfbProcessor\<close> (\<^verbatim>\<open>cfb.cpp\<close>): a byte-wise feedback cipher. Each direction has an IV
  vector, mutated by every byte, and an offset that counts the bytes of the direction, so
  that the position in the IV goes on across calls. \<^verbatim>\<open>size_t\<close> offsets are 64-bit words;
  the sum \<^verbatim>\<open>offset + i\<close> wraps at that width before the remainder is taken.
\<close>

record CfbProcessor = Processor +
  pack_iv :: ByteVector
  unpack_iv :: ByteVector
  pack_offset :: u64
  unpack_offset :: u64

text \<open>The loop of the constructor that fills both vectors up to eight bytes.\<close>

function cfb_fill :: "ByteVector \<Rightarrow> ByteVector \<Rightarrow> ByteVector \<times> ByteVector" where
  "cfb_fill piv uiv =
     (if length piv < 8
      then cfb_fill (piv @ [of_nat (length piv)]) (uiv @ [of_nat (length uiv)])
      else (piv, uiv))"
  by pat_completeness auto
termination
  by (relation "measure (\<lambda>(piv, uiv). 8 - length piv)") auto

declare cfb_fill.simps [simp del]

definition CfbProcessor_new :: "ByteVector \<Rightarrow> bool \<Rightarrow> CfbProcessor" where
  "CfbProcessor_new key rv =
     (let (piv, uiv) = cfb_fill key key
      in \<lparr>reverse = rv, pack_iv = piv, unpack_iv = uiv, pack_offset = 0, unpack_offset = 0\<rparr>)"

definition mix :: "Byte \<Rightarrow> ByteVector \<Rightarrow> nat \<Rightarrow> ByteVector" where
  "mix cipher iv pos =
     (let iv = iv[pos := iv ! pos + cipher];
          q = (pos + 1) mod length iv
      in iv[q := iv ! q XOR cipher])"

text \<open>
  The loop of \<^verbatim>\<open>encrypt\<close>, from index \<open>i\<close> on: the first component is what the rest of
  \<^verbatim>\<open>buf.data\<close> becomes, the second the IV after the loop.
\<close>

fun encrypt_from :: "u64 \<Rightarrow> nat \<Rightarrow> ByteVector \<Rightarrow> ByteVector \<Rightarrow> ByteVector \<times> ByteVector" where
  "encrypt_from offset i [] iv = ([], iv)"
| "encrypt_from offset i (x # xs) iv =
     (let pos = unat (offset + of_nat i) mod length iv;
          cipher = x XOR iv ! pos;
          (ys, iv') = encrypt_from offset (Suc i) xs (mix cipher iv pos)
      in (cipher # ys, iv'))"

fun decrypt_from :: "u64 \<Rightarrow> nat \<Rightarrow> ByteVector \<Rightarrow> ByteVector \<Rightarrow> ByteVector \<times> ByteVector" where
  "decrypt_from offset i [] iv = ([], iv)"
| "decrypt_from offset i (x # xs) iv =
     (let pos = unat (offset + of_nat i) mod length iv;
          cipher = x;
          (ys, iv') = decrypt_from offset (Suc i) xs (mix cipher iv pos)
      in ((x XOR iv ! pos) # ys, iv'))"

text \<open>\<^verbatim>\<open>encrypt\<close> and \<^verbatim>\<open>decrypt\<close>: the buffer pushed, the IV and the offset after.\<close>

definition encrypt :: "ByteVector \<Rightarrow> ByteVector \<Rightarrow> u64 \<Rightarrow> DataBufferList \<times> ByteVector \<times> u64" where
  "encrypt input iv offset =
     (let (buf, iv') = encrypt_from offset 0 input iv
      in ([buf], iv', offset + of_nat (length buf)))"

definition decrypt :: "ByteVector \<Rightarrow> ByteVector \<Rightarrow> u64 \<Rightarrow> DataBufferList \<times> ByteVector \<times> u64" where
  "decrypt input iv offset =
     (let (buf, iv') = decrypt_from offset 0 input iv
      in ([buf], iv', offset + of_nat (length buf)))"

definition cfb_pack :: "'w \<Rightarrow> CfbProcessor \<Rightarrow> ByteVector
    \<Rightarrow> (DataBufferList \<times> CfbProcessor \<times> 'w) outcome" where
  "cfb_pack w p input =
     (let (out, iv, off) = encrypt input (pack_iv p) (pack_offset p)
      in Ret (out, p\<lparr>pack_iv := iv, pack_offset := off\<rparr>, w))"

definition cfb_unpack :: "CfbProcessor \<Rightarrow> ByteVector
    \<Rightarrow> (DataBufferList \<times> CfbProcessor) outcome" where
  "cfb_unpack p input =
     (let (out, iv, off) = decrypt input (unpack_iv p) (unpack_offset p)
      in Ret (out, p\<lparr>unpack_iv := iv, unpack_offset := off\<rparr>))"

subsection \<open>The initial vectors\<close>

lemma cfb_fill_eq:
  "length piv = length uiv \<Longrightarrow>
     cfb_fill piv uiv = (piv @ map of_nat [length piv..<8], uiv @ map of_nat [length uiv..<8])"
proof (induction piv uiv rule: cfb_fill.induct)
  case (1 piv uiv)
  show ?case
  proof (cases "length piv < 8")
    case True
    with 1 show ?thesis
      by (simp add: cfb_fill.simps [of piv uiv] upt_conv_Cons)
  next
    case False
    with 1 show ?thesis by (simp add: cfb_fill.simps [of piv uiv])
  qed
qed

definition cfb_initial_iv :: "ByteVector \<Rightarrow> ByteVector" where
  "cfb_initial_iv key = key @ map of_nat [length key..<8]"

lemma CfbProcessor_new_eq:
  "CfbProcessor_new key rv = \<lparr>reverse = rv, pack_iv = cfb_initial_iv key,
     unpack_iv = cfb_initial_iv key, pack_offset = 0, unpack_offset = 0\<rparr>"
  by (simp add: CfbProcessor_new_def cfb_fill_eq cfb_initial_iv_def)

lemma length_cfb_initial_iv: "length (cfb_initial_iv key) = max (length key) 8"
  by (simp add: cfb_initial_iv_def)

subsection \<open>The loops\<close>

lemma length_mix [simp]: "length (mix cipher iv pos) = length iv"
  by (simp add: mix_def Let_def)

lemma length_encrypt_from [simp]:
  "length (fst (encrypt_from offset i xs iv)) = length xs"
  "length (snd (encrypt_from offset i xs iv)) = length iv"
  by (induction xs arbitrary: i iv) (simp_all add: Let_def split_beta)

lemma length_decrypt_from [simp]:
  "length (fst (decrypt_from offset i xs iv)) = length xs"
  "length (snd (decrypt_from offset i xs iv)) = length iv"
  by (induction xs arbitrary: i iv) (simp_all add: Let_def split_beta)

text \<open>
  Decrypting what was encrypted from the same IV and offset gives the bytes back and
  leaves both IVs equal: both loops mix in the same cipher bytes.
\<close>

lemma decrypt_from_encrypt_from:
  "decrypt_from offset i (fst (encrypt_from offset i xs iv)) iv =
     (xs, snd (encrypt_from offset i xs iv))"
  by (induction xs arbitrary: i iv) (simp_all add: Let_def split_beta xor.assoc)

text \<open>Decrypting in two calls is decrypting in one: the offset carries the position over.\<close>

lemma decrypt_from_shift:
  "decrypt_from (offset + of_nat k) i xs iv = decrypt_from offset (k + i) xs iv"
  by (induction xs arbitrary: i iv) (simp_all add: Let_def split_beta add.assoc)

lemma decrypt_from_append:
  "decrypt_from offset i (xs @ ys) iv =
     (let (us, iv1) = decrypt_from offset i xs iv;
          (vs, iv2) = decrypt_from offset (i + length xs) ys iv1
      in (us @ vs, iv2))"
  by (induction xs arbitrary: i iv) (simp_all add: Let_def split_beta)

lemma decrypt_append:
  assumes "decrypt xs iv off = (out1, iv1, off1)" "decrypt ys iv1 off1 = (out2, iv2, off2)"
  shows "decrypt (xs @ ys) iv off = ([concat out1 @ concat out2], iv2, off2)"
proof -
  have "off1 = off + of_nat (length xs)"
    using assms(1) by (auto simp: decrypt_def Let_def split_beta)
  with assms show ?thesis
    using decrypt_from_shift [of off "length xs" 0 ys iv1]
    by (auto simp: decrypt_def Let_def split_beta decrypt_from_append)
qed

lemma decrypt_encrypt:
  "encrypt xs iv off = (out, iv', off') \<Longrightarrow> decrypt (concat out) iv off = ([xs], iv', off')"
  by (auto simp: encrypt_def decrypt_def Let_def split_beta decrypt_from_encrypt_from)

lemma decrypt_nil [simp]: "decrypt [] iv off = ([[]], iv, off)"
  by (simp add: decrypt_def)

lemma length_iv_decrypt: "decrypt xs iv off = (out, iv', off') \<Longrightarrow> length iv' = length iv"
  by (auto simp: decrypt_def Let_def split_beta)

lemma length_iv_encrypt: "encrypt xs iv off = (out, iv', off') \<Longrightarrow> length iv' = length iv"
  by (auto simp: encrypt_def Let_def split_beta)

subsection \<open>The contract\<close>

definition cfb_inv :: "CfbProcessor \<Rightarrow> bool" where
  "cfb_inv p \<longleftrightarrow> 8 \<le> length (unpack_iv p)"

definition cfb_sync :: "CfbProcessor \<Rightarrow> CfbProcessor \<Rightarrow> bool" where
  "cfb_sync e d \<longleftrightarrow> cfb_inv d \<and> pack_iv e = unpack_iv d \<and> pack_offset e = unpack_offset d"

definition cfb_same_unpack :: "CfbProcessor \<Rightarrow> CfbProcessor \<Rightarrow> bool" where
  "cfb_same_unpack p q \<longleftrightarrow> unpack_iv p = unpack_iv q \<and> unpack_offset p = unpack_offset q"

lemma cfb_sync_new: "cfb_sync (CfbProcessor_new key r1) (CfbProcessor_new key r2)"
  by (simp add: cfb_sync_def cfb_inv_def CfbProcessor_new_eq length_cfb_initial_iv)

lemma cfb_pack_Ret:
  "cfb_pack w p x = Ret (bufs, p', w') \<longleftrightarrow> (\<exists>iv off.
     encrypt x (pack_iv p) (pack_offset p) = (bufs, iv, off) \<and>
     p' = p\<lparr>pack_iv := iv, pack_offset := off\<rparr> \<and> w' = w)"
  by (cases "encrypt x (pack_iv p) (pack_offset p)") (auto simp: cfb_pack_def)

lemma cfb_unpack_Ret:
  "cfb_unpack p x = Ret (bufs, p') \<longleftrightarrow> (\<exists>iv off.
     decrypt x (unpack_iv p) (unpack_offset p) = (bufs, iv, off) \<and>
     p' = p\<lparr>unpack_iv := iv, unpack_offset := off\<rparr>)"
  by (cases "decrypt x (unpack_iv p) (unpack_offset p)") (auto simp: cfb_unpack_def)

lemma cfb_unpack_nil: "cfb_unpack p [] = Ret ([[]], p)"
  by (simp add: cfb_unpack_def)

lemma cfb_unpack_append:
  "stream_view (cfb_unpack p (a @ b)) =
     Option.bind (stream_view (cfb_unpack p a)) (\<lambda>(x, p').
       Option.bind (stream_view (cfb_unpack p' b)) (\<lambda>(y, p''). Some (x @ y, p'')))"
proof -
  obtain out1 iv1 off1 where 1: "decrypt a (unpack_iv p) (unpack_offset p) = (out1, iv1, off1)"
    by (rule prod_cases3)
  obtain out2 iv2 off2 where 2: "decrypt b iv1 off1 = (out2, iv2, off2)"
    by (rule prod_cases3)
  from 1 2 decrypt_append [OF 1 2] show ?thesis by (simp add: cfb_unpack_def)
qed

interpretation cfb: processor_contract
  cfb_pack cfb_unpack cfb_inv cfb_sync cfb_same_unpack
proof unfold_locales
  fix e d x bufs e' and w w' :: 'a
  assume sync: "cfb_sync e d" and "cfb_pack w e x = Ret (bufs, e', w')"
  then obtain iv off where enc: "encrypt x (unpack_iv d) (unpack_offset d) = (bufs, iv, off)"
    and e': "e' = e\<lparr>pack_iv := iv, pack_offset := off\<rparr>"
    by (auto simp: cfb_pack_Ret cfb_sync_def)
  from sync length_iv_encrypt [OF enc] decrypt_encrypt [OF enc] e'
  show "\<exists>d'. stream_view (cfb_unpack d (concat bufs)) = Some (x, d') \<and> cfb_sync e' d'"
    by (simp add: cfb_sync_def cfb_inv_def cfb_unpack_def)
qed (auto simp: cfb_unpack_append cfb_unpack_Ret cfb_pack_Ret cfb_inv_def cfb_sync_def
  cfb_unpack_nil cfb_same_unpack_def dest: length_iv_decrypt length_iv_encrypt)

subsection \<open>Properties\<close>

lemma cfb_pack_stream: "\<exists>y p'. stream_view (cfb_pack w p x) = Some (y, (p', w)) \<and> length y = length x"
  by (auto simp: cfb_pack_def encrypt_def Let_def split: prod.splits)
    (metis fst_conv length_encrypt_from(1))

lemma feed_cfb_pack:
  "\<exists>wire p'. feed_stream (\<lambda>(p, w) x. stream_view (cfb_pack w p x)) (p, w) xs = Some (wire, (p', w)) \<and>
     length wire = length (concat xs)"
proof (induction xs arbitrary: p)
  case (Cons x xs)
  from cfb_pack_stream [of w p x] obtain y p1 where
    1: "stream_view (cfb_pack w p x) = Some (y, (p1, w))" "length y = length x" by auto
  from Cons [of p1] 1 show ?case by auto
qed simp

text \<open>
  Property C11. CfbProcessor is a lossless stream cipher: packing any chunks with any key
  never fails and keeps the length, and a processor built from the same key (in either
  role) that unpacks the resulting bytes, however they are cut, gives the chunks' bytes
  back in order.
\<close>

theorem cfb_stream_roundtrip:
  "\<exists>wire e'. feed_stream (\<lambda>(p, w) x. stream_view (cfb_pack w p x)) (CfbProcessor_new key r1, w) xs =
      Some (wire, e') \<and> length wire = length (concat xs) \<and>
    (\<forall>frags. concat frags = wire \<longrightarrow>
      (\<exists>d. feed_stream (\<lambda>p x. stream_view (cfb_unpack p x)) (CfbProcessor_new key r2) frags =
        Some (concat xs, d)))"
proof -
  from feed_cfb_pack [of "CfbProcessor_new key r1" w xs] obtain wire p' where
    w: "feed_stream (\<lambda>(p, w) x. stream_view (cfb_pack w p x)) (CfbProcessor_new key r1, w) xs =
      Some (wire, (p', w))" "length wire = length (concat xs)" by auto
  with cfb.codec.roundtrip [OF _ w(1)] cfb_sync_new show ?thesis by fastforce
qed

theorem cfb_stream_roundtrip_witness:
  "\<exists>wire e' d. feed_stream (\<lambda>(p, w :: nat) x. stream_view (cfb_pack w p x))
       (CfbProcessor_new [1, 2] False, 0) [[5], [6, 7]] = Some (wire, e') \<and> length wire = 3 \<and>
     feed_stream (\<lambda>p x. stream_view (cfb_unpack p x)) (CfbProcessor_new [1, 2] True)
       [take 1 wire, drop 1 wire] = Some ([5, 6, 7], d)"
proof -
  from cfb_stream_roundtrip [of "[1, 2]" False "0 :: nat" "[[5], [6, 7]]" True] obtain wire e' where
    w: "feed_stream (\<lambda>(p, w :: nat) x. stream_view (cfb_pack w p x))
       (CfbProcessor_new [1, 2] False, 0) [[5], [6, 7]] = Some (wire, e')" "length wire = 3"
    and all: "\<forall>frags. concat frags = wire \<longrightarrow> (\<exists>d. feed_stream (\<lambda>p x. stream_view (cfb_unpack p x))
       (CfbProcessor_new [1, 2] True) frags = Some ([5, 6, 7], d))" by auto
  from all have "\<exists>d. feed_stream (\<lambda>p x. stream_view (cfb_unpack p x)) (CfbProcessor_new [1, 2] True)
      [take 1 wire, drop 1 wire] = Some ([5, 6, 7], d)" by (rule allE) (erule mp, simp)
  with w show ?thesis by blast
qed

text \<open>
  The key is stretched, never cut: both initial vectors are the key followed by
  the byte positions up to eight bytes, so that no position of the cipher is outside them,
  and a direction is position-exact: unpacking one byte string in two calls gives the
  bytes and the state of one call.
\<close>

theorem cfb_vectors_and_positions:
  "pack_iv (CfbProcessor_new key rv) = key @ map of_nat [length key..<8] \<and>
   unpack_iv (CfbProcessor_new key rv) = key @ map of_nat [length key..<8] \<and>
   8 \<le> length (unpack_iv (CfbProcessor_new key rv)) \<and>
   stream_view (cfb_unpack p (a @ b)) =
     Option.bind (stream_view (cfb_unpack p a)) (\<lambda>(x, p').
       Option.bind (stream_view (cfb_unpack p' b)) (\<lambda>(y, p''). Some (x @ y, p'')))"
  by (simp add: CfbProcessor_new_eq cfb_initial_iv_def cfb_unpack_append)

end
