(* ===== verification/Mt19937.thy ===== *)
theory Mt19937
  imports Prelude
begin

section \<open>The 64-bit Mersenne Twister of the C++ standard library\<close>

text \<open>
  \<^verbatim>\<open>std::mt19937_64\<close> is fixed by the standard: \<^verbatim>\<open>mersenne_twister_engine<uint64_t, 64,
  312, 156, 31, 0xb5026f5aa96619e9, 29, 0x5555555555555555, 17, 0x71d67fffeda60000, 37,
  0xfff7eee000000000, 43, 6364136223846793005>\<close>. Its state is the list of the last 312
  words \<open>X(i-312), ..., X(i-1)\<close>; drawing computes \<open>X(i)\<close>, tempers it and shifts the
  window by one.
\<close>

type_synonym mt19937_64 = "u64 list"

fun mt_seed_from :: "nat \<Rightarrow> nat \<Rightarrow> u64 \<Rightarrow> u64 list" where
  "mt_seed_from 0 i x = []"
| "mt_seed_from (Suc k) i x =
     (let y = 6364136223846793005 * (x XOR drop_bit 62 x) + of_nat i
      in y # mt_seed_from k (Suc i) y)"

definition mt_seed :: "u64 \<Rightarrow> mt19937_64" where
  "mt_seed v = v # mt_seed_from 311 1 v"

definition mt_twist :: "u64 \<Rightarrow> u64 \<Rightarrow> u64 \<Rightarrow> u64" where
  "mt_twist x0 x1 xm =
     (let y = (x0 AND 0xFFFFFFFF80000000) OR (x1 AND 0x7FFFFFFF)
      in xm XOR drop_bit 1 y XOR (if y AND 1 = 1 then 0xB5026F5AA96619E9 else 0))"

definition mt_temper :: "u64 \<Rightarrow> u64" where
  "mt_temper x =
     (let z1 = x XOR (drop_bit 29 x AND 0x5555555555555555);
          z2 = z1 XOR (push_bit 17 z1 AND 0x71D67FFFEDA60000);
          z3 = z2 XOR (push_bit 37 z2 AND 0xFFF7EEE000000000)
      in z3 XOR drop_bit 43 z3)"

text \<open>\<^verbatim>\<open>rng()\<close>.\<close>

definition mt_next :: "mt19937_64 \<Rightarrow> u64 \<times> mt19937_64" where
  "mt_next st = (let x = mt_twist (st ! 0) (st ! 1) (st ! 156) in (mt_temper x, tl st @ [x]))"

lemma length_mt_seed_from [simp]: "length (mt_seed_from k i x) = k"
  by (induction k arbitrary: i x) (simp_all add: Let_def)

lemma length_mt_seed [simp]: "length (mt_seed v) = 312"
  by (simp add: mt_seed_def)

text \<open>The window keeps its length, so every read of a draw is inside it.\<close>

lemma length_mt_next [simp]: "length st = 312 \<Longrightarrow> length (snd (mt_next st)) = 312"
  by (simp add: mt_next_def Let_def)

end
