(* ===== verification/External.thy ===== *)
theory External
  imports Mt19937
begin

section \<open>What the program takes from outside\<close>

text \<open>
  OpenSSL, the clock, \<^verbatim>\<open>std::random_device\<close> and the algorithm of
  \<^verbatim>\<open>std::uniform_int_distribution\<close> (which the C++ standard leaves to the implementation)
  are parameters of the model, the fields of one record \<open>ext\<close>. Calls whose answer
  changes from one call to the next read it from an outside world \<open>'w\<close>, which is
  threaded through every operation that can reach such a call.
  \<^item> \<open>evp_ctx_new\<close>: whether \<^verbatim>\<open>EVP_MD_CTX_new\<close> returns a context.
  \<^item> \<open>evp_sha512\<close>: \<^verbatim>\<open>None\<close> when Init/Update/Final fail, else the \<^verbatim>\<open>out_len\<close> bytes.
  \<^item> \<open>hmac_evp_sha256\<close> key data: \<^verbatim>\<open>None\<close> when \<^verbatim>\<open>HMAC\<close> returns null, else its bytes.
  \<^item> \<open>RAND_bytes\<close>: fills a buffer of the given size (byte \<open>i\<close> becomes \<open>f i\<close>), or fails.
  \<^item> \<open>uniform_u32\<close> lo hi g: \<^verbatim>\<open>uniform_int_distribution<uint32_t>(lo, hi)(g)\<close>.
\<close>

record 'w ext =
  evp_ctx_new :: bool
  evp_sha512 :: "ByteVector \<Rightarrow> ByteVector option"
  hmac_evp_sha256 :: "ByteVector \<Rightarrow> ByteVector \<Rightarrow> ByteVector option"
  RAND_bytes :: "'w \<Rightarrow> nat \<Rightarrow> (nat \<Rightarrow> Byte) option \<times> 'w"
  uniform_u32 :: "u32 \<Rightarrow> u32 \<Rightarrow> mt19937_64 \<Rightarrow> u32 \<times> mt19937_64"
  high_resolution_now :: "'w \<Rightarrow> u64 \<times> 'w"
  random_device :: "'w \<Rightarrow> u32 \<times> 'w"

text \<open>
  The one law of the distribution the code relies on: a draw lies in the closed interval
  it was asked for.
\<close>

definition uniform_in_range :: "'w ext \<Rightarrow> bool" where
  "uniform_in_range E \<longleftrightarrow> (\<forall>lo hi g. lo \<le> hi \<longrightarrow>
     lo \<le> fst (uniform_u32 E lo hi g) \<and> fst (uniform_u32 E lo hi g) \<le> hi)"

lemma uniform_in_range_le:
  "uniform_in_range E \<Longrightarrow> uniform_u32 E 0 hi g = (v, g') \<Longrightarrow> v \<le> hi"
  unfolding uniform_in_range_def by (metis fst_conv word_zero_le)

text \<open>
  A concrete outside for examples: hashes that repeat a byte, a world that is a counter,
  and the distribution that reduces a raw draw modulo the interval's width.
\<close>

definition modulo_draw :: "u32 \<Rightarrow> u32 \<Rightarrow> mt19937_64 \<Rightarrow> u32 \<times> mt19937_64" where
  "modulo_draw lo hi g =
     (let (v, g') = mt_next g
      in (if lo \<le> hi then word_of_nat (unat lo + unat v mod Suc (unat hi - unat lo)) else lo, g'))"

definition example_ext :: "nat ext" where
  "example_ext = \<lparr>evp_ctx_new = True,
     evp_sha512 = (\<lambda>m. Some (replicate 64 (of_nat (length m)))),
     hmac_evp_sha256 = (\<lambda>k m. Some (replicate 32 (of_nat (length k + length m)))),
     RAND_bytes = (\<lambda>w n. (Some (\<lambda>i. of_nat (w + i)), Suc w)),
     uniform_u32 = modulo_draw,
     high_resolution_now = (\<lambda>w. (of_nat w, Suc w)),
     random_device = (\<lambda>w. (of_nat w, Suc w))\<rparr>"

lemma modulo_draw_in_range:
  assumes "lo \<le> hi"
  shows "lo \<le> fst (modulo_draw lo hi g)" "fst (modulo_draw lo hi g) \<le> hi"
proof -
  let ?v = "unat (fst (mt_next g))"
  let ?d = "unat lo + ?v mod Suc (unat hi - unat lo)"
  have le: "unat lo \<le> unat hi" using assms by (simp add: word_le_nat_alt)
  have "?v mod Suc (unat hi - unat lo) \<le> unat hi - unat lo"
    using mod_less_divisor [of "Suc (unat hi - unat lo)" ?v] by linarith
  with le have hi: "?d \<le> unat hi" by linarith
  then have "?d < 2 ^ LENGTH(32)" using unsigned_less [of hi] by (meson le_less_trans)
  then have u: "unat (word_of_nat ?d :: u32) = ?d"
    by (simp only: unat_of_nat mod_less)
  have eq: "fst (modulo_draw lo hi g) = word_of_nat ?d"
    using assms by (simp add: modulo_draw_def Let_def split_beta)
  show "lo \<le> fst (modulo_draw lo hi g)" "fst (modulo_draw lo hi g) \<le> hi"
    unfolding eq word_le_nat_alt u using hi by simp_all
qed

lemma example_ext_uniform: "uniform_in_range example_ext"
  by (simp add: uniform_in_range_def example_ext_def modulo_draw_in_range)

end
