(* ===== verification/Cfb_Nonce.thy ===== *)
theory Cfb_Nonce
  imports Cfb External
begin

section \<open>CfbNonceProcessor\<close>

text \<open>
  \<^verbatim>\<open>CfbNonceProcessor\<close> (\<^verbatim>\<open>cfb.cpp\<close>): the same cipher, keyed per connection. The first
  \<^verbatim>\<open>pack\<close> sends a handshake packet \<open>tag @ nonce\<close> and derives the IV from the nonce;
  the first \<^verbatim>\<open>unpack\<close> collects bytes until it holds a whole packet, checks the tag and
  derives the same IV. OpenSSL is the parameter \<open>E\<close>; every failure of it is a throw.
\<close>

definition NONCE_SIZE :: nat where "NONCE_SIZE = 512"
definition TAG_SIZE :: nat where "TAG_SIZE = 32"
definition HANDSHAKE_PACKET_SIZE :: nat where "HANDSHAKE_PACKET_SIZE = TAG_SIZE + NONCE_SIZE"

definition digest :: "'w ext \<Rightarrow> ByteVector \<Rightarrow> (ByteVector \<Rightarrow> ByteVector option) \<Rightarrow> nat
    \<Rightarrow> ByteVector outcome" where
  "digest E input md digest_size =
     (if \<not> evp_ctx_new E then Throw (RuntimeError ''failed to create digest context'')
      else case md input of
        None \<Rightarrow> Throw (RuntimeError ''failed to compute digest'')
      | Some out \<Rightarrow>
          if length out \<noteq> digest_size then Throw (RuntimeError ''failed to compute digest'')
          else Ret out)"

definition hmac_sha256 :: "'w ext \<Rightarrow> ByteVector \<Rightarrow> ByteVector \<Rightarrow> ByteVector outcome" where
  "hmac_sha256 E key data =
     (if length key > 2147483647 then Throw (RuntimeError ''hmac key is too large'')
      else case hmac_evp_sha256 E key data of
        None \<Rightarrow> Throw (RuntimeError ''failed to compute hmac-sha256'')
      | Some out \<Rightarrow>
          if length out \<noteq> TAG_SIZE then Throw (RuntimeError ''failed to compute hmac-sha256'')
          else Ret out)"

record CfbNonceProcessor = Processor +
  base_iv :: ByteVector
  hmac_key :: ByteVector
  npack_iv :: ByteVector
  nunpack_iv :: ByteVector
  npack_offset :: u64
  nunpack_offset :: u64
  pack_ready :: bool
  unpack_ready :: bool
  unpack_handshake_buffer :: ByteVector

definition CfbNonceProcessor_new :: "ByteVector \<Rightarrow> ByteVector \<Rightarrow> bool \<Rightarrow> CfbNonceProcessor" where
  "CfbNonceProcessor_new iv key rv =
     \<lparr>reverse = rv, base_iv = iv, hmac_key = key, npack_iv = [], nunpack_iv = [],
      npack_offset = 0, nunpack_offset = 0, pack_ready = False, unpack_ready = False,
      unpack_handshake_buffer = []\<rparr>"

text \<open>The class has its own copies of \<^verbatim>\<open>mix\<close>, \<^verbatim>\<open>encrypt\<close> and \<^verbatim>\<open>decrypt\<close>.\<close>

definition nonce_mix :: "Byte \<Rightarrow> ByteVector \<Rightarrow> nat \<Rightarrow> ByteVector" where
  "nonce_mix cipher iv pos =
     (let iv = iv[pos := iv ! pos + cipher];
          q = (pos + 1) mod length iv
      in iv[q := iv ! q XOR cipher])"

fun nonce_encrypt_from :: "u64 \<Rightarrow> nat \<Rightarrow> ByteVector \<Rightarrow> ByteVector \<Rightarrow> ByteVector \<times> ByteVector" where
  "nonce_encrypt_from offset i [] iv = ([], iv)"
| "nonce_encrypt_from offset i (x # xs) iv =
     (let pos = unat (offset + of_nat i) mod length iv;
          cipher = x XOR iv ! pos;
          (ys, iv') = nonce_encrypt_from offset (Suc i) xs (nonce_mix cipher iv pos)
      in (cipher # ys, iv'))"

fun nonce_decrypt_from :: "u64 \<Rightarrow> nat \<Rightarrow> ByteVector \<Rightarrow> ByteVector \<Rightarrow> ByteVector \<times> ByteVector" where
  "nonce_decrypt_from offset i [] iv = ([], iv)"
| "nonce_decrypt_from offset i (x # xs) iv =
     (let pos = unat (offset + of_nat i) mod length iv;
          cipher = x;
          (ys, iv') = nonce_decrypt_from offset (Suc i) xs (nonce_mix cipher iv pos)
      in ((x XOR iv ! pos) # ys, iv'))"

definition nonce_encrypt :: "ByteVector \<Rightarrow> ByteVector \<Rightarrow> u64
    \<Rightarrow> DataBufferList \<times> ByteVector \<times> u64" where
  "nonce_encrypt input iv offset =
     (let (buf, iv') = nonce_encrypt_from offset 0 input iv
      in ([buf], iv', offset + of_nat (length buf)))"

definition nonce_decrypt :: "ByteVector \<Rightarrow> ByteVector \<Rightarrow> u64
    \<Rightarrow> DataBufferList \<times> ByteVector \<times> u64" where
  "nonce_decrypt input iv offset =
     (let (buf, iv') = nonce_decrypt_from offset 0 input iv
      in ([buf], iv', offset + of_nat (length buf)))"

definition derive_iv :: "'w ext \<Rightarrow> CfbNonceProcessor \<Rightarrow> ByteVector \<Rightarrow> ByteVector outcome" where
  "derive_iv E p nonce = digest E (nonce @ base_iv p) (evp_sha512 E) 64"

definition make_nonce :: "'w ext \<Rightarrow> 'w \<Rightarrow> (ByteVector \<times> 'w) outcome" where
  "make_nonce E w = (case RAND_bytes E w NONCE_SIZE of
       (Some f, w') \<Rightarrow> Ret (map f [0..<NONCE_SIZE], w')
     | (None, w') \<Rightarrow> Throw (RuntimeError ''failed to generate cfb_nonce nonce''))"

definition init_pack :: "'w ext \<Rightarrow> 'w \<Rightarrow> CfbNonceProcessor
    \<Rightarrow> (DataBufferList \<times> CfbNonceProcessor \<times> 'w) outcome" where
  "init_pack E w p =
     obind (make_nonce E w) (\<lambda>(nonce, w').
     obind (hmac_sha256 E (hmac_key p) nonce) (\<lambda>tag.
     obind (derive_iv E p nonce) (\<lambda>iv.
     Ret ([tag @ nonce], p\<lparr>npack_iv := iv, pack_ready := True\<rparr>, w'))))"

definition init_unpack :: "'w ext \<Rightarrow> CfbNonceProcessor \<Rightarrow> ByteVector
    \<Rightarrow> CfbNonceProcessor outcome" where
  "init_unpack E p packet =
     (let expected_tag = take TAG_SIZE packet;
          nonce = take NONCE_SIZE (drop TAG_SIZE packet)
      in obind (hmac_sha256 E (hmac_key p) nonce) (\<lambda>actual_tag.
         if expected_tag \<noteq> actual_tag
         then Throw (RuntimeError ''cfb_nonce handshake hmac mismatch'')
         else obind (derive_iv E p nonce) (\<lambda>iv.
           Ret (p\<lparr>nunpack_iv := iv, unpack_ready := True\<rparr>))))"

definition nonce_pack :: "'w ext \<Rightarrow> 'w \<Rightarrow> CfbNonceProcessor \<Rightarrow> ByteVector
    \<Rightarrow> (DataBufferList \<times> CfbNonceProcessor \<times> 'w) outcome" where
  "nonce_pack E w p input =
     obind (if \<not> pack_ready p then init_pack E w p else Ret ([], p, w)) (\<lambda>(hs, p, w).
       let (out, iv, off) = nonce_encrypt input (npack_iv p) (npack_offset p)
       in Ret (hs @ out, p\<lparr>npack_iv := iv, npack_offset := off\<rparr>, w))"

definition nonce_unpack :: "'w ext \<Rightarrow> CfbNonceProcessor \<Rightarrow> ByteVector
    \<Rightarrow> (DataBufferList \<times> CfbNonceProcessor) outcome" where
  "nonce_unpack E p input =
     (if \<not> unpack_ready p then
        let buf = unpack_handshake_buffer p @ input;
            p = p\<lparr>unpack_handshake_buffer := buf\<rparr>
        in if length buf < HANDSHAKE_PACKET_SIZE then Ret ([], p)
           else obind (init_unpack E p (take HANDSHAKE_PACKET_SIZE buf)) (\<lambda>p.
             let (out, iv, off) = nonce_decrypt (drop HANDSHAKE_PACKET_SIZE buf)
                                    (nunpack_iv p) (nunpack_offset p)
             in Ret (out, p\<lparr>nunpack_iv := iv, nunpack_offset := off,
                            unpack_handshake_buffer := []\<rparr>))
      else
        let (out, iv, off) = nonce_decrypt input (nunpack_iv p) (nunpack_offset p)
        in Ret (out, p\<lparr>nunpack_iv := iv, nunpack_offset := off\<rparr>))"

subsection \<open>The copies agree with the ones of CfbProcessor\<close>

lemma nonce_mix_eq: "nonce_mix = mix"
  by (intro ext) (simp add: nonce_mix_def mix_def)

lemma nonce_encrypt_from_eq: "nonce_encrypt_from off i xs iv = encrypt_from off i xs iv"
  by (induction xs arbitrary: i iv) (simp_all add: nonce_mix_eq)

lemma nonce_decrypt_from_eq: "nonce_decrypt_from off i xs iv = decrypt_from off i xs iv"
  by (induction xs arbitrary: i iv) (simp_all add: nonce_mix_eq)

lemma nonce_encrypt_eq: "nonce_encrypt = encrypt"
  by (intro ext) (simp add: nonce_encrypt_def encrypt_def nonce_encrypt_from_eq)

lemma nonce_decrypt_eq: "nonce_decrypt = decrypt"
  by (intro ext) (simp add: nonce_decrypt_def decrypt_def nonce_decrypt_from_eq)

lemmas nonce_cipher_eq = nonce_encrypt_eq nonce_decrypt_eq

subsection \<open>Sizes of the cryptographic results\<close>

lemma hmac_sha256_length: "hmac_sha256 E key data = Ret tag \<Longrightarrow> length tag = TAG_SIZE"
  by (auto simp: hmac_sha256_def split: if_splits option.splits)

lemma derive_iv_length: "derive_iv E p nonce = Ret iv \<Longrightarrow> length iv = 64"
  by (auto simp: derive_iv_def digest_def split: if_splits option.splits)

lemma make_nonce_length: "make_nonce E w = Ret (nonce, w') \<Longrightarrow> length nonce = NONCE_SIZE"
  by (auto simp: make_nonce_def split: prod.splits option.splits)

lemma derive_iv_cong: "base_iv p = base_iv q \<Longrightarrow> derive_iv E p = derive_iv E q"
  by (simp add: derive_iv_def fun_eq_iff)

lemma init_pack_Ret:
  "init_pack E w p = Ret (hs, p', w') \<longleftrightarrow> (\<exists>nonce tag iv.
     make_nonce E w = Ret (nonce, w') \<and> hmac_sha256 E (hmac_key p) nonce = Ret tag \<and>
     derive_iv E p nonce = Ret iv \<and> hs = [tag @ nonce] \<and>
     p' = p\<lparr>npack_iv := iv, pack_ready := True\<rparr>)"
  by (auto simp: init_pack_def obind_eq_Ret)

lemma init_unpack_Ret:
  "init_unpack E p packet = Ret p' \<longleftrightarrow> (\<exists>iv.
     hmac_sha256 E (hmac_key p) (take NONCE_SIZE (drop TAG_SIZE packet)) = Ret (take TAG_SIZE packet) \<and>
     derive_iv E p (take NONCE_SIZE (drop TAG_SIZE packet)) = Ret iv \<and>
     p' = p\<lparr>nunpack_iv := iv, unpack_ready := True\<rparr>)"
  by (auto simp: init_unpack_def obind_eq_Ret Let_def)

text \<open>The packet a peer with the same keys builds is accepted, with the same IV.\<close>

lemma init_unpack_accepts:
  assumes "length nonce = NONCE_SIZE" "hmac_sha256 E (hmac_key p) nonce = Ret tag"
    "derive_iv E p nonce = Ret iv"
  shows "init_unpack E p (tag @ nonce) = Ret (p\<lparr>nunpack_iv := iv, unpack_ready := True\<rparr>)"
  using assms hmac_sha256_length [OF assms(2)] by (simp add: init_unpack_Ret)

subsection \<open>The contract\<close>

text \<open>
  The handshake buffer never holds a whole packet between calls, and a ready direction
  has the 64-byte IV that SHA-512 gives.
\<close>

definition nonce_inv :: "CfbNonceProcessor \<Rightarrow> bool" where
  "nonce_inv p \<longleftrightarrow>
     (unpack_ready p \<longrightarrow> length (nunpack_iv p) = 64) \<and>
     (\<not> unpack_ready p \<longrightarrow> length (unpack_handshake_buffer p) < HANDSHAKE_PACKET_SIZE)"

definition nonce_sync :: "CfbNonceProcessor \<Rightarrow> CfbNonceProcessor \<Rightarrow> bool" where
  "nonce_sync e d \<longleftrightarrow> nonce_inv d \<and> hmac_key e = hmac_key d \<and> base_iv e = base_iv d \<and>
     npack_offset e = nunpack_offset d \<and>
     (if pack_ready e then unpack_ready d \<and> npack_iv e = nunpack_iv d
      else \<not> unpack_ready d \<and> unpack_handshake_buffer d = [])"

lemma nonce_inv_new: "nonce_inv (CfbNonceProcessor_new iv key rv)"
  by (simp add: nonce_inv_def CfbNonceProcessor_new_def HANDSHAKE_PACKET_SIZE_def TAG_SIZE_def)

lemma nonce_sync_new:
  "nonce_sync (CfbNonceProcessor_new iv key r1) (CfbNonceProcessor_new iv key r2)"
  by (simp add: nonce_sync_def nonce_inv_new) (simp add: CfbNonceProcessor_new_def)

lemma nonce_pack_RetE:
  assumes "nonce_pack E w p x = Ret (bufs, p', w')"
  obtains hs q out iv off where
    "if pack_ready p then hs = [] \<and> q = p \<and> w' = w else init_pack E w p = Ret (hs, q, w')"
    "encrypt x (npack_iv q) (npack_offset q) = (out, iv, off)" "bufs = hs @ out"
    "p' = q\<lparr>npack_iv := iv, npack_offset := off\<rparr>"
proof -
  from assms obtain t where
    t: "(if \<not> pack_ready p then init_pack E w p else Ret ([], p, w)) = Ret t" and
    r: "(case t of (hs, q, w1) \<Rightarrow>
          let (out, iv, off) = encrypt x (npack_iv q) (npack_offset q)
          in Ret (hs @ out, q\<lparr>npack_iv := iv, npack_offset := off\<rparr>, w1)) = Ret (bufs, p', w')"
    unfolding nonce_pack_def nonce_cipher_eq obind_eq_Ret by blast
  obtain hs q w1 where tt: "t = (hs, q, w1)" by (rule prod_cases3)
  note 1 = t [unfolded tt] and 2 = r [unfolded tt, simplified]
  obtain out iv off where 3: "encrypt x (npack_iv q) (npack_offset q) = (out, iv, off)"
    by (rule prod_cases3)
  from 1 2 3 show thesis by (intro that [of hs q out iv off]) (auto split: if_splits)
qed

lemma nonce_unpack_ready:
  assumes "unpack_ready p" "decrypt x (nunpack_iv p) (nunpack_offset p) = (out, iv, off)"
  shows "nonce_unpack E p x = Ret (out, p\<lparr>nunpack_iv := iv, nunpack_offset := off\<rparr>)"
  using assms by (simp add: nonce_unpack_def nonce_cipher_eq)

lemma nonce_unpack_short:
  assumes "\<not> unpack_ready p" "length (unpack_handshake_buffer p @ x) < HANDSHAKE_PACKET_SIZE"
  shows "nonce_unpack E p x =
    Ret ([], p\<lparr>unpack_handshake_buffer := unpack_handshake_buffer p @ x\<rparr>)"
  using assms by (simp add: nonce_unpack_def)

text \<open>
  When the packet is complete: it is consumed first, and what is left of the buffer goes
  to a processor that is ready.
\<close>

lemma nonce_unpack_complete:
  assumes "\<not> unpack_ready p" "HANDSHAKE_PACKET_SIZE \<le> length (unpack_handshake_buffer p @ x)"
  shows "nonce_unpack E p x =
    (let buf = unpack_handshake_buffer p @ x
     in obind (init_unpack E p (take HANDSHAKE_PACKET_SIZE buf)) (\<lambda>q.
          nonce_unpack E (q\<lparr>unpack_handshake_buffer := []\<rparr>) (drop HANDSHAKE_PACKET_SIZE buf)))"
proof -
  define buf where "buf = unpack_handshake_buffer p @ x"
  define pkt where "pkt = take HANDSHAKE_PACKET_SIZE buf"
  have i: "init_unpack E (p\<lparr>unpack_handshake_buffer := buf\<rparr>) pkt =
      obind (init_unpack E p pkt) (\<lambda>q. Ret (q\<lparr>unpack_handshake_buffer := buf\<rparr>))"
    by (auto simp: init_unpack_def Let_def derive_iv_def obind_assoc intro!: obind_cong)
  have r: "init_unpack E p pkt = Ret q \<Longrightarrow> unpack_ready q" for q
    by (auto simp: init_unpack_Ret)
  from assms have "nonce_unpack E p x =
      obind (init_unpack E (p\<lparr>unpack_handshake_buffer := buf\<rparr>) pkt) (\<lambda>p.
        let (out, iv, off) = decrypt (drop HANDSHAKE_PACKET_SIZE buf) (nunpack_iv p) (nunpack_offset p)
        in Ret (out, p\<lparr>nunpack_iv := iv, nunpack_offset := off, unpack_handshake_buffer := []\<rparr>))"
    by (simp add: nonce_unpack_def nonce_cipher_eq buf_def pkt_def)
  also have "\<dots> = obind (init_unpack E p pkt) (\<lambda>q.
      nonce_unpack E (q\<lparr>unpack_handshake_buffer := []\<rparr>) (drop HANDSHAKE_PACKET_SIZE buf))"
    unfolding i obind_assoc
    by (rule obind_cong) (auto dest: r simp: nonce_unpack_def nonce_cipher_eq split: prod.splits)
  finally show ?thesis by (simp add: buf_def pkt_def)
qed

lemma nonce_unpack_append_ready:
  assumes "unpack_ready p"
  shows "stream_view (nonce_unpack E p (a @ b)) =
     Option.bind (stream_view (nonce_unpack E p a)) (\<lambda>(x, p').
       Option.bind (stream_view (nonce_unpack E p' b)) (\<lambda>(y, p''). Some (x @ y, p'')))"
proof -
  obtain out1 iv1 off1 where 1: "decrypt a (nunpack_iv p) (nunpack_offset p) = (out1, iv1, off1)"
    by (rule prod_cases3)
  obtain out2 iv2 off2 where 2: "decrypt b iv1 off1 = (out2, iv2, off2)"
    by (rule prod_cases3)
  from assms 1 2 decrypt_append [OF 1 2] show ?thesis by (simp add: nonce_unpack_ready)
qed

lemma nonce_unpack_append:
  "stream_view (nonce_unpack E p (a @ b)) =
     Option.bind (stream_view (nonce_unpack E p a)) (\<lambda>(x, p').
       Option.bind (stream_view (nonce_unpack E p' b)) (\<lambda>(y, p''). Some (x @ y, p'')))"
proof (cases "unpack_ready p")
  case True
  then show ?thesis by (rule nonce_unpack_append_ready)
next
  case False
  note nr = False
  define buf where "buf = unpack_handshake_buffer p @ a"
  show ?thesis
  proof (cases "length buf < HANDSHAKE_PACKET_SIZE")
    case True
    then have short: "nonce_unpack E p a = Ret ([], p\<lparr>unpack_handshake_buffer := buf\<rparr>)"
      using nr nonce_unpack_short [of p a E] by (simp add: buf_def)
    have "nonce_unpack E (p\<lparr>unpack_handshake_buffer := buf\<rparr>) b = nonce_unpack E p (a @ b)"
      using nr by (simp add: nonce_unpack_def buf_def)
    with short show ?thesis by (cases "stream_view (nonce_unpack E p (a @ b))") auto
  next
    case False
    then have a: "HANDSHAKE_PACKET_SIZE \<le> length (unpack_handshake_buffer p @ a)"
      and ab: "HANDSHAKE_PACKET_SIZE \<le> length (unpack_handshake_buffer p @ a @ b)"
      by (auto simp: buf_def)
    have r: "init_unpack E p pkt = Ret q \<Longrightarrow> unpack_ready q" for pkt q
      by (auto simp: init_unpack_Ret)
    let ?init = "init_unpack E p (take HANDSHAKE_PACKET_SIZE buf)"
    let ?rest = "drop HANDSHAKE_PACKET_SIZE buf"
    have tk: "take HANDSHAKE_PACKET_SIZE (unpack_handshake_buffer p @ a @ b) =
        take HANDSHAKE_PACKET_SIZE buf"
      and dr: "drop HANDSHAKE_PACKET_SIZE (unpack_handshake_buffer p @ a @ b) = ?rest @ b"
      using False by (simp_all add: buf_def)
    have ua: "nonce_unpack E p a =
        obind ?init (\<lambda>q. nonce_unpack E (q\<lparr>unpack_handshake_buffer := []\<rparr>) ?rest)"
      by (simp only: nonce_unpack_complete [OF nr a] Let_def buf_def)
    have uab: "nonce_unpack E p (a @ b) =
        obind ?init (\<lambda>q. nonce_unpack E (q\<lparr>unpack_handshake_buffer := []\<rparr>) (?rest @ b))"
      by (simp only: nonce_unpack_complete [OF nr ab] Let_def tk dr)
    show ?thesis
    proof (cases ?init)
      case (Ret q)
      with r have "unpack_ready (q\<lparr>unpack_handshake_buffer := []\<rparr>)" by simp
      with nonce_unpack_append_ready [OF this, of E ?rest b] Ret show ?thesis
        by (simp add: ua uab)
    qed (simp_all add: ua uab)
  qed
qed

lemma nonce_unpack_inv:
  assumes "nonce_inv p" "nonce_unpack E p x = Ret (bufs, p')"
  shows "nonce_inv p'"
proof (cases "\<not> unpack_ready p \<and> length (unpack_handshake_buffer p @ x) < HANDSHAKE_PACKET_SIZE")
  case True
  with assms show ?thesis by (auto simp: nonce_unpack_short nonce_inv_def)
next
  case False
  have ready: "nonce_inv p'" if "nonce_inv q" "unpack_ready q" "nonce_unpack E q y = Ret (bufs, p')" for q y
    using that length_iv_decrypt [of y "nunpack_iv q" "nunpack_offset q"]
    by (cases "decrypt y (nunpack_iv q) (nunpack_offset q)") (auto simp: nonce_unpack_ready nonce_inv_def)
  show ?thesis
  proof (cases "unpack_ready p")
    case True
    with assms show ?thesis by (blast intro: ready)
  next
    case nr: False
    with False assms(2) obtain q where
      q: "init_unpack E p (take HANDSHAKE_PACKET_SIZE (unpack_handshake_buffer p @ x)) = Ret q" and
      u: "nonce_unpack E (q\<lparr>unpack_handshake_buffer := []\<rparr>)
        (drop HANDSHAKE_PACKET_SIZE (unpack_handshake_buffer p @ x)) = Ret (bufs, p')"
      using nonce_unpack_complete [OF nr, of x E] by (auto simp: Let_def obind_eq_Ret)
    from q assms(1) have "nonce_inv (q\<lparr>unpack_handshake_buffer := []\<rparr>)" "unpack_ready q"
      by (auto simp: init_unpack_Ret nonce_inv_def dest: derive_iv_length)
    with ready [OF _ _ u] show ?thesis by simp
  qed
qed

lemma nonce_unpack_encrypted:
  assumes "unpack_ready d" "encrypt x (nunpack_iv d) (nunpack_offset d) = (out, iv, off)"
  shows "nonce_unpack E d (concat out) = Ret ([x], d\<lparr>nunpack_iv := iv, nunpack_offset := off\<rparr>)"
  by (rule nonce_unpack_ready [OF assms(1) decrypt_encrypt [OF assms(2)]])

lemma nonce_unpack_handshake:
  assumes "\<not> unpack_ready d" "unpack_handshake_buffer d = []"
    "length nonce = NONCE_SIZE" "hmac_sha256 E (hmac_key d) nonce = Ret tag"
    "derive_iv E d nonce = Ret iv"
  shows "nonce_unpack E d (tag @ nonce @ rest) =
    nonce_unpack E (d\<lparr>nunpack_iv := iv, unpack_ready := True\<rparr>) rest"
proof -
  have len: "length (tag @ nonce) = HANDSHAKE_PACKET_SIZE"
    using assms(3) hmac_sha256_length [OF assms(4)] by (simp add: HANDSHAKE_PACKET_SIZE_def)
  have tk: "take HANDSHAKE_PACKET_SIZE (tag @ nonce @ rest) = tag @ nonce"
    and dr: "drop HANDSHAKE_PACKET_SIZE (tag @ nonce @ rest) = rest"
    using len by (simp_all add: append_assoc [symmetric] del: append_assoc)
  have le: "HANDSHAKE_PACKET_SIZE \<le> length (unpack_handshake_buffer d @ tag @ nonce @ rest)"
    using len by simp
  have "nonce_unpack E d (tag @ nonce @ rest) =
      nonce_unpack E (d\<lparr>nunpack_iv := iv, unpack_ready := True, unpack_handshake_buffer := []\<rparr>) rest"
    unfolding nonce_unpack_complete [OF assms(1) le] Let_def assms(2) append_Nil tk dr
      init_unpack_accepts [OF assms(3-5)] by simp
  also have "d\<lparr>nunpack_iv := iv, unpack_ready := True, unpack_handshake_buffer := []\<rparr> =
      d\<lparr>nunpack_iv := iv, unpack_ready := True\<rparr>"
    using assms(2) by (cases d) simp
  finally show ?thesis .
qed

lemma nonce_pack_unpack:
  assumes "nonce_sync e d" "nonce_pack E w e x = Ret (bufs, e', w')"
  shows "\<exists>d'. stream_view (nonce_unpack E d (concat bufs)) = Some (x, d') \<and> nonce_sync e' d'"
proof -
  from assms(2) obtain hs q out iv off where
    q: "if pack_ready e then hs = [] \<and> q = e \<and> w' = w else init_pack E w e = Ret (hs, q, w')" and
    enc: "encrypt x (npack_iv q) (npack_offset q) = (out, iv, off)" and
    e': "bufs = hs @ out" "e' = q\<lparr>npack_iv := iv, npack_offset := off\<rparr>"
    by (rule nonce_pack_RetE)
  show ?thesis
  proof (cases "pack_ready e")
    case True
    with assms(1) q enc e' nonce_unpack_encrypted [of d x out iv off E] length_iv_encrypt [OF enc]
    show ?thesis by (auto simp: nonce_sync_def nonce_inv_def)
  next
    case False
    with q obtain nonce tag iv0 where
      n: "make_nonce E w = Ret (nonce, w')" "hmac_sha256 E (hmac_key e) nonce = Ret tag"
        "derive_iv E e nonce = Ret iv0" "hs = [tag @ nonce]"
        "q = e\<lparr>npack_iv := iv0, pack_ready := True\<rparr>"
      by (auto simp: init_pack_Ret)
    let ?d = "d\<lparr>nunpack_iv := iv0, unpack_ready := True\<rparr>"
    from assms(1) False have d: "\<not> unpack_ready d" "unpack_handshake_buffer d = []"
      "npack_offset e = nunpack_offset d" "hmac_key d = hmac_key e" "base_iv d = base_iv e"
      by (auto simp: nonce_sync_def)
    have "nonce_unpack E d (concat bufs) = nonce_unpack E ?d (concat out)"
      using nonce_unpack_handshake [OF d(1,2) make_nonce_length [OF n(1)], of E tag iv0 "concat out"]
        n d derive_iv_cong [OF d(5), of E] e' by simp
    also have "\<dots> = Ret ([x], ?d\<lparr>nunpack_iv := iv, nunpack_offset := off\<rparr>)"
      by (rule nonce_unpack_encrypted) (use enc n d in simp_all)
    finally show ?thesis
      using assms(1) e' n d length_iv_encrypt [OF enc] derive_iv_length [OF n(3)]
      by (simp add: nonce_sync_def nonce_inv_def)
  qed
qed

lemma nonce_pack_fields:
  assumes "nonce_pack E w p x = Ret (bufs, p', w')"
  shows "nunpack_iv p' = nunpack_iv p" "nunpack_offset p' = nunpack_offset p"
    "unpack_ready p' = unpack_ready p" "unpack_handshake_buffer p' = unpack_handshake_buffer p"
    "hmac_key p' = hmac_key p" "base_iv p' = base_iv p" "pack_ready p'" "reverse p' = reverse p"
  by (rule nonce_pack_RetE [OF assms]; auto simp: init_pack_Ret split: if_splits)+

text \<open>What \<open>unpack\<close> can write: the fields of its own direction.\<close>

lemma nonce_unpack_RetE:
  assumes "nonce_unpack E p x = Ret (bufs, p')"
  obtains b where "p' = p\<lparr>unpack_handshake_buffer := b\<rparr>"
  | iv off b where "p' = p\<lparr>nunpack_iv := iv, nunpack_offset := off, unpack_ready := True,
      unpack_handshake_buffer := b\<rparr>"
proof (cases "\<not> unpack_ready p \<and> length (unpack_handshake_buffer p @ x) < HANDSHAKE_PACKET_SIZE")
  case True
  with assms have "p' = p\<lparr>unpack_handshake_buffer := unpack_handshake_buffer p @ x\<rparr>"
    by (simp add: nonce_unpack_short)
  then show ?thesis by (rule that)
next
  case False
  have ready: "\<exists>iv off. p' = q\<lparr>nunpack_iv := iv, nunpack_offset := off\<rparr>"
    if "unpack_ready q" "nonce_unpack E q y = Ret (bufs, p')" for q y
    using that by (cases "decrypt y (nunpack_iv q) (nunpack_offset q)") (auto simp: nonce_unpack_ready)
  show ?thesis
  proof (cases "unpack_ready p")
    case True
    with ready [OF _ assms] obtain iv off where "p' = p\<lparr>nunpack_iv := iv, nunpack_offset := off\<rparr>"
      by auto
    with True have "p' = p\<lparr>nunpack_iv := iv, nunpack_offset := off, unpack_ready := True,
        unpack_handshake_buffer := unpack_handshake_buffer p\<rparr>" by (cases p) simp
    then show ?thesis by (rule that)
  next
    case nr: False
    with False assms obtain q where
      q: "init_unpack E p (take HANDSHAKE_PACKET_SIZE (unpack_handshake_buffer p @ x)) = Ret q" and
      u: "nonce_unpack E (q\<lparr>unpack_handshake_buffer := []\<rparr>)
        (drop HANDSHAKE_PACKET_SIZE (unpack_handshake_buffer p @ x)) = Ret (bufs, p')"
      using nonce_unpack_complete [OF nr, of x E] by (auto simp: Let_def obind_eq_Ret)
    from q obtain iv0 where q': "q = p\<lparr>nunpack_iv := iv0, unpack_ready := True\<rparr>"
      by (auto simp: init_unpack_Ret)
    with ready [OF _ u] obtain iv off where
      "p' = q\<lparr>unpack_handshake_buffer := [], nunpack_iv := iv, nunpack_offset := off\<rparr>" by auto
    with q' show ?thesis by (intro that(2) [where iv = iv and off = off and b = "[]"]) simp
  qed
qed

lemma nonce_unpack_fields:
  assumes "nonce_unpack E p x = Ret (bufs, p')"
  shows "npack_iv p' = npack_iv p" "npack_offset p' = npack_offset p"
    "pack_ready p' = pack_ready p" "hmac_key p' = hmac_key p" "base_iv p' = base_iv p"
    "reverse p' = reverse p"
  by (rule nonce_unpack_RetE [OF assms]; simp)+

definition nonce_same_unpack :: "CfbNonceProcessor \<Rightarrow> CfbNonceProcessor \<Rightarrow> bool" where
  "nonce_same_unpack p q \<longleftrightarrow> hmac_key p = hmac_key q \<and> base_iv p = base_iv q \<and>
     nunpack_iv p = nunpack_iv q \<and> nunpack_offset p = nunpack_offset q \<and>
     unpack_ready p = unpack_ready q \<and>
     unpack_handshake_buffer p = unpack_handshake_buffer q"

lemma nonce_same_unpack_init:
  assumes "nonce_same_unpack p q" "init_unpack E p pkt = Ret p'"
  shows "\<exists>q'. init_unpack E q pkt = Ret q' \<and> nonce_same_unpack p' q'"
  using assms derive_iv_cong [of p q E] by (auto simp: init_unpack_Ret nonce_same_unpack_def)

lemma nonce_same_unpack_step:
  assumes same: "nonce_same_unpack p q" and u: "nonce_unpack E p x = Ret (bufs, p')"
  shows "\<exists>q'. nonce_unpack E q x = Ret (bufs, q') \<and> nonce_same_unpack p' q'"
proof -
  have ready: "\<exists>q'. nonce_unpack E q1 y = Ret (bufs, q') \<and> nonce_same_unpack p' q'"
    if "nonce_same_unpack p1 q1" "unpack_ready p1" "nonce_unpack E p1 y = Ret (bufs, p')" for p1 q1 y
    using that by (cases "decrypt y (nunpack_iv p1) (nunpack_offset p1)")
      (auto simp: nonce_unpack_ready nonce_same_unpack_def)
  let ?buf = "unpack_handshake_buffer p @ x"
  have q: "unpack_ready q = unpack_ready p" "unpack_handshake_buffer q = unpack_handshake_buffer p"
    using same by (auto simp: nonce_same_unpack_def)
  consider "unpack_ready p" | "\<not> unpack_ready p" "length ?buf < HANDSHAKE_PACKET_SIZE"
    | "\<not> unpack_ready p" "HANDSHAKE_PACKET_SIZE \<le> length ?buf" by linarith
  then show ?thesis
  proof cases
    case 1
    with same u show ?thesis by (blast intro: ready)
  next
    case 2
    with u q same show ?thesis by (auto simp: nonce_unpack_short nonce_same_unpack_def)
  next
    case 3
    with u obtain p1 where
      i: "init_unpack E p (take HANDSHAKE_PACKET_SIZE ?buf) = Ret p1" and
      u1: "nonce_unpack E (p1\<lparr>unpack_handshake_buffer := []\<rparr>) (drop HANDSHAKE_PACKET_SIZE ?buf) =
        Ret (bufs, p')"
      by (auto simp: nonce_unpack_complete [OF 3] Let_def obind_eq_Ret)
    from nonce_same_unpack_init [OF same i] obtain q1 where
      j: "init_unpack E q (take HANDSHAKE_PACKET_SIZE ?buf) = Ret q1" and s1: "nonce_same_unpack p1 q1"
      by auto
    from i have r1: "unpack_ready (p1\<lparr>unpack_handshake_buffer := []\<rparr>)" by (auto simp: init_unpack_Ret)
    from s1 have "nonce_same_unpack (p1\<lparr>unpack_handshake_buffer := []\<rparr>) (q1\<lparr>unpack_handshake_buffer := []\<rparr>)"
      by (simp add: nonce_same_unpack_def)
    from ready [OF this r1 u1] j 3 q show ?thesis
      using nonce_unpack_complete [of q x E] by (simp add: Let_def)
  qed
qed

interpretation nonce: processor_contract
  "nonce_pack E" "nonce_unpack E" nonce_inv nonce_sync nonce_same_unpack for E
proof unfold_locales
  show "stream_view (nonce_unpack E p []) = Some ([], p)" if "nonce_inv p" for p
    using that by (cases "unpack_ready p") (simp_all add: nonce_unpack_ready nonce_unpack_short nonce_inv_def)
  show "nonce_sync e' d" if "nonce_sync e d" "nonce_unpack E e x = Ret (bufs, e')" for e d x bufs e'
    using that nonce_unpack_fields [OF that(2)] by (simp add: nonce_sync_def)
  show "nonce_same_unpack p p'" if "nonce_pack E w p x = Ret (bufs, p', w')" for w p x bufs p' w'
    using nonce_pack_fields [OF that] by (simp add: nonce_same_unpack_def)
  show "nonce_inv q" if "nonce_same_unpack p q" "nonce_inv p" for p q
    using that by (simp add: nonce_inv_def nonce_same_unpack_def)
  show "nonce_sync e q" if "nonce_same_unpack p q" "nonce_sync e p" for p q e
    using that by (auto simp: nonce_sync_def nonce_inv_def nonce_same_unpack_def split: if_splits)
  show "nonce_inv d" if "nonce_sync e d" for e d
    using that by (simp add: nonce_sync_def)
qed (erule nonce_unpack_append nonce_unpack_inv nonce_pack_unpack nonce_same_unpack_step, assumption
  | rule nonce_unpack_append)+

subsection \<open>Properties\<close>

text \<open>With the example's outside every pack succeeds.\<close>

lemma example_init_pack:
  assumes "length (hmac_key p) \<le> 2147483647"
  shows "\<exists>hs q. init_pack example_ext w p = Ret ([hs], q, Suc w) \<and> hmac_key q = hmac_key p \<and>
    length hs = HANDSHAKE_PACKET_SIZE"
  using assms by (simp add: init_pack_def make_nonce_def hmac_sha256_def derive_iv_def digest_def
      example_ext_def TAG_SIZE_def HANDSHAKE_PACKET_SIZE_def)

lemma example_nonce_pack:
  assumes "length (hmac_key p) \<le> 2147483647"
  shows "\<exists>y q w'. stream_view (nonce_pack example_ext w p x) = Some (y, (q, w')) \<and>
    hmac_key q = hmac_key p \<and>
    length y = (if pack_ready p then 0 else HANDSHAKE_PACKET_SIZE) + length x \<and> pack_ready q"
proof -
  obtain hs q where i: "init_pack example_ext w p = Ret ([hs], q, Suc w)" "hmac_key q = hmac_key p"
    "length hs = HANDSHAKE_PACKET_SIZE" using example_init_pack [OF assms, of w] by auto
  have len: "length (concat out) = length y" if "nonce_encrypt y iv0 off0 = (out, iv, off)"
    for y iv0 off0 out iv off
    using that by (auto simp: nonce_cipher_eq encrypt_def Let_def split: prod.splits)
      (metis fst_conv length_encrypt_from(1))
  from i have "pack_ready q" by (auto simp: init_pack_Ret)
  with i len show ?thesis by (auto simp: nonce_pack_def split: prod.splits)
qed

text \<open>
  Property C9. Round trip of CfbNonceProcessor: when every pack succeeds (the library and
  the random source work), a peer built from the same iv and hmac key that unpacks the
  bytes, cut anywhere, even inside the handshake packet, gives back the packed bytes.
\<close>

theorem nonce_stream_roundtrip:
  assumes "feed_stream (\<lambda>(p, w) x. stream_view (nonce_pack E w p x))
      (CfbNonceProcessor_new iv key r1, w) xs = Some (wire, e')"
    and "concat frags = wire"
  shows "\<exists>d. feed_stream (\<lambda>p x. stream_view (nonce_unpack E p x)) (CfbNonceProcessor_new iv key r2) frags =
    Some (concat xs, d)"
  using nonce.codec.roundtrip [OF _ assms] nonce_sync_new by fastforce

theorem nonce_stream_roundtrip_witness:
  "\<exists>wire e' d. feed_stream (\<lambda>(p, w) x. stream_view (nonce_pack example_ext w p x))
      (CfbNonceProcessor_new [1] [2] False, 7) [[5], [6, 8]] = Some (wire, e') \<and> length wire = 547 \<and>
    feed_stream (\<lambda>p x. stream_view (nonce_unpack example_ext p x)) (CfbNonceProcessor_new [1] [2] True)
      [take 100 wire, drop 100 wire] = Some ([5, 6, 8], d)"
proof -
  let ?p = "CfbNonceProcessor_new [1] [2] False"
  have p: "hmac_key ?p = [2]" "\<not> pack_ready ?p" by (simp_all add: CfbNonceProcessor_new_def)
  from example_nonce_pack [of ?p 7 "[5]"] p obtain y1 q1 w1 where
    1: "stream_view (nonce_pack example_ext 7 ?p [5]) = Some (y1, (q1, w1))" "hmac_key q1 = [2]"
      "length y1 = 545" "pack_ready q1" by (auto simp: HANDSHAKE_PACKET_SIZE_def TAG_SIZE_def NONCE_SIZE_def)
  from example_nonce_pack [of q1 w1 "[6, 8]"] 1 obtain y2 q2 w2 where
    2: "stream_view (nonce_pack example_ext w1 q1 [6, 8]) = Some (y2, (q2, w2))" "length y2 = 2" by auto
  have f: "feed_stream (\<lambda>(p, w) x. stream_view (nonce_pack example_ext w p x)) (?p, 7) [[5], [6, 8]] =
      Some (y1 @ y2, (q2, w2))" using 1 2 by simp
  from nonce_stream_roundtrip [OF f, of "[take 100 (y1 @ y2), drop 100 (y1 @ y2)]" True] f 1 2
  show ?thesis by fastforce
qed

text \<open>
  The handshake: the first call of pack that succeeds emits one packet of 544
  bytes, a tag that is the HMAC of the 512-byte nonce followed by the nonce, then a buffer
  of the input's length; every later call emits the encrypted buffer only.
\<close>

theorem nonce_handshake_format:
  assumes "nonce_pack E w p x = Ret (bufs, p', w')"
  shows "pack_ready p' \<and> (if pack_ready p then \<exists>c. bufs = [c] \<and> length c = length x
    else \<exists>tag nonce c. bufs = [tag @ nonce, c] \<and> hmac_sha256 E (hmac_key p) nonce = Ret tag \<and>
      length (tag @ nonce) = HANDSHAKE_PACKET_SIZE \<and> length nonce = NONCE_SIZE \<and> length c = length x)"
proof -
  have enc: "\<exists>c. out = [c] \<and> length c = length y" if "encrypt y iv0 off0 = (out, iv, off)"
    for y iv0 off0 out iv off
    using that by (auto simp: encrypt_def Let_def split: prod.splits)
      (metis fst_conv length_encrypt_from(1))
  from assms obtain hs q out iv off where
    q: "if pack_ready p then hs = [] \<and> q = p \<and> w' = w else init_pack E w p = Ret (hs, q, w')" and
    e: "encrypt x (npack_iv q) (npack_offset q) = (out, iv, off)" and b: "bufs = hs @ out"
    by (rule nonce_pack_RetE)
  show ?thesis
  proof (cases "pack_ready p")
    case True
    with enc [OF e] q b nonce_pack_fields(7) [OF assms] show ?thesis by auto
  next
    case False
    with q obtain nonce tag where n: "make_nonce E w = Ret (nonce, w')"
      "hmac_sha256 E (hmac_key p) nonce = Ret tag" "hs = [tag @ nonce]"
      by (auto simp: init_pack_Ret)
    moreover have "length (tag @ nonce) = HANDSHAKE_PACKET_SIZE"
      using make_nonce_length [OF n(1)] hmac_sha256_length [OF n(2)] by (simp add: HANDSHAKE_PACKET_SIZE_def)
    moreover obtain c where "out = [c]" "length c = length x" using enc [OF e] by auto
    ultimately have "bufs = [tag @ nonce, c] \<and> hmac_sha256 E (hmac_key p) nonce = Ret tag \<and>
        length (tag @ nonce) = HANDSHAKE_PACKET_SIZE \<and> length nonce = NONCE_SIZE \<and> length c = length x"
      using b make_nonce_length [OF n(1)] by simp
    with False nonce_pack_fields(7) [OF assms] show ?thesis by auto
  qed
qed

theorem nonce_handshake_format_witness:
  "\<exists>bufs p' w'. nonce_pack example_ext 3 (CfbNonceProcessor_new [1] [2] False) [9] = Ret (bufs, p', w') \<and>
    length (hd bufs) = HANDSHAKE_PACKET_SIZE \<and> length (hd (tl bufs)) = 1"
proof -
  let ?p = "CfbNonceProcessor_new [1] [2] False"
  from example_nonce_pack [of ?p 3 "[9]"] obtain bufs p' w' where
    r: "nonce_pack example_ext 3 ?p [9] = Ret (bufs, p', w')"
    by (auto simp: CfbNonceProcessor_new_def stream_view_eq_Some)
  from nonce_handshake_format [OF r] r show ?thesis by (auto simp: CfbNonceProcessor_new_def)
qed

text \<open>
  Property C10. Nothing is decoded before the peer is authenticated: while the handshake
  packet is incomplete no buffer comes out, and a complete packet whose tag is not the
  HMAC of its nonce under this node's key makes the call throw, whatever follows it.
\<close>

theorem nonce_authenticates_first:
  fixes p :: CfbNonceProcessor and x :: ByteVector
  assumes "\<not> unpack_ready p"
  defines "buf \<equiv> unpack_handshake_buffer p @ x"
  defines "nonce \<equiv> take NONCE_SIZE (drop TAG_SIZE buf)"
  shows "(length buf < HANDSHAKE_PACKET_SIZE \<longrightarrow>
       nonce_unpack E p x = Ret ([], p\<lparr>unpack_handshake_buffer := buf\<rparr>)) \<and>
    (HANDSHAKE_PACKET_SIZE \<le> length buf \<and> hmac_sha256 E (hmac_key p) nonce = Ret tag \<and>
       take TAG_SIZE buf \<noteq> tag \<longrightarrow>
       nonce_unpack E p x = Throw (RuntimeError ''cfb_nonce handshake hmac mismatch''))"
proof (intro conjI impI)
  assume "length buf < HANDSHAKE_PACKET_SIZE"
  with assms show "nonce_unpack E p x = Ret ([], p\<lparr>unpack_handshake_buffer := buf\<rparr>)"
    by (simp add: nonce_unpack_short)
next
  assume bad: "HANDSHAKE_PACKET_SIZE \<le> length buf \<and> hmac_sha256 E (hmac_key p) nonce = Ret tag \<and>
    take TAG_SIZE buf \<noteq> tag"
  have tk: "take TAG_SIZE (take HANDSHAKE_PACKET_SIZE buf) = take TAG_SIZE buf"
    "take NONCE_SIZE (drop TAG_SIZE (take HANDSHAKE_PACKET_SIZE buf)) = nonce"
    by (simp_all add: HANDSHAKE_PACKET_SIZE_def nonce_def drop_take min_def)
  have "init_unpack E p (take HANDSHAKE_PACKET_SIZE buf) =
      Throw (RuntimeError ''cfb_nonce handshake hmac mismatch'')"
    using bad by (simp add: init_unpack_def Let_def tk del: take_take)
  with bad assms show "nonce_unpack E p x = Throw (RuntimeError ''cfb_nonce handshake hmac mismatch'')"
    using nonce_unpack_complete [of p x E] by (simp add: buf_def Let_def)
qed

theorem nonce_authenticates_first_witness:
  "nonce_unpack example_ext (CfbNonceProcessor_new [1] [2] False) (replicate 600 0) =
    Throw (RuntimeError ''cfb_nonce handshake hmac mismatch'')"
proof -
  let ?p = "CfbNonceProcessor_new [1] [2] False"
  have p: "\<not> unpack_ready ?p" "unpack_handshake_buffer ?p = []" "hmac_key ?p = [2]"
    by (simp_all add: CfbNonceProcessor_new_def)
  have "hmac_sha256 example_ext [2] (take NONCE_SIZE (drop TAG_SIZE (replicate 600 0))) =
      Ret (replicate 32 1)"
    by (simp add: hmac_sha256_def example_ext_def NONCE_SIZE_def TAG_SIZE_def)
  with nonce_authenticates_first [OF p(1), of "replicate 600 0" example_ext "replicate 32 1"] p
  show ?thesis by (simp add: HANDSHAKE_PACKET_SIZE_def NONCE_SIZE_def TAG_SIZE_def)
qed

end
