(* ===== verification/Padding.thy ===== *)
theory Padding
  imports Identity External
begin

section \<open>PaddingProcessor\<close>

text \<open>
  \<^verbatim>\<open>PaddingProcessor\<close> (\<^verbatim>\<open>padding.cpp\<close>): the packed stream is a sequence of frames,
  an 8-byte header with the payload and the padding length, the payload, and random
  padding. The packing loop never ends for a chunk size of 0, so it is a partial function
  whose value \<open>None\<close> means that it does not return.
\<close>

record PaddingProcessor = Processor +
  chunk_size :: nat
  pad_max :: nat
  pack_rng :: mt19937_64
  unpack_buffer :: ByteVector

definition PaddingProcessor_new :: "nat \<Rightarrow> nat \<Rightarrow> u64 \<Rightarrow> bool \<Rightarrow> PaddingProcessor" where
  "PaddingProcessor_new chunk pmax seed rv =
     \<lparr>reverse = rv, chunk_size = chunk, pad_max = pmax,
      pack_rng = mt_seed (if rv then seed XOR 0x9E3779B97F4A7C15 else seed),
      unpack_buffer = []\<rparr>"

definition write_u32 :: "ByteVector \<Rightarrow> u32 \<Rightarrow> ByteVector" where
  "write_u32 out v =
     out @ [ucast (drop_bit 24 v AND 0xFF)] @ [ucast (drop_bit 16 v AND 0xFF)]
         @ [ucast (drop_bit 8 v AND 0xFF)] @ [ucast (v AND 0xFF)]"

definition read_u32 :: "ByteVector \<Rightarrow> nat \<Rightarrow> u32" where
  "read_u32 acc p =
     push_bit 24 (ucast (acc ! p)) OR push_bit 16 (ucast (acc ! (p + 1)))
       OR push_bit 8 (ucast (acc ! (p + 2))) OR ucast (acc ! (p + 3))"

text \<open>The inner loop of \<^verbatim>\<open>apply_pack\<close>: that many random bytes.\<close>

fun pad_bytes :: "'w ext \<Rightarrow> nat \<Rightarrow> mt19937_64 \<Rightarrow> ByteVector \<times> mt19937_64" where
  "pad_bytes E 0 rng = ([], rng)"
| "pad_bytes E (Suc n) rng =
     (let (v, rng) = uniform_u32 E 0 255 rng;
          (bs, rng) = pad_bytes E n rng
      in (ucast v # bs, rng))"

partial_function (option) apply_pack_loop :: "'w ext \<Rightarrow> nat \<Rightarrow> nat \<Rightarrow> ByteVector \<Rightarrow> nat \<Rightarrow> mt19937_64
    \<Rightarrow> DataBufferList \<Rightarrow> (DataBufferList \<times> mt19937_64) option" where
  "apply_pack_loop E chunk pmax input pos rng output =
     (if pos < length input then
        let payload_len = min chunk (length input - pos);
            (pad_len, rng) = uniform_u32 E 0 (of_nat pmax) rng;
            frame = write_u32 [] (of_nat payload_len);
            frame = write_u32 frame pad_len;
            frame = frame @ take payload_len (drop pos input);
            (padding, rng) = pad_bytes E (unat pad_len) rng
        in apply_pack_loop E chunk pmax input (pos + payload_len) rng
             (output @ [frame @ padding])
      else Some (output, rng))"

definition padding_pack :: "'w ext \<Rightarrow> 'w \<Rightarrow> PaddingProcessor \<Rightarrow> ByteVector
    \<Rightarrow> (DataBufferList \<times> PaddingProcessor \<times> 'w) outcome" where
  "padding_pack E w p input =
     (case apply_pack_loop E (chunk_size p) (pad_max p) input 0 (pack_rng p) [] of
        None \<Rightarrow> Diverge
      | Some (out, rng) \<Rightarrow> Ret (out, p\<lparr>pack_rng := rng\<rparr>, w))"

text \<open>The length of a frame, computed in 64 bits.\<close>

definition frame_len_u64 :: "u32 \<Rightarrow> u32 \<Rightarrow> u64" where
  "frame_len_u64 payload_len pad_len = 8 + ucast payload_len + ucast pad_len"

lemma unat_frame_len_u64: "unat (frame_len_u64 a b) = 8 + unat a + unat b"
proof -
  have "unat a < 2 ^ 32" "unat b < 2 ^ 32"
    using unsigned_less [of a] unsigned_less [of b] by simp_all
  then show ?thesis
    by (simp add: frame_len_u64_def unat_word_ariths unsigned_ucast_eq take_bit_eq_mod)
qed

text \<open>The loop of \<^verbatim>\<open>apply_unpack\<close>: the position it stops at and the payloads pushed.\<close>

function apply_unpack_loop :: "nat \<Rightarrow> nat \<Rightarrow> ByteVector \<Rightarrow> nat \<Rightarrow> DataBufferList
    \<Rightarrow> (nat \<times> DataBufferList) outcome" where
  "apply_unpack_loop chunk pmax acc pos output =
     (if length acc - pos < 8 then Ret (pos, output)
      else
        let payload_len = read_u32 acc pos;
            pad_len = read_u32 acc (pos + 4)
        in if unat payload_len > chunk \<or> unat pad_len > pmax
           then Throw (RuntimeError ''invalid padding frame header'')
           else if frame_len_u64 payload_len pad_len > - 1
           then Throw (RuntimeError ''invalid padding frame length overflow'')
           else let frame_len = unat (frame_len_u64 payload_len pad_len)
                in if length acc - pos < frame_len then Ret (pos, output)
                   else apply_unpack_loop chunk pmax acc (pos + frame_len)
                          (output @ [take (unat payload_len) (drop (pos + 8) acc)]))"
  by pat_completeness auto
termination
  by (relation "measure (\<lambda>(chunk, pmax, acc, pos, output). length acc - pos)")
    (auto simp: unat_frame_len_u64)

declare apply_unpack_loop.simps [simp del]

definition padding_unpack :: "PaddingProcessor \<Rightarrow> ByteVector
    \<Rightarrow> (DataBufferList \<times> PaddingProcessor) outcome" where
  "padding_unpack p input =
     (let acc = unpack_buffer p @ input
      in obind (apply_unpack_loop (chunk_size p) (pad_max p) acc 0 []) (\<lambda>(pos, output).
           Ret (output, p\<lparr>unpack_buffer := (if pos > 0 then drop pos acc else acc)\<rparr>)))"

subsection \<open>Frames, and the abstract view of the unpacking loop\<close>

text \<open>The bytes of a frame, and the parser of a frame sequence that the loop implements.\<close>

definition frame_bytes :: "ByteVector \<times> ByteVector \<Rightarrow> ByteVector" where
  "frame_bytes f = be32 (of_nat (length (fst f))) @ be32 (of_nat (length (snd f))) @ fst f @ snd f"

definition frame_ok :: "nat \<Rightarrow> nat \<Rightarrow> ByteVector \<times> ByteVector \<Rightarrow> bool" where
  "frame_ok chunk pmax f \<longleftrightarrow> length (fst f) \<le> chunk \<and> length (snd f) \<le> pmax \<and>
     length (fst f) < 2 ^ 32 \<and> length (snd f) < 2 ^ 32"

function unframe :: "nat \<Rightarrow> nat \<Rightarrow> ByteVector \<Rightarrow> (DataBufferList \<times> ByteVector) option" where
  "unframe chunk pmax bs =
     (if length bs < 8 then Some ([], bs)
      else let pl = unat (read_u32 bs 0); ql = unat (read_u32 bs 4)
           in if chunk < pl \<or> pmax < ql then None
              else if length bs < 8 + pl + ql then Some ([], bs)
              else map_option (\<lambda>(out, rest). (take pl (drop 8 bs) # out, rest))
                     (unframe chunk pmax (drop (8 + pl + ql) bs)))"
  by pat_completeness auto
termination
  by (relation "measure (\<lambda>(chunk, pmax, bs). length bs)") auto

declare unframe.simps [simp del]

lemma write_u32_eq [simp]: "write_u32 out v = out @ be32 v"
  by (simp add: write_u32_def be32_def)

lemma read_u32_of_be32:
  "read_u32 acc p = of_be32 (acc ! p) (acc ! (p + 1)) (acc ! (p + 2)) (acc ! (p + 3))"
  by (simp add: read_u32_def of_be32_def)

lemma read_u32_drop: "p + q + 3 < length acc \<Longrightarrow> read_u32 (drop p acc) q = read_u32 acc (p + q)"
  by (simp add: read_u32_of_be32 add.assoc)

lemma read_u32_append: "p + 3 < length xs \<Longrightarrow> read_u32 (xs @ ys) p = read_u32 xs p"
  by (simp add: read_u32_of_be32 nth_append)

lemma read_u32_be32: "read_u32 (be32 v @ ys) 0 = v" "length xs = 4 \<Longrightarrow> read_u32 (xs @ be32 v @ ys) 4 = v"
  using of_be32_be32 [of v] by (simp_all add: read_u32_of_be32 nth_append numeral_2_eq_2)

lemma unframe_short: "length bs < 8 \<Longrightarrow> unframe c m bs = Some ([], bs)"
  by (simp add: unframe.simps)

lemma unframe_nil [simp]: "unframe c m [] = Some ([], [])"
  by (simp add: unframe_short)

text \<open>The loop, started at a position inside the buffer, is the parser on the rest.\<close>

lemma apply_unpack_loop_unframe:
  "pos \<le> length acc \<Longrightarrow>
    apply_unpack_loop c m acc pos out =
      (case unframe c m (drop pos acc) of
         None \<Rightarrow> Throw (RuntimeError ''invalid padding frame header'')
       | Some (o', rest) \<Rightarrow> Ret (length acc - length rest, out @ o'))"
proof (induction c m acc pos out rule: apply_unpack_loop.induct)
  case (1 c m acc pos out)
  let ?pl = "read_u32 acc pos" and ?ql = "read_u32 acc (pos + 4)"
  let ?n = "unat (frame_len_u64 ?pl ?ql)"
  note loop = apply_unpack_loop.simps [of c m acc pos out]
  note spec = unframe.simps [of c m "drop pos acc"]
  have top: "\<not> - 1 < frame_len_u64 ?pl ?ql"
    using word_order.extremum leD by blast
  show ?case
  proof (cases "length acc - pos < 8")
    case True
    with "1.prems" show ?thesis by (simp add: loop spec)
  next
    case False
    then have rd: "read_u32 (drop pos acc) 0 = ?pl" "read_u32 (drop pos acc) 4 = ?ql"
      by (simp_all add: read_u32_drop)
    show ?thesis
    proof (cases "unat ?pl > c \<or> unat ?ql > m")
      case True
      with False show ?thesis by (auto simp: loop spec rd)
    next
      case ok: False
      show ?thesis
      proof (cases "length acc - pos < ?n")
        case True
        with False ok top "1.prems" show ?thesis
          by (simp add: loop spec rd unat_frame_len_u64)
      next
        case full: False
        then have "pos + ?n \<le> length acc" using "1.prems" by simp
        from "1.IH" [OF False refl refl ok top refl full this] full False ok top
        show ?thesis
          by (simp add: loop spec rd unat_frame_len_u64 Let_def add.commute add.left_commute
              split: option.splits prod.splits)
      qed
    qed
  qed
qed

lemma unframe_rest:
  "unframe c m bs = Some (out, rest) \<Longrightarrow>
     (\<exists>k \<le> length bs. rest = drop k bs) \<and> unframe c m rest = Some ([], rest)"
proof (induction c m bs arbitrary: out rule: unframe.induct)
  case (1 c m bs)
  let ?pl = "unat (read_u32 bs 0)" and ?ql = "unat (read_u32 bs 4)"
  note spec = unframe.simps [of c m bs]
  show ?case
  proof (cases "length bs < 8 \<or> length bs < 8 + ?pl + ?ql")
    case True
    with "1.prems" have "rest = bs" "out = []" by (auto simp: spec Let_def split: if_splits)
    with "1.prems" show ?thesis by (auto intro: exI [of _ 0])
  next
    case False
    with "1.prems" obtain o' where ok: "\<not> (c < ?pl \<or> m < ?ql)"
      and r: "unframe c m (drop (8 + ?pl + ?ql) bs) = Some (o', rest)"
      by (auto simp: spec Let_def split: if_splits)
    from False ok have IH: "(\<exists>k \<le> length (drop (8 + ?pl + ?ql) bs). rest = drop k (drop (8 + ?pl + ?ql) bs))
        \<and> unframe c m rest = Some ([], rest)"
      using "1.IH" [OF _ refl refl ok _ r] by auto
    then obtain k where "k \<le> length bs - (8 + ?pl + ?ql)" "rest = drop (k + (8 + ?pl + ?ql)) bs"
      by auto
    with IH False show ?thesis by (auto intro!: exI [of _ "k + (8 + ?pl + ?ql)"])
  qed
qed

text \<open>Cutting the stream anywhere: the leftover of the first part is parsed with the second.\<close>

lemma unframe_append:
  "unframe c m (a @ b) = Option.bind (unframe c m a) (\<lambda>(o1, r).
     Option.bind (unframe c m (r @ b)) (\<lambda>(o2, r2). Some (o1 @ o2, r2)))"
proof (induction c m a rule: unframe.induct)
  case (1 c m a)
  let ?pl = "unat (read_u32 a 0)" and ?ql = "unat (read_u32 a 4)"
  note spec = unframe.simps [of c m a] and spec_ab = unframe.simps [of c m "a @ b"]
  have triv: "Option.bind x (\<lambda>(o2, r2). Some ([] @ o2, r2)) = x" for x :: "(DataBufferList \<times> ByteVector) option"
    by (cases x) auto
  show ?case
  proof (cases "length a < 8")
    case True
    then show ?thesis using triv by (simp add: unframe_short)
  next
    case False
    then have rd: "read_u32 (a @ b) 0 = read_u32 a 0" "read_u32 (a @ b) 4 = read_u32 a 4"
      by (simp_all add: read_u32_append)
    show ?thesis
    proof (cases "(c < ?pl \<or> m < ?ql) \<or> length a < 8 + ?pl + ?ql")
      case True
      then show ?thesis using False triv by (auto simp: spec spec_ab rd Let_def)
    next
      case ok: False
      with False "1.IH" [OF False refl refl] show ?thesis
        by (cases "unframe c m (drop (8 + ?pl + ?ql) a)")
          (auto simp: spec spec_ab rd Let_def bind_map_option map_option_bind comp_def
            split_beta intro!: bind_option_cong)
    qed
  qed
qed

lemma unframe_frame:
  assumes "frame_ok c m f"
  shows "unframe c m (frame_bytes f @ rest) =
    map_option (\<lambda>(out, r). (fst f # out, r)) (unframe c m rest)"
proof -
  define bs where "bs = frame_bytes f @ rest"
  have len: "length bs = 8 + length (fst f) + length (snd f) + length rest"
    by (simp add: frame_bytes_def bs_def)
  have "read_u32 bs 0 = of_nat (length (fst f))" "read_u32 bs 4 = of_nat (length (snd f))"
    by (simp_all add: frame_bytes_def bs_def read_u32_be32)
  with assms have rd: "unat (read_u32 bs 0) = length (fst f)" "unat (read_u32 bs 4) = length (snd f)"
    by (simp_all add: frame_ok_def unat_of_nat)
  have dr: "drop (8 + length (fst f) + length (snd f)) bs = rest"
    "take (length (fst f)) (drop 8 bs) = fst f"
    by (simp_all add: frame_bytes_def bs_def)
  have "unframe c m bs = map_option (\<lambda>(out, r). (fst f # out, r)) (unframe c m rest)"
    using assms len by (subst unframe.simps) (simp add: rd dr Let_def frame_ok_def)
  then show ?thesis by (simp add: bs_def)
qed

lemma unframe_frames:
  "list_all (frame_ok c m) fs \<Longrightarrow> unframe c m (concat (map frame_bytes fs)) = Some (map fst fs, [])"
  by (induction fs) (simp_all add: unframe_frame)

subsection \<open>The packing loop\<close>

lemma length_pad_bytes [simp]: "length (fst (pad_bytes E n rng)) = n"
  by (induction n arbitrary: rng) (simp_all add: Let_def split_beta)

text \<open>
  With a positive chunk size the loop returns, and it has pushed frames whose payloads are
  the rest of the input.
\<close>

lemma apply_pack_loop_returns:
  assumes "uniform_in_range E" "0 < c" "c < 2 ^ 32" "m < 2 ^ 32"
  shows "\<exists>fs rng'. apply_pack_loop E c m input pos rng out = Some (out @ map frame_bytes fs, rng') \<and>
    concat (map fst fs) = drop pos input \<and> list_all (frame_ok c m) fs"
proof (induction "length input - pos" arbitrary: pos rng out rule: less_induct)
  case less
  show ?case
  proof (cases "pos < length input")
    case False
    then show ?thesis by (auto simp: apply_pack_loop.simps intro!: exI [of _ "[]"])
  next
    case True
    define len where "len = min c (length input - pos)"
    obtain k rng1 where k: "uniform_u32 E 0 (of_nat m) rng = (k, rng1)" by (rule prod.exhaust)
    obtain ps rng2 where ps: "pad_bytes E (unat k) rng1 = (ps, rng2)" by (rule prod.exhaust)
    define f where "f = (take len (drop pos input), ps)"
    have "k \<le> of_nat m" using uniform_in_range_le [OF assms(1) k] .
    then have "unat k \<le> m" using assms(4) by (simp add: word_le_nat_alt unat_of_nat)
    moreover have "length ps = unat k" using length_pad_bytes [of E "unat k" rng1] ps by simp
    ultimately have fok: "frame_ok c m f"
      using assms(3,4) by (simp add: frame_ok_def f_def len_def)
    have fb: "frame_bytes f = be32 (of_nat len) @ be32 k @ take len (drop pos input) @ ps"
      using \<open>length ps = unat k\<close> by (simp add: frame_bytes_def f_def len_def min_def)
    have "length input - (pos + len) < length input - pos"
      using True assms(2) unfolding len_def by linarith
    from less [OF this, of rng2 "out @ [frame_bytes f]"] obtain fs rng' where
      IH: "apply_pack_loop E c m input (pos + len) rng2 (out @ [frame_bytes f]) =
          Some ((out @ [frame_bytes f]) @ map frame_bytes fs, rng')"
        "concat (map fst fs) = drop (pos + len) input" "list_all (frame_ok c m) fs" by auto
    have "apply_pack_loop E c m input pos rng out =
        apply_pack_loop E c m input (pos + len) rng2 (out @ [frame_bytes f])"
      using True by (subst apply_pack_loop.simps) (simp add: k ps fb len_def Let_def)
    moreover have "fst f @ drop (pos + len) input = drop pos input"
      by (simp add: f_def add.commute [of pos] flip: drop_drop)
    ultimately show ?thesis using IH fok by (intro exI [of _ "f # fs"] exI [of _ rng']) simp
  qed
qed

text \<open>With chunk size 0 the position never moves and the loop never returns.\<close>

lemma apply_pack_loop_zero:
  "pos < length input \<Longrightarrow> apply_pack_loop E 0 m input pos rng out = None"
proof (rule ccontr)
  assume "pos < length input" "apply_pack_loop E 0 m input pos rng out \<noteq> None"
  then obtain r where "apply_pack_loop E 0 m input pos rng out = Some r" by auto
  then have "0 = (0::nat) \<longrightarrow> \<not> pos < length input"
    by (rule apply_pack_loop.raw_induct
        [where P = "\<lambda>E c m input pos rng out r. c = 0 \<longrightarrow> \<not> pos < length input", rotated])
      (fastforce simp: Let_def split: if_splits prod.splits)
  with \<open>pos < length input\<close> show False by simp
qed

subsection \<open>The contract\<close>

text \<open>
  Between calls the buffer holds less than a frame, with a header that is acceptable as
  far as it has arrived. The chunk size, the padding bound and the seed of the two ends
  need not agree; the decoder's limits must be at least the encoder's.
\<close>

definition padding_inv :: "PaddingProcessor \<Rightarrow> bool" where
  "padding_inv p \<longleftrightarrow>
     unframe (chunk_size p) (pad_max p) (unpack_buffer p) = Some ([], unpack_buffer p)"

definition padding_sync :: "'w ext \<Rightarrow> PaddingProcessor \<Rightarrow> PaddingProcessor \<Rightarrow> bool" where
  "padding_sync E e d \<longleftrightarrow> uniform_in_range E \<and> unpack_buffer d = [] \<and>
     chunk_size e \<le> chunk_size d \<and> pad_max e \<le> pad_max d \<and>
     chunk_size e < 2 ^ 32 \<and> pad_max e < 2 ^ 32"

definition padding_same_unpack :: "PaddingProcessor \<Rightarrow> PaddingProcessor \<Rightarrow> bool" where
  "padding_same_unpack p q \<longleftrightarrow> chunk_size p = chunk_size q \<and> pad_max p = pad_max q \<and>
     unpack_buffer p = unpack_buffer q"

lemma padding_sync_new:
  assumes "uniform_in_range E" "c \<le> c'" "m \<le> m'" "c < 2 ^ 32" "m < 2 ^ 32"
  shows "padding_sync E (PaddingProcessor_new c m s r) (PaddingProcessor_new c' m' s' r')"
  using assms by (simp add: padding_sync_def PaddingProcessor_new_def)

lemma padding_unpack_unframe:
  "padding_unpack p x =
     (case unframe (chunk_size p) (pad_max p) (unpack_buffer p @ x) of
        None \<Rightarrow> Throw (RuntimeError ''invalid padding frame header'')
      | Some (out, rest) \<Rightarrow> Ret (out, p\<lparr>unpack_buffer := rest\<rparr>))"
proof -
  let ?acc = "unpack_buffer p @ x"
  show ?thesis
  proof (cases "unframe (chunk_size p) (pad_max p) ?acc")
    case None
    then show ?thesis by (simp add: padding_unpack_def apply_unpack_loop_unframe)
  next
    case (Some t)
    obtain out rest where t: "t = (out, rest)" by (rule prod.exhaust)
    from Some t unframe_rest obtain k where k: "k \<le> length ?acc" "rest = drop k ?acc" by metis
    then have "length ?acc - length rest = k" by simp
    with Some t k show ?thesis
      by (auto simp: padding_unpack_def apply_unpack_loop_unframe Let_def simp del: length_append drop_append)
  qed
qed

lemma padding_unpack_Ret:
  "padding_unpack p x = Ret (out, p') \<longleftrightarrow> (\<exists>rest.
     unframe (chunk_size p) (pad_max p) (unpack_buffer p @ x) = Some (out, rest) \<and>
     p' = p\<lparr>unpack_buffer := rest\<rparr>)"
  by (auto simp: padding_unpack_unframe split: option.splits)

lemma padding_unpack_append:
  "stream_view (padding_unpack p (a @ b)) =
     Option.bind (stream_view (padding_unpack p a)) (\<lambda>(x, p').
       Option.bind (stream_view (padding_unpack p' b)) (\<lambda>(y, p''). Some (x @ y, p'')))"
  using unframe_append [of "chunk_size p" "pad_max p" "unpack_buffer p @ a" b]
  by (auto simp: padding_unpack_unframe split: option.splits)

lemma padding_pack_Ret:
  assumes "uniform_in_range E" "chunk_size p < 2 ^ 32" "pad_max p < 2 ^ 32"
    "padding_pack E w p x = Ret (bufs, p', w')"
  shows "\<exists>fs rng. bufs = map frame_bytes fs \<and> concat (map fst fs) = x \<and>
    list_all (frame_ok (chunk_size p) (pad_max p)) fs \<and> p' = p\<lparr>pack_rng := rng\<rparr> \<and> w' = w"
proof (cases "chunk_size p = 0")
  case True
  with assms(4) have "x = []"
    using apply_pack_loop_zero [of 0 x E "pad_max p" "pack_rng p" "[]"]
    by (cases x) (auto simp: padding_pack_def)
  then have "apply_pack_loop E (chunk_size p) (pad_max p) x 0 (pack_rng p) [] = Some ([], pack_rng p)"
    by (simp add: apply_pack_loop.simps)
  with assms(4) \<open>x = []\<close> show ?thesis
    by (auto simp: padding_pack_def intro!: exI [of _ "[]"] exI [of _ "pack_rng p"])
next
  case False
  with apply_pack_loop_returns [OF assms(1) _ assms(2,3), of x 0 "pack_rng p" "[]"] assms(4)
  show ?thesis by (fastforce simp: padding_pack_def)
qed

lemma padding_pack_fields:
  assumes "padding_pack E w p x = Ret (bufs, p', w')"
  shows "chunk_size p' = chunk_size p" "pad_max p' = pad_max p"
    "unpack_buffer p' = unpack_buffer p" "reverse p' = reverse p"
  using assms by (auto simp: padding_pack_def split: option.splits)

lemma frame_ok_mono: "frame_ok c m f \<Longrightarrow> c \<le> c' \<Longrightarrow> m \<le> m' \<Longrightarrow> frame_ok c' m' f"
  by (simp add: frame_ok_def)

lemma padding_pack_unpack:
  assumes "padding_sync E e d" "padding_pack E w e x = Ret (bufs, e', w')"
  shows "\<exists>d'. stream_view (padding_unpack d (concat bufs)) = Some (x, d') \<and> padding_sync E e' d'"
proof -
  from assms obtain fs rng where fs: "bufs = map frame_bytes fs" "concat (map fst fs) = x"
    "list_all (frame_ok (chunk_size e) (pad_max e)) fs" "e' = e\<lparr>pack_rng := rng\<rparr>"
    using padding_pack_Ret by (fastforce simp: padding_sync_def)
  from fs(3) assms(1) have "list_all (frame_ok (chunk_size d) (pad_max d)) fs"
    by (auto simp: list_all_iff padding_sync_def intro: frame_ok_mono)
  with fs assms(1) show ?thesis
    by (simp add: padding_unpack_unframe padding_sync_def unframe_frames)
qed

interpretation padding: processor_contract
  "padding_pack E" padding_unpack padding_inv "padding_sync E" padding_same_unpack for E
proof unfold_locales
  show "stream_view (padding_unpack p []) = Some ([], p)" if "padding_inv p" for p
    using that by (simp add: padding_unpack_unframe padding_inv_def)
  show "padding_inv p'" if "padding_inv p" "padding_unpack p a = Ret (bufs, p')" for p a bufs p'
    using that by (auto simp: padding_unpack_Ret padding_inv_def dest: unframe_rest)
  show "padding_inv d" if "padding_sync E e d" for e d
    using that by (simp add: padding_sync_def padding_inv_def)
  show "padding_sync E e' d" if "padding_sync E e d" "padding_unpack e x = Ret (bufs, e')" for e d x bufs e'
    using that by (auto simp: padding_sync_def padding_unpack_Ret)
  show "padding_same_unpack p p'" if "padding_pack E w p x = Ret (bufs, p', w')" for w p x bufs p' w'
    using padding_pack_fields [OF that] by (simp add: padding_same_unpack_def)
  show "\<exists>q'. padding_unpack q x = Ret (bufs, q') \<and> padding_same_unpack p' q'"
    if "padding_same_unpack p q" "padding_unpack p x = Ret (bufs, p')" for p q x bufs p'
    using that by (auto simp: padding_same_unpack_def padding_unpack_Ret)
  show "\<exists>d'. stream_view (padding_unpack d (concat bufs)) = Some (x, d') \<and> padding_sync E e' d'"
    if "padding_sync E e d" "padding_pack E w e x = Ret (bufs, e', w')" for e d w x bufs e' w'
    using that by (rule padding_pack_unpack)
qed (auto simp: padding_same_unpack_def padding_inv_def padding_sync_def
  intro: padding_unpack_append)

text \<open>Packing returns exactly when the chunk size is positive or there is nothing to pack.\<close>

lemma padding_pack_total:
  assumes "uniform_in_range E" "0 < chunk_size p" "chunk_size p < 2 ^ 32" "pad_max p < 2 ^ 32"
  shows "\<exists>bufs p'. padding_pack E w p x = Ret (bufs, p', w)"
  using apply_pack_loop_returns [OF assms, of x 0 "pack_rng p" "[]"]
  by (auto simp: padding_pack_def)

lemma padding_pack_diverges:
  "chunk_size p = 0 \<Longrightarrow> x \<noteq> [] \<Longrightarrow> padding_pack E w p x = Diverge"
  by (simp add: padding_pack_def apply_pack_loop_zero)

lemma unframe_rest_bound:
  assumes "unframe c m bs = Some (out, rest)"
  shows "length rest < 8 + c + m"
proof -
  from unframe_rest [OF assms] have r: "unframe c m rest = Some ([], rest)" by simp
  show ?thesis
  proof (rule ccontr)
    assume big: "\<not> length rest < 8 + c + m"
    let ?pl = "unat (read_u32 rest 0)" and ?ql = "unat (read_u32 rest 4)"
    from r big have "\<not> (c < ?pl \<or> m < ?ql)" and "length rest < 8 + ?pl + ?ql"
      by (auto simp: unframe.simps [of c m rest] Let_def split: if_splits)
    with big show False by linarith
  qed
qed

lemma feed_padding_pack:
  assumes "uniform_in_range E" "0 < chunk_size p" "chunk_size p < 2 ^ 32" "pad_max p < 2 ^ 32"
  shows "\<exists>wire p'. feed_stream (\<lambda>(p, w) x. stream_view (padding_pack E w p x)) (p, w) xs =
    Some (wire, (p', w))"
  using assms(2-)
proof (induction xs arbitrary: p)
  case (Cons x xs)
  obtain bufs p1 where 1: "padding_pack E w p x = Ret (bufs, p1, w)"
    using padding_pack_total [OF assms(1) Cons.prems] by blast
  from Cons.IH [of p1] Cons.prems padding_pack_fields [OF 1] 1 show ?case by fastforce
qed simp

lemma new_fields [simp]:
  "chunk_size (PaddingProcessor_new c m s r) = c" "pad_max (PaddingProcessor_new c m s r) = m"
  "unpack_buffer (PaddingProcessor_new c m s r) = []"
  by (simp_all add: PaddingProcessor_new_def)

subsection \<open>Properties\<close>

text \<open>
  Property C8. PaddingProcessor loses nothing: for a positive chunk size, packing any
  chunks returns, and a processor with any seed and role whose limits are at least the
  packer's unpacks the bytes, cut anywhere, back to the packed bytes with the padding gone.
\<close>

theorem padding_stream_roundtrip:
  assumes "uniform_in_range E" "0 < c" "c < 2 ^ 32" "m < 2 ^ 32" "c \<le> c'" "m \<le> m'"
  shows "\<exists>wire e'. feed_stream (\<lambda>(p, w) x. stream_view (padding_pack E w p x))
      (PaddingProcessor_new c m s r, w) xs = Some (wire, e') \<and>
    (\<forall>frags. concat frags = wire \<longrightarrow>
      (\<exists>d. feed_stream (\<lambda>p x. stream_view (padding_unpack p x)) (PaddingProcessor_new c' m' s' r') frags =
        Some (concat xs, d)))"
proof -
  from feed_padding_pack [OF assms(1), of "PaddingProcessor_new c m s r" w xs] assms obtain wire p' where
    w: "feed_stream (\<lambda>(p, w) x. stream_view (padding_pack E w p x)) (PaddingProcessor_new c m s r, w) xs =
      Some (wire, (p', w))" by auto
  with padding.codec.roundtrip [OF _ w] padding_sync_new [OF assms(1,5,6,3,4)] show ?thesis
    by fastforce
qed

theorem padding_stream_roundtrip_witness:
  "\<exists>wire e' d. feed_stream (\<lambda>(p, w) x. stream_view (padding_pack example_ext w p x))
      (PaddingProcessor_new 2 3 11 False, 0) [[1, 2, 3], [4]] = Some (wire, e') \<and>
    feed_stream (\<lambda>p x. stream_view (padding_unpack p x)) (PaddingProcessor_new 4 3 99 True)
      [take 5 wire, drop 5 wire] = Some ([1, 2, 3, 4], d)"
proof -
  from padding_stream_roundtrip [OF example_ext_uniform, of 2 3 4 3 11 False 0 "[[1, 2, 3], [4]]" 99 True]
  obtain wire e' where
    w: "feed_stream (\<lambda>(p, w) x. stream_view (padding_pack example_ext w p x))
      (PaddingProcessor_new 2 3 11 False, 0) [[1, 2, 3], [4]] = Some (wire, e')"
    and all: "\<forall>frags. concat frags = wire \<longrightarrow>
      (\<exists>d. feed_stream (\<lambda>p x. stream_view (padding_unpack p x)) (PaddingProcessor_new 4 3 99 True) frags =
        Some ([1, 2, 3, 4], d))" by auto
  from all have "\<exists>d. feed_stream (\<lambda>p x. stream_view (padding_unpack p x)) (PaddingProcessor_new 4 3 99 True)
      [take 5 wire, drop 5 wire] = Some ([1, 2, 3, 4], d)" by (rule allE) (erule mp, simp)
  with w show ?thesis by blast
qed

text \<open>
  Property C12. The unpacking loop, with its index arithmetic on the accumulated buffer and
  its 64-bit overflow check, implements the recursive frame parser: it throws for exactly
  the streams the parser rejects, and else pushes the parser's payloads and keeps the
  parser's rest as its buffer. The overflow check never fires.
\<close>

theorem padding_unpack_refines_parser:
  "padding_unpack p x =
     (case unframe (chunk_size p) (pad_max p) (unpack_buffer p @ x) of
        None \<Rightarrow> Throw (RuntimeError ''invalid padding frame header'')
      | Some (out, rest) \<Rightarrow> Ret (out, p\<lparr>unpack_buffer := rest\<rparr>))"
  by (rule padding_unpack_unframe)

text \<open>
  What one call of pack pushes: well-formed frames, one per chunk of the input,
  with payloads of at most the chunk size and paddings of at most the maximum, the payloads
  together being the input; only the generator's state changes.
\<close>

theorem padding_pack_frames:
  assumes "uniform_in_range E" "chunk_size p < 2 ^ 32" "pad_max p < 2 ^ 32"
    "padding_pack E w p x = Ret (bufs, p', w')"
  shows "\<exists>fs rng. bufs = map frame_bytes fs \<and> concat (map fst fs) = x \<and>
    list_all (frame_ok (chunk_size p) (pad_max p)) fs \<and> p' = p\<lparr>pack_rng := rng\<rparr> \<and> w' = w"
  using assms by (rule padding_pack_Ret)

theorem padding_pack_frames_witness:
  "\<exists>bufs p'. padding_pack example_ext 5 (PaddingProcessor_new 2 3 11 False) [1, 2, 3] = Ret (bufs, p', 5) \<and>
    (\<exists>fs. bufs = map frame_bytes fs \<and> concat (map fst fs) = [1, 2, 3])"
proof -
  let ?p = "PaddingProcessor_new 2 3 11 False"
  obtain bufs p' where r: "padding_pack example_ext 5 ?p [1, 2, 3] = Ret (bufs, p', 5)"
    using padding_pack_total [OF example_ext_uniform, of ?p 5 "[1, 2, 3]"] by auto
  from padding_pack_frames [OF example_ext_uniform _ _ r] r show ?thesis by auto
qed

text \<open>
  Property C21. The memory of the unpacking side is bounded: after any successful call, with
  any input, the buffer holds fewer than 8 + chunk + max bytes, whatever the peer sent.
\<close>

theorem padding_buffer_bounded:
  assumes "padding_unpack p x = Ret (bufs, p')"
  shows "length (unpack_buffer p') < 8 + chunk_size p' + pad_max p'"
  using assms by (auto simp: padding_unpack_Ret dest: unframe_rest_bound)

theorem padding_buffer_bounded_witness:
  "\<exists>bufs p'. padding_unpack (PaddingProcessor_new 4 4 0 False) [0, 0, 0, 2, 0, 0, 0, 1, 7] = Ret (bufs, p') \<and>
    length (unpack_buffer p') = 9 \<and> length (unpack_buffer p') < 16"
proof -
  let ?r = "padding_unpack (PaddingProcessor_new 4 4 0 False) [0, 0, 0, 2, 0, 0, 0, 1, 7]"
  have "unframe 4 4 [0, 0, 0, 2, 0, 0, 0, 1, 7] = Some ([], [0, 0, 0, 2, 0, 0, 0, 1, 7])"
    by (simp add: unframe.simps read_u32_def)
  then have r: "?r = Ret ([], (PaddingProcessor_new 4 4 0 False)\<lparr>unpack_buffer := [0, 0, 0, 2, 0, 0, 0, 1, 7]\<rparr>)"
    by (simp add: padding_unpack_unframe)
  from padding_buffer_bounded [OF r] r show ?thesis by simp
qed

text \<open>
  Property C19. Packing returns for every chunk size from 1 on, and with chunk size 0, which
  the command line accepts, it loops forever on every non-empty input.
\<close>

theorem padding_pack_returns_iff:
  assumes "uniform_in_range E" "chunk_size p < 2 ^ 32" "pad_max p < 2 ^ 32" "x \<noteq> []"
  shows "padding_pack E w p x \<noteq> Diverge \<longleftrightarrow> 0 < chunk_size p"
  using padding_pack_total [OF assms(1) _ assms(2,3), of w x] padding_pack_diverges [of p x E w] assms(4)
  by (cases "chunk_size p = 0") auto

theorem padding_pack_returns_iff_witness:
  "padding_pack example_ext 0 (PaddingProcessor_new 0 3 1 False) [1] = Diverge \<and>
   padding_pack example_ext 0 (PaddingProcessor_new 1 3 1 False) [1] \<noteq> Diverge"
  using padding_pack_returns_iff [OF example_ext_uniform, of "PaddingProcessor_new 0 3 1 False" "[1]" 0]
    padding_pack_returns_iff [OF example_ext_uniform, of "PaddingProcessor_new 1 3 1 False" "[1]" 0]
  by simp

end
