(* ===== verification/Chain.thy ===== *)
theory Chain
  imports Cfb_Nonce Padding
begin

section \<open>Processors and the processor chain\<close>

text \<open>
  The four classes derived from \<^verbatim>\<open>Processor\<close>, the dispatch of its two entry points on
  \<^verbatim>\<open>reverse_\<close> (\<^verbatim>\<open>processor.hpp\<close>), and \<^verbatim>\<open>ProcessorChain\<close> (\<^verbatim>\<open>processor_chain.cpp\<close>):
  its state is the list of its processors, in the order they were added.
\<close>

subsection \<open>One processor\<close>

datatype processor =
  IdentityP IdentityProcessor
| CfbP CfbProcessor
| CfbNonceP CfbNonceProcessor
| PaddingP PaddingProcessor

fun processor_reverse :: "processor \<Rightarrow> bool" where
  "processor_reverse (IdentityP p) = reverse p"
| "processor_reverse (CfbP p) = reverse p"
| "processor_reverse (CfbNonceP p) = reverse p"
| "processor_reverse (PaddingP p) = reverse p"

text \<open>The virtual functions \<^verbatim>\<open>pack\<close> and \<^verbatim>\<open>unpack\<close>.\<close>

fun processor_pack :: "'w ext \<Rightarrow> 'w \<Rightarrow> processor \<Rightarrow> ByteVector
    \<Rightarrow> (DataBufferList \<times> processor \<times> 'w) outcome" where
  "processor_pack E w (IdentityP p) x =
     obind (identity_pack w p x) (\<lambda>(out, p, w). Ret (out, IdentityP p, w))"
| "processor_pack E w (CfbP p) x =
     obind (cfb_pack w p x) (\<lambda>(out, p, w). Ret (out, CfbP p, w))"
| "processor_pack E w (CfbNonceP p) x =
     obind (nonce_pack E w p x) (\<lambda>(out, p, w). Ret (out, CfbNonceP p, w))"
| "processor_pack E w (PaddingP p) x =
     obind (padding_pack E w p x) (\<lambda>(out, p, w). Ret (out, PaddingP p, w))"

fun processor_unpack :: "'w ext \<Rightarrow> processor \<Rightarrow> ByteVector
    \<Rightarrow> (DataBufferList \<times> processor) outcome" where
  "processor_unpack E (IdentityP p) x =
     obind (identity_unpack p x) (\<lambda>(out, p). Ret (out, IdentityP p))"
| "processor_unpack E (CfbP p) x =
     obind (cfb_unpack p x) (\<lambda>(out, p). Ret (out, CfbP p))"
| "processor_unpack E (CfbNonceP p) x =
     obind (nonce_unpack E p x) (\<lambda>(out, p). Ret (out, CfbNonceP p))"
| "processor_unpack E (PaddingP p) x =
     obind (padding_unpack p x) (\<lambda>(out, p). Ret (out, PaddingP p))"

text \<open>\<open>unpack\<close> with a world it does not look at.\<close>

definition lift_unpack :: "'w ext \<Rightarrow> 'v \<Rightarrow> processor \<Rightarrow> ByteVector
    \<Rightarrow> (DataBufferList \<times> processor \<times> 'v) outcome" where
  "lift_unpack E w p x = obind (processor_unpack E p x) (\<lambda>(out, p). Ret (out, p, w))"

definition on_local_data :: "'w ext \<Rightarrow> 'w \<Rightarrow> processor \<Rightarrow> ByteVector
    \<Rightarrow> (DataBufferList \<times> processor \<times> 'w) outcome" where
  "on_local_data E w p input =
     (if processor_reverse p then lift_unpack E w p input else processor_pack E w p input)"

definition on_remote_data :: "'w ext \<Rightarrow> 'w \<Rightarrow> processor \<Rightarrow> ByteVector
    \<Rightarrow> (DataBufferList \<times> processor \<times> 'w) outcome" where
  "on_remote_data E w p input =
     (if processor_reverse p then processor_pack E w p input else lift_unpack E w p input)"

text \<open>No class overrides the empty \<^verbatim>\<open>flush_local\<close> and \<^verbatim>\<open>flush_remote\<close>.\<close>

definition processor_flush_local :: "processor \<Rightarrow> DataBufferList \<Rightarrow> DataBufferList" where
  "processor_flush_local p output = output"

definition processor_flush_remote :: "processor \<Rightarrow> DataBufferList \<Rightarrow> DataBufferList" where
  "processor_flush_remote p output = output"

subsection \<open>The chain\<close>

type_synonym ProcessorChain = "processor list"

definition chain_add :: "ProcessorChain \<Rightarrow> processor \<Rightarrow> ProcessorChain" where
  "chain_add ps p = ps @ [p]"

text \<open>The inner loop: one processor over the current buffers, pushing to \<^verbatim>\<open>next\<close>.\<close>

fun run_buffers :: "('w \<Rightarrow> processor \<Rightarrow> ByteVector \<Rightarrow> (DataBufferList \<times> processor \<times> 'w) outcome)
    \<Rightarrow> 'w \<Rightarrow> processor \<Rightarrow> DataBufferList \<Rightarrow> DataBufferList
    \<Rightarrow> (DataBufferList \<times> processor \<times> 'w) outcome" where
  "run_buffers op w p [] nxt = Ret (nxt, p, w)"
| "run_buffers op w p (buf # cur) nxt =
     obind (op w p buf) (\<lambda>(out, p, w). run_buffers op w p cur (nxt @ out))"

text \<open>The outer loop: each processor in turn, \<^verbatim>\<open>next\<close> becoming \<^verbatim>\<open>cur\<close>.\<close>

fun run_chain :: "('w \<Rightarrow> processor \<Rightarrow> ByteVector \<Rightarrow> (DataBufferList \<times> processor \<times> 'w) outcome)
    \<Rightarrow> (processor \<Rightarrow> DataBufferList \<Rightarrow> DataBufferList)
    \<Rightarrow> 'w \<Rightarrow> processor list \<Rightarrow> DataBufferList
    \<Rightarrow> (DataBufferList \<times> processor list \<times> 'w) outcome" where
  "run_chain op fl w [] cur = Ret (cur, [], w)"
| "run_chain op fl w (p # ps) cur =
     obind (run_buffers op w p cur []) (\<lambda>(nxt, p, w).
     obind (run_chain op fl w ps (fl p nxt)) (\<lambda>(out, ps, w). Ret (out, p # ps, w)))"

text \<open>
  \<^verbatim>\<open>output\<close> is appended to when the chain is empty and overwritten otherwise. The
  remote direction walks the list from its end; the flushes start from no buffer.
\<close>

definition chain_on_local_data :: "'w ext \<Rightarrow> 'w \<Rightarrow> ProcessorChain \<Rightarrow> ByteVector \<Rightarrow> DataBufferList
    \<Rightarrow> (DataBufferList \<times> ProcessorChain \<times> 'w) outcome" where
  "chain_on_local_data E w ps input output =
     (if ps = [] then Ret (output @ [input], ps, w)
      else run_chain (on_local_data E) (\<lambda>_ nxt. nxt) w ps [input])"

definition chain_on_remote_data :: "'w ext \<Rightarrow> 'w \<Rightarrow> ProcessorChain \<Rightarrow> ByteVector \<Rightarrow> DataBufferList
    \<Rightarrow> (DataBufferList \<times> ProcessorChain \<times> 'w) outcome" where
  "chain_on_remote_data E w ps input output =
     (if ps = [] then Ret (output @ [input], ps, w)
      else obind (run_chain (on_remote_data E) (\<lambda>_ nxt. nxt) w (rev ps) [input])
             (\<lambda>(out, qs, w). Ret (out, rev qs, w)))"

definition chain_flush_local :: "'w ext \<Rightarrow> 'w \<Rightarrow> ProcessorChain
    \<Rightarrow> (DataBufferList \<times> ProcessorChain \<times> 'w) outcome" where
  "chain_flush_local E w ps = run_chain (on_local_data E) processor_flush_local w ps []"

definition chain_flush_remote :: "'w ext \<Rightarrow> 'w \<Rightarrow> ProcessorChain
    \<Rightarrow> (DataBufferList \<times> ProcessorChain \<times> 'w) outcome" where
  "chain_flush_remote E w ps =
     obind (run_chain (on_remote_data E) processor_flush_remote w (rev ps) [])
       (\<lambda>(out, qs, w). Ret (out, rev qs, w))"

end
