(* ===== verification/Chain_Codec.thy ===== *)
theory Chain_Codec
  imports Chain
begin

section \<open>The chain keeps the contract of its processors\<close>

text \<open>
  The four interpretations of \<open>processor_contract\<close> are put together into one for the
  datatype of processors, and that one is lifted to chains: decoding by a chain does not
  depend on how the stream is cut, and a chain of packing processors is undone by the
  chain of their partners in the opposite order.
\<close>

subsection \<open>One processor\<close>

fun proc_inv :: "processor \<Rightarrow> bool" where
  "proc_inv (IdentityP p) = True"
| "proc_inv (CfbP p) = cfb_inv p"
| "proc_inv (CfbNonceP p) = nonce_inv p"
| "proc_inv (PaddingP p) = padding_inv p"

fun proc_sync :: "'w ext \<Rightarrow> processor \<Rightarrow> processor \<Rightarrow> bool" where
  "proc_sync E (IdentityP e) (IdentityP d) = True"
| "proc_sync E (CfbP e) (CfbP d) = cfb_sync e d"
| "proc_sync E (CfbNonceP e) (CfbNonceP d) = nonce_sync e d"
| "proc_sync E (PaddingP e) (PaddingP d) = padding_sync E e d"
| "proc_sync E _ _ = False"

fun proc_same_unpack :: "processor \<Rightarrow> processor \<Rightarrow> bool" where
  "proc_same_unpack (IdentityP p) (IdentityP q) = True"
| "proc_same_unpack (CfbP p) (CfbP q) = cfb_same_unpack p q"
| "proc_same_unpack (CfbNonceP p) (CfbNonceP q) = nonce_same_unpack p q"
| "proc_same_unpack (PaddingP p) (PaddingP q) = padding_same_unpack p q"
| "proc_same_unpack _ _ = False"

lemma stream_view_wrap:
  "stream_view (obind m (\<lambda>(out, p). Ret (out, C p))) = map_option (\<lambda>(y, p). (y, C p)) (stream_view m)"
  by (auto simp: stream_view_obind split: outcome.splits)

lemma bind_map_wrap:
  "Option.bind (map_option (\<lambda>(y, p). (y, C p)) m) (\<lambda>(x, q). f x q) = Option.bind m (\<lambda>(x, p). f x (C p))"
  by (cases m) auto

lemmas processor_views [simp] = stream_view_wrap bind_map_wrap

lemma map_bind_wrap:
  "map_option (\<lambda>(y, p). (y, C p)) (Option.bind m (\<lambda>(x, q). Option.bind (f q) (\<lambda>(y, r). Some (x @ y, r)))) =
     Option.bind m (\<lambda>(x, q). Option.bind (f q) (\<lambda>(y, r). Some (x @ y, C r)))"
  by (auto simp: map_option_bind split_beta intro!: bind_option_cong)

lemma proc_unpack_append:
  assumes "proc_inv p"
  shows "stream_view (processor_unpack E p (a @ b)) =
     Option.bind (stream_view (processor_unpack E p a)) (\<lambda>(x, p').
       Option.bind (stream_view (processor_unpack E p' b)) (\<lambda>(y, p''). Some (x @ y, p'')))"
  using assms
  by (cases p) (simp_all add: identity.unpack_append cfb.unpack_append nonce.unpack_append
      padding.unpack_append map_bind_wrap)

lemma proc_pack_unpack:
  assumes "proc_sync E e d" "processor_pack E w e x = Ret (bufs, e', w')"
  shows "\<exists>d'. stream_view (processor_unpack E d (concat bufs)) = Some (x, d') \<and> proc_sync E e' d'"
proof (cases e)
  case (IdentityP p)
  with assms show ?thesis by (cases d) (auto simp: identity_pack_def identity_unpack_def)
next
  case (CfbP p)
  with assms obtain q p' where "d = CfbP q" "cfb_sync p q" "cfb_pack w p x = Ret (bufs, p', w')"
    "e' = CfbP p'" by (cases d) (auto simp: obind_eq_Ret)
  with cfb.pack_unpack [of p q w x bufs p' w'] show ?thesis by auto
next
  case (CfbNonceP p)
  with assms obtain q p' where "d = CfbNonceP q" "nonce_sync p q"
    "nonce_pack E w p x = Ret (bufs, p', w')" "e' = CfbNonceP p'" by (cases d) (auto simp: obind_eq_Ret)
  with nonce.pack_unpack [of p q E w x bufs p' w'] show ?thesis by auto
next
  case (PaddingP p)
  with assms obtain q p' where "d = PaddingP q" "padding_sync E p q"
    "padding_pack E w p x = Ret (bufs, p', w')" "e' = PaddingP p'" by (cases d) (auto simp: obind_eq_Ret)
  with padding.pack_unpack [of E p q w x bufs p' w'] show ?thesis by auto
qed

lemma proc_same_unpack_step:
  assumes "proc_same_unpack p q" "processor_unpack E p x = Ret (bufs, p')"
  shows "\<exists>q'. processor_unpack E q x = Ret (bufs, q') \<and> proc_same_unpack p' q'"
proof (cases p)
  case (IdentityP a)
  with assms show ?thesis by (cases q) (auto simp: identity_unpack_def)
next
  case (CfbP a)
  with assms obtain b a' where "q = CfbP b" "cfb_same_unpack a b" "cfb_unpack a x = Ret (bufs, a')"
    "p' = CfbP a'" by (cases q) (auto simp: obind_eq_Ret)
  with cfb.same_unpack_step [of a b x bufs a'] show ?thesis by auto
next
  case (CfbNonceP a)
  with assms obtain b a' where "q = CfbNonceP b" "nonce_same_unpack a b"
    "nonce_unpack E a x = Ret (bufs, a')" "p' = CfbNonceP a'" by (cases q) (auto simp: obind_eq_Ret)
  with nonce.same_unpack_step [of a b E x bufs a'] show ?thesis by auto
next
  case (PaddingP a)
  with assms obtain b a' where "q = PaddingP b" "padding_same_unpack a b"
    "padding_unpack a x = Ret (bufs, a')" "p' = PaddingP a'" by (cases q) (auto simp: obind_eq_Ret)
  with padding.same_unpack_step [of a b x bufs a'] show ?thesis by auto
qed

interpretation proc: processor_contract
  "processor_pack E" "processor_unpack E" proc_inv "proc_sync E" proc_same_unpack for E
proof unfold_locales
  show "stream_view (processor_unpack E p []) = Some ([], p)" if "proc_inv p" for p
    using that by (cases p)
      (simp_all add: identity.unpack_nil cfb.unpack_nil nonce.unpack_nil padding.unpack_nil)
  show "proc_inv p'" if "proc_inv p" "processor_unpack E p a = Ret (bufs, p')" for p a bufs p'
    using that by (cases p) (auto simp: obind_eq_Ret
        dest: cfb.unpack_inv nonce.unpack_inv padding.unpack_inv)
  show "proc_inv d" if "proc_sync E e d" for e d
    using that by (cases e; cases d) (auto dest: cfb.sync_inv nonce.sync_inv padding.sync_inv)
  show "proc_sync E e' d" if "proc_sync E e d" "processor_unpack E e x = Ret (bufs, e')" for e d x bufs e'
    using that by (cases e; cases d) (auto simp: obind_eq_Ret
        dest: cfb.unpack_frame nonce.unpack_frame padding.unpack_frame)
  show "proc_same_unpack p p'" if "processor_pack E w p x = Ret (bufs, p', w')" for w p x bufs p' w'
    using that by (cases p) (auto simp: obind_eq_Ret
        dest: cfb.pack_same_unpack nonce.pack_same_unpack padding.pack_same_unpack)
  show "proc_inv q" if "proc_same_unpack p q" "proc_inv p" for p q
    using that by (cases p; cases q)
      (auto dest: cfb.same_unpack_inv nonce.same_unpack_inv padding.same_unpack_inv)
  show "proc_sync E e q" if "proc_same_unpack p q" "proc_sync E e p" for p q e
    using that by (cases p; cases q; cases e)
      (auto dest: cfb.same_unpack_sync nonce.same_unpack_sync padding.same_unpack_sync)
  show "\<exists>q'. processor_unpack E q x = Ret (bufs, q') \<and> proc_same_unpack p' q'"
    if "proc_same_unpack p q" "processor_unpack E p x = Ret (bufs, p')" for p q x bufs p'
    using that by (rule proc_same_unpack_step)
qed (rule proc_unpack_append, assumption, rule proc_pack_unpack)

subsection \<open>Loops over buffers and processors\<close>

text \<open>The two directions of a chain of processors that all keep their plain role.\<close>

definition chain_pack :: "'w ext \<Rightarrow> 'w \<Rightarrow> processor list \<Rightarrow> ByteVector
    \<Rightarrow> (DataBufferList \<times> processor list \<times> 'w) outcome" where
  "chain_pack E w ps x = run_chain (processor_pack E) (\<lambda>_ nxt. nxt) w ps [x]"

definition chain_unpack :: "'w ext \<Rightarrow> processor list \<Rightarrow> ByteVector
    \<Rightarrow> (DataBufferList \<times> processor list) outcome" where
  "chain_unpack E ps x =
     obind (run_chain (lift_unpack E) (\<lambda>_ nxt. nxt) () (rev ps) [x]) (\<lambda>(out, qs, _). Ret (out, rev qs))"

text \<open>A property of the processor that every call keeps is kept by the loops.\<close>

lemma run_buffers_keeps:
  assumes step: "\<And>w p x out p' w'. R p \<Longrightarrow> op w p x = Ret (out, p', w') \<Longrightarrow> R p'"
  shows "R p \<Longrightarrow> run_buffers op w p bufs nxt = Ret (out, p', w') \<Longrightarrow> R p'"
proof (induction bufs arbitrary: w p nxt)
  case (Cons b bufs)
  then show ?case using step by (fastforce simp: obind_eq_Ret)
qed simp

lemma run_chain_keeps:
  assumes step: "\<And>q w p x out p' w'. R q p \<Longrightarrow> op w p x = Ret (out, p', w') \<Longrightarrow> R q p'"
  shows "list_all2 R qs ps \<Longrightarrow> run_chain op fl w ps cur = Ret (out, ps', w') \<Longrightarrow> list_all2 R qs ps'"
proof (induction qs arbitrary: w ps cur out ps' w')
  case Nil
  then show ?case by simp
next
  case (Cons q qs)
  then obtain p ps1 where ps: "ps = p # ps1" "R q p" "list_all2 R qs ps1"
    by (auto simp: list_all2_Cons1)
  with Cons.prems(2) obtain nxt p1 w1 out1 ps2 w2 where
    1: "run_buffers op w p cur [] = Ret (nxt, p1, w1)" and
    2: "run_chain op fl w1 ps1 (fl p1 nxt) = Ret (out1, ps2, w2)" and 3: "ps' = p1 # ps2"
    by (auto simp: obind_eq_Ret)
  from run_buffers_keeps [of "R q" op, OF step ps(2) 1] Cons.IH [OF ps(3) 2] 3
  show ?case by simp
qed

subsection \<open>Decoding through a chain, as a stream\<close>

fun stages :: "'w ext \<Rightarrow> processor list \<Rightarrow> ByteVector \<Rightarrow> (ByteVector \<times> processor list) option" where
  "stages E [] x = Some (x, [])"
| "stages E (p # ps) x = Option.bind (stream_view (processor_unpack E p x)) (\<lambda>(y, p').
     Option.bind (stages E ps y) (\<lambda>(z, ps'). Some (z, p' # ps')))"

lemma run_buffers_lift:
  "proc_inv p \<Longrightarrow> stream_view (run_buffers (lift_unpack E) w p bufs nxt) =
     map_option (\<lambda>(y, p'). (concat nxt @ y, p', w)) (stream_view (processor_unpack E p (concat bufs)))"
proof (induction bufs arbitrary: p nxt)
  case Nil
  then show ?case by (simp add: proc.unpack_nil)
next
  case (Cons b bufs)
  show ?case
  proof (cases "processor_unpack E p b")
    case (Ret t)
    obtain out p1 where t: "t = (out, p1)" by (rule prod.exhaust)
    with Ret Cons.prems have "proc_inv p1" by (auto dest: proc.unpack_inv)
    with Ret t Cons show ?thesis
      by (simp add: lift_unpack_def proc.unpack_append)
        (cases "stream_view (processor_unpack E p1 (concat bufs))", auto)
  qed (use Cons.prems in \<open>simp_all add: lift_unpack_def proc.unpack_append\<close>)
qed

lemma stream_view_cons:
  "stream_view (obind m (\<lambda>(out, ps, w). Ret (out, p # ps, w))) =
     map_option (\<lambda>(y, ps, w). (y, p # ps, w)) (stream_view m)"
  by (auto simp: stream_view_obind split: outcome.splits)

lemma run_chain_lift:
  "list_all proc_inv ps \<Longrightarrow> stream_view (run_chain (lift_unpack E) (\<lambda>_ nxt. nxt) w ps bufs) =
     map_option (\<lambda>(y, ps'). (y, ps', w)) (stages E ps (concat bufs))"
proof (induction ps arbitrary: bufs)
  case Nil
  then show ?case by simp
next
  case (Cons p ps)
  then have rb: "stream_view (run_buffers (lift_unpack E) w p bufs []) =
      map_option (\<lambda>(y, p'). (y, p', w)) (stream_view (processor_unpack E p (concat bufs)))"
    using run_buffers_lift [of p E w bufs "[]"] by simp
  show ?case
  proof (cases "run_buffers (lift_unpack E) w p bufs []")
    case (Ret t)
    obtain nxt p1 w1 where t: "t = (nxt, p1, w1)" by (rule prod_cases3)
    with Ret rb have u: "stream_view (processor_unpack E p (concat bufs)) = Some (concat nxt, p1)" "w1 = w"
      by (auto simp: map_option_case split: option.splits)
    with Ret t Cons show ?thesis
      by (cases "stages E ps (concat nxt)") (simp_all add: stream_view_cons split_beta)
  next
    case (Throw e)
    with rb show ?thesis by (simp add: map_option_case split: option.splits)
  next
    case Diverge
    with rb show ?thesis by (simp add: map_option_case split: option.splits)
  qed
qed

lemma stages_nil: "list_all proc_inv ps \<Longrightarrow> stages E ps [] = Some ([], ps)"
  by (induction ps) (simp_all add: proc.unpack_nil)

lemma stages_Cons_eq_Some:
  "stages E (p # ps) x = Some (z, qs) \<longleftrightarrow> (\<exists>y p' ps'.
     stream_view (processor_unpack E p x) = Some (y, p') \<and> stages E ps y = Some (z, ps') \<and> qs = p' # ps')"
  by (auto simp: bind_eq_Some_conv)

lemma stages_inv:
  "list_all proc_inv ps \<Longrightarrow> stages E ps x = Some (y, ps') \<Longrightarrow> list_all proc_inv ps'"
proof (induction ps arbitrary: x ps')
  case (Cons p ps)
  then show ?case
    by (auto simp: stages_Cons_eq_Some simp del: stages.simps dest: proc.codec.dec_inv)
qed simp

lemma stages_append:
  "list_all proc_inv ps \<Longrightarrow> stages E ps (a @ b) =
     Option.bind (stages E ps a) (\<lambda>(x, ps'). Option.bind (stages E ps' b) (\<lambda>(y, ps''). Some (x @ y, ps'')))"
proof (induction ps arbitrary: a b)
  case Nil
  then show ?case by simp
next
  case (Cons p ps)
  then have p: "proc_inv p" and ps: "list_all proc_inv ps" by auto
  show ?case
  proof (cases "stream_view (processor_unpack E p a)")
    case None
    with p show ?thesis by (simp add: proc.unpack_append)
  next
    case (Some t)
    obtain y1 p1 where t: "t = (y1, p1)" by (rule prod.exhaust)
    show ?thesis
    proof (cases "stream_view (processor_unpack E p1 b)")
      case None
      with Some t p show ?thesis
        by (cases "stages E ps y1") (auto simp: proc.unpack_append)
    next
      case (Some u)
      obtain y2 p2 where u: "u = (y2, p2)" by (rule prod.exhaust)
      from \<open>stream_view (processor_unpack E p a) = Some t\<close> Some t u p Cons.IH [OF ps, of y1 y2]
      show ?thesis
        by (cases "stages E ps y1")
          (auto simp: proc.unpack_append bind_eq_Some_conv split_beta
            intro!: bind_option_cong)
    qed
  qed
qed

lemma stages_append_list:
  "stages E (ps @ qs) x = Option.bind (stages E ps x) (\<lambda>(y, ps').
     Option.bind (stages E qs y) (\<lambda>(z, qs'). Some (z, ps' @ qs')))"
proof (induction ps arbitrary: x)
  case Nil
  then show ?case by (cases "stages E qs x") auto
next
  case (Cons p ps)
  show ?case
  proof (cases "stream_view (processor_unpack E p x)")
    case (Some t)
    obtain y p' where "t = (y, p')" by (rule prod.exhaust)
    with Some Cons show ?thesis
      by (simp add: split_beta bind_assoc)
  qed simp
qed

subsection \<open>Encoding through a chain\<close>

lemma run_buffers_pack:
  "proc_sync E e d \<Longrightarrow> run_buffers (processor_pack E) w e bufs nxt = Ret (out, e', w') \<Longrightarrow>
    \<exists>new d'. out = nxt @ new \<and> proc_sync E e' d' \<and>
      stream_view (processor_unpack E d (concat new)) = Some (concat bufs, d')"
proof (induction bufs arbitrary: e d w nxt)
  case Nil
  then show ?case by (auto simp: proc.unpack_nil proc.sync_inv)
next
  case (Cons b bufs)
  from Cons.prems(2) obtain o1 e1 w1 where
    1: "processor_pack E w e b = Ret (o1, e1, w1)" and
    2: "run_buffers (processor_pack E) w1 e1 bufs (nxt @ o1) = Ret (out, e', w')"
    by (auto simp: obind_eq_Ret)
  from proc.pack_unpack [OF Cons.prems(1) 1] obtain d1 where
    d1: "stream_view (processor_unpack E d (concat o1)) = Some (b, d1)" "proc_sync E e1 d1" by auto
  from Cons.IH [OF d1(2) 2] obtain new d' where
    n: "out = nxt @ o1 @ new" "proc_sync E e' d'"
      "stream_view (processor_unpack E d1 (concat new)) = Some (concat bufs, d')" by auto
  with d1 have "stream_view (processor_unpack E d (concat (o1 @ new))) = Some (concat (b # bufs), d')"
    by (simp add: proc.unpack_append [OF proc.sync_inv [OF Cons.prems(1)]])
  with n show ?case by blast
qed

lemma sync_inv_list: "list_all2 (proc_sync E) es ds \<Longrightarrow> list_all proc_inv ds"
  by (induction rule: list_all2_induct) (auto dest: proc.sync_inv)

text \<open>
  The stages of the decoding chain run in the opposite order: the last processor that
  packed is the first that unpacks.
\<close>

lemma run_chain_pack:
  "list_all2 (proc_sync E) es ds \<Longrightarrow>
    run_chain (processor_pack E) (\<lambda>_ nxt. nxt) w es bufs = Ret (out, es', w') \<Longrightarrow>
    \<exists>ds'. stages E (rev ds) (concat out) = Some (concat bufs, rev ds') \<and>
      list_all2 (proc_sync E) es' ds'"
proof (induction es arbitrary: ds w bufs out es' w')
  case Nil
  then show ?case by auto
next
  case (Cons e es)
  from Cons.prems(1) obtain d ds1 where ds: "ds = d # ds1" "proc_sync E e d"
    "list_all2 (proc_sync E) es ds1" by (auto simp: list_all2_Cons1)
  from Cons.prems(2) obtain nxt e1 w1 es1 where
    1: "run_buffers (processor_pack E) w e bufs [] = Ret (nxt, e1, w1)" and
    2: "run_chain (processor_pack E) (\<lambda>_ nxt. nxt) w1 es nxt = Ret (out, es1, w')" and
    es': "es' = e1 # es1" by (auto simp: obind_eq_Ret)
  from run_buffers_pack [OF ds(2) 1] obtain d' where
    d': "proc_sync E e1 d'" "stream_view (processor_unpack E d (concat nxt)) = Some (concat bufs, d')"
    by auto
  from Cons.IH [OF ds(3) 2] obtain ds2 where
    "stages E (rev ds1) (concat out) = Some (concat nxt, rev ds2)" "list_all2 (proc_sync E) es1 ds2"
    by auto
  with d' ds(1) es' show ?case
    by (auto simp: stages_append_list intro!: exI [of _ "d' # ds2"])
qed

subsection \<open>The contract of a chain\<close>

lemma list_all_rev [simp]: "list_all P (rev xs) = list_all P xs"
  by (simp add: list_all_iff)

lemma chain_unpack_stages:
  "list_all proc_inv ps \<Longrightarrow> stream_view (chain_unpack E ps x) =
     map_option (\<lambda>(y, qs). (y, rev qs)) (stages E (rev ps) x)"
proof -
  assume "list_all proc_inv ps"
  with run_chain_lift [of "rev ps" E "()" "[x]"]
  have r: "stream_view (run_chain (lift_unpack E) (\<lambda>_ nxt. nxt) () (rev ps) [x]) =
      map_option (\<lambda>(y, ps'). (y, ps', ())) (stages E (rev ps) x)" by simp
  show ?thesis
  proof (cases "run_chain (lift_unpack E) (\<lambda>_ nxt. nxt) () (rev ps) [x]")
    case (Ret t)
    with r show ?thesis
      by (cases t) (auto simp: chain_unpack_def map_option_case split: option.splits)
  next
    case (Throw e)
    with r show ?thesis by (auto simp: chain_unpack_def map_option_case split: option.splits)
  next
    case Diverge
    with r show ?thesis by (auto simp: chain_unpack_def map_option_case split: option.splits)
  qed
qed

lemma proc_same_unpack_refl: "proc_same_unpack p p"
  by (cases p) (simp_all add: cfb_same_unpack_def nonce_same_unpack_def padding_same_unpack_def)

lemma proc_same_unpack_trans: "proc_same_unpack p q \<Longrightarrow> proc_same_unpack q r \<Longrightarrow> proc_same_unpack p r"
  by (cases p; cases q; cases r)
    (auto simp: cfb_same_unpack_def nonce_same_unpack_def padding_same_unpack_def)

lemma lift_unpack_Ret:
  "lift_unpack E w p x = Ret (out, p', w') \<longleftrightarrow> processor_unpack E p x = Ret (out, p') \<and> w' = w"
  by (auto simp: lift_unpack_def obind_eq_Ret)

lemma run_buffers_same:
  "proc_same_unpack p q \<Longrightarrow> run_buffers (lift_unpack E) w p bufs nxt = Ret (out, p', w') \<Longrightarrow>
    \<exists>q'. run_buffers (lift_unpack E) w q bufs nxt = Ret (out, q', w') \<and> proc_same_unpack p' q'"
proof (induction bufs arbitrary: p q nxt)
  case (Cons b bufs)
  from Cons.prems(2) obtain o1 p1 where
    1: "processor_unpack E p b = Ret (o1, p1)" and
    2: "run_buffers (lift_unpack E) w p1 bufs (nxt @ o1) = Ret (out, p', w')"
    by (auto simp: lift_unpack_Ret obind_eq_Ret)
  from proc_same_unpack_step [OF Cons.prems(1) 1] obtain q1 where
    q1: "processor_unpack E q b = Ret (o1, q1)" "proc_same_unpack p1 q1" by auto
  from Cons.IH [OF q1(2) 2] q1(1) show ?case by (simp add: lift_unpack_def)
qed auto

lemma run_chain_same:
  "list_all2 proc_same_unpack ps qs \<Longrightarrow>
    run_chain (lift_unpack E) (\<lambda>_ nxt. nxt) w ps cur = Ret (out, ps', w') \<Longrightarrow>
    \<exists>qs'. run_chain (lift_unpack E) (\<lambda>_ nxt. nxt) w qs cur = Ret (out, qs', w') \<and>
      list_all2 proc_same_unpack ps' qs'"
proof (induction ps arbitrary: qs w cur out ps' w')
  case (Cons p ps)
  from Cons.prems(1) obtain q qs1 where qs: "qs = q # qs1" "proc_same_unpack p q"
    "list_all2 proc_same_unpack ps qs1" by (auto simp: list_all2_Cons1)
  from Cons.prems(2) obtain nxt p1 w1 ps1 where
    1: "run_buffers (lift_unpack E) w p cur [] = Ret (nxt, p1, w1)" and
    2: "run_chain (lift_unpack E) (\<lambda>_ nxt. nxt) w1 ps nxt = Ret (out, ps1, w')" and
    ps': "ps' = p1 # ps1" by (auto simp: obind_eq_Ret)
  from run_buffers_same [OF qs(2) 1] Cons.IH [OF qs(3) 2] qs(1) ps' show ?case by auto
qed auto

lemma chain_unpack_Ret:
  "chain_unpack E ps x = Ret (bufs, ps') \<longleftrightarrow>
     run_chain (lift_unpack E) (\<lambda>_ nxt. nxt) () (rev ps) [x] = Ret (bufs, rev ps', ())"
  by (auto simp: chain_unpack_def obind_eq_Ret)

lemma chain_unpack_append:
  assumes "list_all proc_inv ps"
  shows "stream_view (chain_unpack E ps (a @ b)) =
     Option.bind (stream_view (chain_unpack E ps a)) (\<lambda>(x, ps').
       Option.bind (stream_view (chain_unpack E ps' b)) (\<lambda>(y, ps''). Some (x @ y, ps'')))"
proof (cases "stages E (rev ps) a")
  case None
  with assms show ?thesis by (simp add: chain_unpack_stages stages_append)
next
  case (Some t)
  obtain x qs where t: "t = (x, qs)" by (rule prod.exhaust)
  from Some t assms have "list_all proc_inv (rev qs)"
    using stages_inv [of "rev ps" E a x qs] by simp
  with assms Some t show ?thesis
    by (cases "stages E qs b") (auto simp: chain_unpack_stages stages_append)
qed

lemma list_all2_flip: "list_all2 (\<lambda>d e. R e d) ds es = list_all2 R es ds"
  by (auto simp: list_all2_conv_all_nth)

interpretation chain: processor_contract
  "chain_pack E" "chain_unpack E" "list_all proc_inv" "list_all2 (proc_sync E)"
  "list_all2 proc_same_unpack" for E
proof unfold_locales
  show "stream_view (chain_unpack E ps []) = Some ([], ps)" if "list_all proc_inv ps" for ps
    using that by (simp add: chain_unpack_stages stages_nil)
  show "list_all proc_inv ps'" if "list_all proc_inv ps" "chain_unpack E ps x = Ret (bufs, ps')"
    for ps x bufs ps'
  proof -
    from that(2) have "stream_view (chain_unpack E ps x) = Some (concat bufs, ps')" by simp
    with that(1) show ?thesis by (auto simp: chain_unpack_stages dest: stages_inv [rotated])
  qed
  show "\<exists>ds'. stream_view (chain_unpack E ds (concat bufs)) = Some (x, ds') \<and> list_all2 (proc_sync E) es' ds'"
    if "list_all2 (proc_sync E) es ds" "chain_pack E w es x = Ret (bufs, es', w')" for es ds w x bufs es' w'
    using run_chain_pack [OF that(1) that(2) [unfolded chain_pack_def]] sync_inv_list [OF that(1)]
    by (auto simp: chain_unpack_stages)
  show "list_all2 (proc_sync E) es' ds"
    if "list_all2 (proc_sync E) es ds" "chain_unpack E es x = Ret (bufs, es')" for es ds x bufs es'
  proof -
    have "list_all2 (\<lambda>d e. proc_sync E e d) (rev ds) (rev es)"
      using that(1) by (simp add: list_all2_flip [of "proc_sync E"])
    then have "list_all2 (\<lambda>d e. proc_sync E e d) (rev ds) (rev es')"
      by (rule run_chain_keeps [rotated, OF _ that(2) [unfolded chain_unpack_Ret]])
        (auto simp: lift_unpack_Ret intro: proc.unpack_frame)
    then show ?thesis by (simp add: list_all2_flip [of "proc_sync E"])
  qed
  show "list_all2 proc_same_unpack ps ps'" if "chain_pack E w ps x = Ret (bufs, ps', w')" for w ps x bufs ps' w'
    by (rule run_chain_keeps [OF _ _ that [unfolded chain_pack_def]])
      (auto intro: proc_same_unpack_trans proc.pack_same_unpack list.rel_refl proc_same_unpack_refl)
  show "\<exists>qs'. chain_unpack E qs x = Ret (bufs, qs') \<and> list_all2 proc_same_unpack ps' qs'"
    if "list_all2 proc_same_unpack ps qs" "chain_unpack E ps x = Ret (bufs, ps')" for ps qs x bufs ps'
  proof -
    from that(1) have "list_all2 proc_same_unpack (rev ps) (rev qs)" by simp
    from run_chain_same [OF this that(2) [unfolded chain_unpack_Ret]] obtain qs' where
      "run_chain (lift_unpack E) (\<lambda>_ nxt. nxt) () (rev qs) [x] = Ret (bufs, qs', ())"
      "list_all2 proc_same_unpack (rev ps') qs'" by auto
    then show ?thesis
      by (intro exI [of _ "rev qs'"]) (simp add: chain_unpack_Ret list_all2_rev1)
  qed
  show "list_all proc_inv qs" if "list_all2 proc_same_unpack ps qs" "list_all proc_inv ps" for ps qs
    using that by (induction rule: list_all2_induct) (auto intro: proc.same_unpack_inv)
  show "list_all2 (proc_sync E) es qs" if "list_all2 proc_same_unpack ps qs" "list_all2 (proc_sync E) es ps" for ps qs es
    using that(2,1) by (rule list_all2_trans [rotated]) (rule proc.same_unpack_sync)
qed (rule chain_unpack_append, assumption, rule sync_inv_list)

end
