(* ===== verification/Chain_Roles.thy ===== *)
theory Chain_Roles
  imports Chain_Codec
begin

section \<open>Two nodes back to back\<close>

text \<open>
  The deployment of the README: an entry node whose processors have their plain role, and
  an exit node with \<^verbatim>\<open>--reverse=1\<close>, which holds the partners of these processors in the
  opposite order with the reversed role. This theory shows what each of the two entry
  points of a chain does for each role, and when the chains of two nodes fit.
\<close>

subsection \<open>A chain of one role is a chain of packs or of unpacks\<close>

text \<open>The identity processor is built without a role, and needs none.\<close>

fun plays :: "bool \<Rightarrow> processor \<Rightarrow> bool" where
  "plays rv (IdentityP p) = True"
| "plays rv p = (processor_reverse p = rv)"

lemma processor_pack_plays: "processor_pack E w p x = Ret (out, p', w') \<Longrightarrow> plays rv p \<Longrightarrow> plays rv p'"
  by (cases p) (auto simp: obind_eq_Ret identity_pack_def cfb_pack_Ret
      dest: nonce_pack_fields(8) padding_pack_fields(4))

lemma processor_unpack_plays: "processor_unpack E p x = Ret (out, p') \<Longrightarrow> plays rv p \<Longrightarrow> plays rv p'"
  by (cases p) (auto simp: obind_eq_Ret identity_unpack_def cfb_unpack_Ret padding_unpack_Ret
      dest: nonce_unpack_fields(6))

lemma on_local_data_plays:
  "plays False p \<Longrightarrow> on_local_data E w p x = processor_pack E w p x"
  "plays True p \<Longrightarrow> on_local_data E w p x = lift_unpack E w p x"
  by (cases p; simp add: on_local_data_def lift_unpack_def identity_pack_def identity_unpack_def)+

lemma on_remote_data_plays:
  "plays False p \<Longrightarrow> on_remote_data E w p x = lift_unpack E w p x"
  "plays True p \<Longrightarrow> on_remote_data E w p x = processor_pack E w p x"
  by (cases p; simp add: on_remote_data_def lift_unpack_def identity_pack_def identity_unpack_def)+

lemma run_buffers_cong:
  assumes eq: "\<And>w p x. P p \<Longrightarrow> op w p x = op' w p x"
    and keep: "\<And>w p x out p' w'. P p \<Longrightarrow> op' w p x = Ret (out, p', w') \<Longrightarrow> P p'"
  shows "P p \<Longrightarrow> run_buffers op w p bufs nxt = run_buffers op' w p bufs nxt"
proof (induction bufs arbitrary: w p nxt)
  case (Cons b bufs)
  then show ?case by (auto simp: eq intro!: obind_cong dest: keep)
qed simp

lemma run_chain_cong:
  assumes eq: "\<And>w p x. P p \<Longrightarrow> op w p x = op' w p x"
    and keep: "\<And>w p x out p' w'. P p \<Longrightarrow> op' w p x = Ret (out, p', w') \<Longrightarrow> P p'"
  shows "list_all P ps \<Longrightarrow> run_chain op fl w ps cur = run_chain op' fl w ps cur"
proof (induction ps arbitrary: w cur)
  case (Cons p ps)
  then show ?case
    by (auto simp: run_buffers_cong [of P op op', OF eq keep] intro!: obind_cong)
qed simp

lemma run_buffers_world:
  "run_buffers (lift_unpack E) w p bufs nxt =
     obind (run_buffers (lift_unpack E) () p bufs nxt) (\<lambda>(out, p', _). Ret (out, p', w))"
proof (induction bufs arbitrary: p nxt)
  case (Cons b bufs)
  show ?case
  proof (cases "processor_unpack E p b")
    case (Ret t)
    with Cons show ?thesis by (cases t) (simp add: lift_unpack_def)
  qed (simp_all add: lift_unpack_def)
qed simp

lemma run_chain_world:
  "run_chain (lift_unpack E) fl w ps cur =
     obind (run_chain (lift_unpack E) fl () ps cur) (\<lambda>(out, ps', _). Ret (out, ps', w))"
proof (induction ps arbitrary: cur)
  case (Cons p ps)
  show ?case
  proof (cases "run_buffers (lift_unpack E) () p cur []")
    case (Ret t)
    then obtain nxt p1 where r: "run_buffers (lift_unpack E) () p cur [] = Ret (nxt, p1, ())"
      by (cases t) auto
    then have "run_buffers (lift_unpack E) w p cur [] = Ret (nxt, p1, w)"
      by (simp add: run_buffers_world [of E w])
    with r Cons [of "fl p1 nxt"] show ?thesis
      by (cases "run_chain (lift_unpack E) fl () ps (fl p1 nxt)") auto
  qed (simp_all add: run_buffers_world [of E w])
qed simp

text \<open>The four combinations of a node's role and a direction.\<close>

lemma entry_local:
  assumes "list_all (plays False) ps"
  shows "chain_on_local_data E w ps x [] = chain_pack E w ps x"
proof -
  have "run_chain (on_local_data E) (\<lambda>_ nxt. nxt) w ps [x] =
      run_chain (processor_pack E) (\<lambda>_ nxt. nxt) w ps [x]"
    by (rule run_chain_cong [of "plays False"])
      (use assms in \<open>auto simp: on_local_data_plays dest: processor_pack_plays\<close>)
  then show ?thesis by (auto simp: chain_on_local_data_def chain_pack_def)
qed

lemma entry_remote:
  assumes "list_all (plays False) ps"
  shows "chain_on_remote_data E w ps x [] =
    obind (chain_unpack E ps x) (\<lambda>(out, ps'). Ret (out, ps', w))"
proof -
  have "run_chain (on_remote_data E) (\<lambda>_ nxt. nxt) w (rev ps) [x] =
      run_chain (lift_unpack E) (\<lambda>_ nxt. nxt) w (rev ps) [x]"
    by (rule run_chain_cong [of "plays False"])
      (use assms in \<open>auto simp: on_remote_data_plays lift_unpack_Ret dest: processor_unpack_plays\<close>)
  then show ?thesis
    by (cases "run_chain (lift_unpack E) (\<lambda>_ nxt. nxt) () (rev ps) [x]")
      (auto simp: chain_on_remote_data_def chain_unpack_def run_chain_world [of E _ w])
qed

lemma exit_local:
  assumes "list_all (plays True) qs"
  shows "chain_on_local_data E w qs x [] =
    obind (chain_unpack E (rev qs) x) (\<lambda>(out, ds). Ret (out, rev ds, w))"
proof -
  have "run_chain (on_local_data E) (\<lambda>_ nxt. nxt) w qs [x] =
      run_chain (lift_unpack E) (\<lambda>_ nxt. nxt) w qs [x]"
    by (rule run_chain_cong [of "plays True"])
      (use assms in \<open>auto simp: on_local_data_plays lift_unpack_Ret dest: processor_unpack_plays\<close>)
  then show ?thesis
    by (cases "run_chain (lift_unpack E) (\<lambda>_ nxt. nxt) () qs [x]")
      (auto simp: chain_on_local_data_def chain_unpack_def run_chain_world [of E _ w])
qed

lemma exit_remote:
  assumes "list_all (plays True) qs"
  shows "chain_on_remote_data E w qs x [] =
    obind (chain_pack E w (rev qs) x) (\<lambda>(out, ds, w). Ret (out, rev ds, w))"
proof -
  have "run_chain (on_remote_data E) (\<lambda>_ nxt. nxt) w (rev qs) [x] =
      run_chain (processor_pack E) (\<lambda>_ nxt. nxt) w (rev qs) [x]"
    by (rule run_chain_cong [of "plays True"])
      (use assms in \<open>auto simp: on_remote_data_plays dest: processor_pack_plays\<close>)
  then show ?thesis
    by (auto simp: chain_on_remote_data_def chain_pack_def)
qed

lemma list_all2_const: "list_all2 (\<lambda>_. P) xs ys \<longleftrightarrow> length xs = length ys \<and> list_all P ys"
  by (auto simp: list_all2_conv_all_nth list_all_length)

lemma chain_pack_plays:
  assumes "list_all (plays rv) ps" "chain_pack E w ps x = Ret (out, ps', w')"
  shows "list_all (plays rv) ps'"
proof -
  have "list_all2 (\<lambda>_. plays rv) ps ps'"
    by (rule run_chain_keeps [OF _ _ assms(2) [unfolded chain_pack_def]])
      (use assms(1) in \<open>auto simp: list_all2_const dest: processor_pack_plays\<close>)
  then show ?thesis by (simp add: list_all2_const)
qed

lemma chain_unpack_plays:
  assumes "list_all (plays rv) ps" "chain_unpack E ps x = Ret (out, ps')"
  shows "list_all (plays rv) ps'"
proof -
  have "list_all2 (\<lambda>_. plays rv) (rev ps) (rev ps')"
    by (rule run_chain_keeps [OF _ _ assms(2) [unfolded chain_unpack_Ret]])
      (use assms(1) in \<open>auto simp: list_all2_const lift_unpack_Ret dest: processor_unpack_plays\<close>)
  then show ?thesis by (simp add: list_all2_const)
qed

subsection \<open>Chains that fit\<close>

text \<open>Two chains that fit: opposite roles, and partners in opposite order.\<close>

definition chains_fit :: "'w ext \<Rightarrow> ProcessorChain \<Rightarrow> ProcessorChain \<Rightarrow> bool" where
  "chains_fit E es qs \<longleftrightarrow> list_all (plays False) es \<and> list_all (plays True) qs \<and>
     list_all2 (proc_sync E) es (rev qs) \<and> list_all2 (proc_sync E) (rev qs) es"

abbreviation chain_link :: "'w ext \<Rightarrow> processor list \<Rightarrow> processor list \<Rightarrow> ByteVector \<Rightarrow> ByteVector
    \<Rightarrow> ByteVector \<Rightarrow> bool" where
  "chain_link E \<equiv> link (chain_unpack E) (list_all proc_inv) (list_all2 (proc_sync E))"

end
