(* ===== verification/Config.thy ===== *)
theory Config
  imports Text Chain_Roles
begin

section \<open>From processor specifications to chains\<close>

text \<open>
  The helpers of \<^verbatim>\<open>tunnel.cpp\<close> that turn the \<^verbatim>\<open>--processor\<close> arguments into a
  \<^verbatim>\<open>ProcessorChain\<close>. A specification is \<^verbatim>\<open>name[:k=v,...]\<close>. Warnings and error
  messages go to the log only and are left out; \<open>None\<close> is \<^verbatim>\<open>std::nullopt\<close>. The
  numeric conversions throw, and \<^verbatim>\<open>build_processor_chain\<close> does not catch.
\<close>

text \<open>One turn of the loop of \<^verbatim>\<open>parse_kv\<close>.\<close>

definition add_kv :: "string \<Rightarrow> (string \<rightharpoonup> string) \<Rightarrow> (string \<rightharpoonup> string)" where
  "add_kv item out = (case find_char CHR ''='' item of
       None \<Rightarrow> out
     | Some eq \<Rightarrow> out(take eq item \<mapsto> drop (eq + 1) item))"

definition parse_kv :: "string \<Rightarrow> (string \<rightharpoonup> string)" where
  "parse_kv s = fold add_kv (split s CHR '','') Map.empty"

definition parse_bool :: "string \<Rightarrow> bool" where
  "parse_bool v \<longleftrightarrow> v = ''1'' \<or> v = ''true'' \<or> v = ''yes''"

definition resolve_processor_reverse :: "(string \<rightharpoonup> string) \<Rightarrow> bool \<Rightarrow> bool" where
  "resolve_processor_reverse kv global_reverse =
     (case kv ''reverse'' of
        None \<Rightarrow> global_reverse
      | Some v \<Rightarrow> (let legacy_reverse = parse_bool v
                  in if global_reverse then global_reverse else legacy_reverse))"

definition spec_name :: "string \<Rightarrow> string" where
  "spec_name spec = (case find_char CHR '':'' spec of None \<Rightarrow> spec | Some colon \<Rightarrow> take colon spec)"

definition spec_args :: "string \<Rightarrow> string" where
  "spec_args spec = (case find_char CHR '':'' spec of None \<Rightarrow> [] | Some colon \<Rightarrow> drop (colon + 1) spec)"

text \<open>The seed of a padding processor: given, or from the clock and two random draws.\<close>

definition padding_seed :: "'w ext \<Rightarrow> 'w \<Rightarrow> (string \<rightharpoonup> string) \<Rightarrow> (u64 \<times> 'w) outcome" where
  "padding_seed E w kv = (case kv ''seed'' of
       Some s \<Rightarrow> obind (stoull s) (\<lambda>seed. Ret (seed, w))
     | None \<Rightarrow>
         (let (t, w) = high_resolution_now E w;
              (r1, w) = random_device E w;
              (r2, w) = random_device E w;
              r = push_bit 32 (ucast r1) XOR ucast r2
          in Ret (t XOR r, w)))"

text \<open>The body of the loop of \<^verbatim>\<open>build_processor_chain\<close>, for one specification.\<close>

definition build_processor :: "'w ext \<Rightarrow> 'w \<Rightarrow> string \<Rightarrow> bool \<Rightarrow> (processor option \<times> 'w) outcome" where
  "build_processor E w spec rv =
     (let name = spec_name spec; kv = parse_kv (spec_args spec) in
      if name = ''identity'' then Ret (Some (IdentityP (IdentityProcessor_new False)), w)
      else if name = ''cfb'' then
        (case kv ''key'' of
           None \<Rightarrow> Ret (None, w)
         | Some key \<Rightarrow>
             Ret (Some (CfbP (CfbProcessor_new (bytes_of_string key)
                                (resolve_processor_reverse kv rv))), w))
      else if name = ''cfb_nonce'' then
        (case (kv ''iv'', kv ''hmac_key'') of
           (Some iv, Some key) \<Rightarrow>
             if iv = [] \<or> key = [] then Ret (None, w)
             else Ret (Some (CfbNonceP (CfbNonceProcessor_new (bytes_of_string iv)
                                (bytes_of_string key) (resolve_processor_reverse kv rv))), w)
         | _ \<Rightarrow> Ret (None, w))
      else if name = ''padding'' then
        (case (kv ''chunk'', kv ''max'') of
           (Some c, Some m) \<Rightarrow>
             obind (stoull c) (\<lambda>chunk.
             obind (stoull m) (\<lambda>pmax.
             if unat chunk > 4294967295 \<or> unat pmax > 4294967295 then Ret (None, w)
             else obind (padding_seed E w kv) (\<lambda>(seed, w).
               Ret (Some (PaddingP (PaddingProcessor_new (unat chunk) (unat pmax) seed
                                (resolve_processor_reverse kv rv))), w))))
         | _ \<Rightarrow> Ret (None, w))
      else Ret (None, w))"

fun build_from :: "'w ext \<Rightarrow> 'w \<Rightarrow> string list \<Rightarrow> bool \<Rightarrow> ProcessorChain
    \<Rightarrow> (ProcessorChain option \<times> 'w) outcome" where
  "build_from E w [] rv chain = Ret (Some chain, w)"
| "build_from E w (spec # specs) rv chain =
     obind (build_processor E w spec rv) (\<lambda>(p, w). case p of
       None \<Rightarrow> Ret (None, w)
     | Some p \<Rightarrow> build_from E w specs rv (chain_add chain p))"

definition build_processor_chain :: "'w ext \<Rightarrow> 'w \<Rightarrow> string list \<Rightarrow> bool
    \<Rightarrow> (ProcessorChain option \<times> 'w) outcome" where
  "build_processor_chain E w specs rv =
     (if specs = [] then Ret (Some (chain_add [] (IdentityP (IdentityProcessor_new False))), w)
      else let ordered_specs = (if rv then rev specs else specs)
           in build_from E w ordered_specs rv [])"

subsection \<open>Key-value arguments\<close>

text \<open>What \<^verbatim>\<open>parse_kv\<close> computes: the last item with the key decides.\<close>

definition kv_items :: "string \<Rightarrow> (string \<times> string) list" where
  "kv_items s = List.map_filter (\<lambda>item. map_option (\<lambda>eq. (take eq item, drop (eq + 1) item))
     (find_char CHR ''='' item)) (split s CHR '','')"

lemma fold_add_kv:
  "fold add_kv items m =
     m ++ map_of (rev (List.map_filter (\<lambda>item. map_option (\<lambda>eq. (take eq item, drop (eq + 1) item))
       (find_char CHR ''='' item)) items))"
  by (induction items arbitrary: m) (auto simp: add_kv_def List.map_filter_simps split: option.splits)

lemma parse_kv_map_of: "parse_kv s = map_of (rev (kv_items s))"
  by (simp add: parse_kv_def kv_items_def fold_add_kv)

definition print_kv :: "string \<times> string \<Rightarrow> string" where
  "print_kv kv = fst kv @ CHR ''='' # snd kv"

definition plain_kv :: "string \<times> string \<Rightarrow> bool" where
  "plain_kv kv \<longleftrightarrow> CHR ''='' \<notin> set (fst kv) \<and> CHR '','' \<notin> set (fst kv) \<and> CHR '','' \<notin> set (snd kv)"

lemma kv_items_join:
  assumes "\<forall>kv\<in>set kvs. plain_kv kv"
  shows "kv_items (join CHR '','' (map print_kv kvs)) = kvs"
proof (cases "kvs = []")
  case True
  then show ?thesis by (simp add: kv_items_def split.simps List.map_filter_simps)
next
  case False
  have "split (join CHR '','' (map print_kv kvs)) CHR '','' = map print_kv kvs"
    by (rule split_join) (use assms False in \<open>auto simp: print_kv_def plain_kv_def last_map\<close>)
  moreover have "List.map_filter (\<lambda>item. map_option (\<lambda>eq. (take eq item, drop (eq + 1) item))
      (find_char CHR ''='' item)) (map print_kv kvs) = kvs"
    using assms by (induction kvs)
      (auto simp: List.map_filter_simps print_kv_def plain_kv_def find_char_append)
  ultimately show ?thesis by (simp add: kv_items_def)
qed

subsection \<open>What a successful build gives\<close>

text \<open>A specification that does not use the deprecated \<^verbatim>\<open>reverse\<close> argument to turn itself around.\<close>

definition plain_spec :: "string \<Rightarrow> bool" where
  "plain_spec spec \<longleftrightarrow> \<not> resolve_processor_reverse (parse_kv (spec_args spec)) False"

lemma resolve_True [simp]: "resolve_processor_reverse kv True"
  by (simp add: resolve_processor_reverse_def split: option.splits)

text \<open>The processors a specification can become, with the fields that matter.\<close>

lemma build_processor_cases:
  assumes "build_processor E w spec rv = Ret (Some p, w')"
  defines "kv \<equiv> parse_kv (spec_args spec)"
  obtains "spec_name spec = ''identity''" "p = IdentityP (IdentityProcessor_new False)"
  | key where "spec_name spec = ''cfb''" "kv ''key'' = Some key"
      "p = CfbP (CfbProcessor_new (bytes_of_string key) (resolve_processor_reverse kv rv))"
  | iv key where "spec_name spec = ''cfb_nonce''" "kv ''iv'' = Some iv" "kv ''hmac_key'' = Some key"
      "p = CfbNonceP (CfbNonceProcessor_new (bytes_of_string iv) (bytes_of_string key)
         (resolve_processor_reverse kv rv))"
  | c m chunk pmax seed where "spec_name spec = ''padding''" "kv ''chunk'' = Some c"
      "kv ''max'' = Some m" "stoull c = Ret chunk" "stoull m = Ret pmax"
      "unat chunk \<le> 4294967295" "unat pmax \<le> 4294967295"
      "p = PaddingP (PaddingProcessor_new (unat chunk) (unat pmax) seed (resolve_processor_reverse kv rv))"
  using assms(1) unfolding build_processor_def Let_def kv_def [symmetric]
  by (auto simp: obind_eq_Ret split: if_splits option.splits)

lemma build_from_list_all2:
  assumes "\<And>w spec p w'. build_processor E w spec rv = Ret (Some p, w') \<Longrightarrow> R spec p"
  shows "build_from E w specs rv chain = Ret (Some ps, w') \<Longrightarrow>
    \<exists>qs. ps = chain @ qs \<and> list_all2 R specs qs"
proof (induction specs arbitrary: w chain)
  case Nil
  then show ?case by simp
next
  case (Cons spec specs)
  then obtain p w1 where p: "build_processor E w spec rv = Ret (Some p, w1)"
    "build_from E w1 specs rv (chain @ [p]) = Ret (Some ps, w')"
    by (auto simp: obind_eq_Ret chain_add_def split: option.splits)
  from Cons.IH [OF p(2)] assms [OF p(1)] show ?case by auto
qed

lemma reverse_new [simp]:
  "reverse (CfbProcessor_new key rv) = rv"
  "reverse (CfbNonceProcessor_new iv key rv) = rv"
  "reverse (PaddingProcessor_new c m seed rv) = rv"
  by (simp_all add: CfbProcessor_new_eq CfbNonceProcessor_new_def PaddingProcessor_new_def)

text \<open>One specification, built by both nodes, gives two processors that fit.\<close>

lemma build_processor_fit:
  assumes "uniform_in_range E" "plain_spec spec"
    "build_processor E w spec False = Ret (Some p, w')"
    "build_processor E v spec True = Ret (Some q, v')"
  shows "plays False p \<and> plays True q \<and> proc_sync E p q \<and> proc_sync E q p"
  using assms(3)
proof (cases rule: build_processor_cases)
  case 1
  with assms(4) show ?thesis by (auto elim: build_processor_cases)
next
  case (2 key)
  with assms(2,4) show ?thesis
    by (elim build_processor_cases)
      (auto simp: plain_spec_def cfb_sync_new)
next
  case (3 iv key)
  with assms(2,4) show ?thesis
    by (elim build_processor_cases)
      (auto simp: plain_spec_def nonce_sync_new)
next
  case (4 c m chunk pmax seed)
  with assms(1,2,4) show ?thesis
    by (elim build_processor_cases)
      (auto simp: plain_spec_def padding_sync_new)
qed

lemma list_all2_rev_fit:
  assumes "list_all2 P xs ps" "list_all2 Q (rev xs) qs"
    "\<And>x p q. x \<in> set xs \<Longrightarrow> P x p \<Longrightarrow> Q x q \<Longrightarrow> R p q"
  shows "list_all2 R ps (rev qs)"
proof -
  have len: "length xs = length ps" "length xs = length qs"
    using assms(1,2) by (auto dest: list_all2_lengthD)
  have "list_all2 Q xs (rev qs)"
    using assms(2) by (metis list_all2_rev rev_rev_ident)
  then show ?thesis
    using assms(1) len by (auto simp: list_all2_conv_all_nth intro!: assms(3) [OF nth_mem])
qed

text \<open>
  The same command line on both nodes, \<^verbatim>\<open>--reverse=1\<close> on one of them, gives chains that
  fit each other.
\<close>

lemma build_chains_fit:
  assumes E: "uniform_in_range E" and plain: "\<forall>spec\<in>set specs. plain_spec spec"
    and es: "build_processor_chain E w specs False = Ret (Some es, w')"
    and qs: "build_processor_chain E v specs True = Ret (Some qs, v')"
  shows "chains_fit E es qs"
proof (cases "specs = []")
  case True
  with es qs show ?thesis
    by (auto simp: build_processor_chain_def chain_add_def chains_fit_def)
next
  case False
  let ?B = "\<lambda>rv spec p. \<exists>w w'. build_processor E w spec rv = Ret (Some p, w')"
  from False es have 1: "list_all2 (?B False) specs es"
    using build_from_list_all2 [of E False "?B False" w specs "[]" es w']
    by (auto simp: build_processor_chain_def)
  from False qs have 2: "list_all2 (?B True) (rev specs) qs"
    using build_from_list_all2 [of E True "?B True" v "rev specs" "[]" qs v']
    by (auto simp: build_processor_chain_def)
  have fit: "plays False p \<and> plays True q \<and> proc_sync E p q \<and> proc_sync E q p"
    if "x \<in> set specs" "?B False x p" "?B True x q" for x p q
    using that plain build_processor_fit [OF E] by blast
  have all: "list_all2 (\<lambda>p q. plays False p \<and> plays True q \<and> proc_sync E p q \<and> proc_sync E q p)
      es (rev qs)"
    by (rule list_all2_rev_fit [OF 1 2]) (rule fit)
  then have "list_all2 (proc_sync E) es (rev qs)" "list_all2 (\<lambda>p q. proc_sync E q p) es (rev qs)"
    and "list_all (plays False) es" "list_all (plays True) (rev qs)"
    by (auto simp: list_all2_conv_all_nth list_all_length)
  then show ?thesis
    using list_all2_flip [of "proc_sync E" es "rev qs"] by (simp add: chains_fit_def)
qed

subsection \<open>Which specifications are accepted\<close>

definition processor_name :: "processor \<Rightarrow> string" where
  "processor_name p = (case p of IdentityP _ \<Rightarrow> ''identity'' | CfbP _ \<Rightarrow> ''cfb''
     | CfbNonceP _ \<Rightarrow> ''cfb_nonce'' | PaddingP _ \<Rightarrow> ''padding'')"

text \<open>The number is readable and fits 32 bits.\<close>

definition number_ok :: "string option \<Rightarrow> bool" where
  "number_ok v = (case v of None \<Rightarrow> False
     | Some s \<Rightarrow> (case stoull s of Ret n \<Rightarrow> unat n \<le> 4294967295 | _ \<Rightarrow> False))"

definition seed_ok :: "string option \<Rightarrow> bool" where
  "seed_ok v = (case v of None \<Rightarrow> True | Some s \<Rightarrow> (case stoull s of Ret n \<Rightarrow> True | _ \<Rightarrow> False))"

definition spec_ok :: "string \<Rightarrow> bool" where
  "spec_ok spec =
     (let kv = parse_kv (spec_args spec) in
      if spec_name spec = ''identity'' then True
      else if spec_name spec = ''cfb'' then kv ''key'' \<noteq> None
      else if spec_name spec = ''cfb_nonce''
      then kv ''iv'' \<notin> {None, Some []} \<and> kv ''hmac_key'' \<notin> {None, Some []}
      else if spec_name spec = ''padding''
      then number_ok (kv ''chunk'') \<and> number_ok (kv ''max'') \<and> seed_ok (kv ''seed'')
      else False)"

lemma build_processor_ok:
  "(\<exists>p w'. build_processor E w spec rv = Ret (Some p, w')) \<longleftrightarrow> spec_ok spec"
proof -
  define kv where "kv = parse_kv (spec_args spec)"
  consider "spec_name spec = ''identity''" | "spec_name spec = ''cfb''" | "spec_name spec = ''cfb_nonce''"
    | "spec_name spec = ''padding''"
    | "spec_name spec \<notin> {''identity'', ''cfb'', ''cfb_nonce'', ''padding''}" by auto
  then show ?thesis
  proof cases
    case 4
    have ob: "obind m f = (case m of Ret x \<Rightarrow> f x | Throw e \<Rightarrow> Throw e | Diverge \<Rightarrow> Diverge)"
      for m :: "u64 outcome" and f :: "u64 \<Rightarrow> (processor option \<times> 'a) outcome"
      by (cases m) simp_all
    have seed: "(\<exists>p w'. obind (padding_seed E w kv) (\<lambda>(seed, w). Ret (Some (F seed), w)) = Ret (Some p, w')) \<longleftrightarrow>
        seed_ok (kv ''seed'')" for F :: "u64 \<Rightarrow> processor"
      by (cases "kv ''seed''")
        (auto simp: padding_seed_def seed_ok_def Let_def split_beta obind_eq_Ret split: outcome.splits)
    from 4 show ?thesis
      unfolding build_processor_def spec_ok_def Let_def kv_def [symmetric]
      by (cases "kv ''chunk''"; cases "kv ''max''") (simp_all add: ob number_ok_def seed split: outcome.split)
  qed (auto simp: build_processor_def spec_ok_def Let_def kv_def [symmetric] split: option.splits)
qed

lemma build_processor_name:
  "build_processor E w spec rv = Ret (Some p, w') \<Longrightarrow> processor_name p = spec_name spec"
  by (elim build_processor_cases) (simp_all add: processor_name_def)

lemma build_from_ok:
  "(\<exists>ps w'. build_from E w specs rv chain = Ret (Some ps, w')) \<longleftrightarrow> list_all spec_ok specs"
proof (induction specs arbitrary: w chain)
  case (Cons spec specs)
  show ?case
  proof (cases "spec_ok spec")
    case True
    then obtain p w1 where "build_processor E w spec rv = Ret (Some p, w1)"
      using build_processor_ok [of E w spec rv] by auto
    with True Cons [of w1 "chain_add chain p"] show ?thesis by simp
  next
    case False
    then have "build_processor E w spec rv \<noteq> Ret (Some p, w1)" for p w1
      using build_processor_ok [of E w spec rv] by auto
    with False show ?thesis by (auto simp: obind_eq_Ret split: option.splits)
  qed
qed simp

subsection \<open>Properties\<close>

text \<open>
  The argument parser reads back what is written: for keys without an equals
  sign or comma and values without a comma, the map of the joined text is the map of the
  pairs, the last pair of a key winning.
\<close>

theorem parse_kv_of_printed:
  assumes "\<forall>kv\<in>set kvs. plain_kv kv"
  shows "parse_kv (join CHR '','' (map print_kv kvs)) = map_of (rev kvs)"
  using kv_items_join [OF assms] by (simp add: parse_kv_map_of)

theorem parse_kv_of_printed_witness:
  "parse_kv ''key=a=b,seed=7,key=c'' ''key'' = Some ''c''"
  using parse_kv_of_printed [of "[(''key'', ''a=b''), (''seed'', ''7''), (''key'', ''c'')]"]
  by (simp add: plain_kv_def print_kv_def)

text \<open>
  Property C16. A command line is accepted, in either direction and whatever the random
  sources give, exactly when every specification is: a known name with its required
  arguments, non-empty where that is checked, numeric where they are numbers and within
  32 bits; one bad specification rejects the whole chain.
\<close>

theorem build_accepts_exactly:
  "(\<exists>ps w'. build_processor_chain E w specs rv = Ret (Some ps, w')) \<longleftrightarrow> list_all spec_ok specs"
  using build_from_ok [of E w specs rv "[]"] build_from_ok [of E w "rev specs" rv "[]"]
  by (cases "specs = []"; cases rv) (simp_all add: build_processor_chain_def Let_def)

text \<open>
  Property C17. What a successful build gives: one processor per specification, of the kind
  it names, in the order of the command line, or in the opposite order under the global
  reverse, where every processor but the identity also has its reverse flag set.
\<close>

theorem build_order_and_roles:
  assumes "build_processor_chain E w specs rv = Ret (Some ps, w')" "specs \<noteq> []"
  shows "map processor_name ps = map spec_name (if rv then rev specs else specs) \<and>
    (rv \<longrightarrow> list_all (plays True) ps)"
proof -
  let ?R = "\<lambda>spec p. processor_name p = spec_name spec \<and> (rv \<longrightarrow> plays True p)"
  have "\<exists>qs. ps = [] @ qs \<and> list_all2 ?R (if rv then rev specs else specs) qs"
  proof (rule build_from_list_all2 [of E rv ?R])
    show "build_from E w (if rv then rev specs else specs) rv [] = Ret (Some ps, w')"
      using assms by (simp add: build_processor_chain_def Let_def split: if_splits)
  next
    fix w spec p w'
    assume b: "build_processor E w spec rv = Ret (Some p, w')"
    then show "?R spec p"
      using build_processor_name [OF b] by (elim build_processor_cases) auto
  qed
  then show ?thesis
    by (auto simp: list_all2_conv_all_nth list_all_length intro!: nth_equalityI)
qed

theorem build_order_and_roles_witness:
  "\<exists>ps w'. build_processor_chain example_ext 0 [''cfb:key=k'', ''identity''] True = Ret (Some ps, w') \<and>
    map processor_name ps = [''identity'', ''cfb''] \<and> list_all (plays True) ps"
proof -
  have "list_all spec_ok [''cfb:key=k'', ''identity'']" by code_simp
  then obtain ps w' where b: "build_processor_chain example_ext 0 [''cfb:key=k'', ''identity''] True = Ret (Some ps, w')"
    using build_from_ok [of example_ext 0 "[''identity'', ''cfb:key=k'']" True "[]"]
    by (auto simp: build_processor_chain_def)
  have "map spec_name [''identity'', ''cfb:key=k''] = [''identity'', ''cfb'']" by code_simp
  with build_order_and_roles [OF b] b show ?thesis by auto
qed

text \<open>
  The direction in which a node decodes: what comes from the partner. That is the remote
  direction of an entry node and the local one of an exit node, which runs with the global reverse.
\<close>

abbreviation decode_view :: "'w ext \<Rightarrow> bool \<Rightarrow> 'w \<Rightarrow> ProcessorChain \<Rightarrow> ByteVector \<Rightarrow> (ByteVector \<times> ProcessorChain) option" where
  "decode_view E rv v ps x \<equiv> map_option (\<lambda>(y, ps, _). (y, ps))
     (stream_view (if rv then chain_on_local_data E v ps x [] else chain_on_remote_data E v ps x []))"

abbreviation unpack_view :: "'w ext \<Rightarrow> processor list \<Rightarrow> ByteVector \<Rightarrow> (ByteVector \<times> processor list) option" where
  "unpack_view E ps x \<equiv> stream_view (chain_unpack E ps x)"

abbreviation flip_chain :: "bool \<Rightarrow> 'p list \<Rightarrow> 'p list" where
  "flip_chain rv ps \<equiv> if rv then rev ps else ps"

lemma decode_view_unpack:
  assumes "list_all (plays rv) ps"
  shows "decode_view E rv v ps x = map_option (\<lambda>(y, ps). (y, flip_chain rv ps)) (unpack_view E (flip_chain rv ps) x)"
proof (cases rv)
  case True
  with assms show ?thesis by (cases "chain_unpack E (rev ps) x") (auto simp: exit_local)
next
  case False
  with assms show ?thesis by (cases "chain_unpack E ps x") (auto simp: entry_remote)
qed

lemma feed_decode_unpack:
  "list_all (plays rv) ps \<Longrightarrow> feed_stream (decode_view E rv v) ps frags =
    map_option (\<lambda>(y, ps). (y, flip_chain rv ps)) (feed_stream (unpack_view E) (flip_chain rv ps) frags)"
proof (induction frags arbitrary: ps)
  case (Cons x xs)
  show ?case
  proof (cases "chain_unpack E (flip_chain rv ps) x")
    case (Ret t)
    obtain out qs where t: "t = (out, qs)" by (rule prod.exhaust)
    have "list_all (plays rv) (flip_chain rv ps)" using Cons.prems by (cases rv) simp_all
    from chain_unpack_plays [OF this Ret [unfolded t]] have "list_all (plays rv) (flip_chain rv qs)" by (cases rv) simp_all
    from Cons.IH [OF this] have "feed_stream (decode_view E rv v) (flip_chain rv qs) xs =
        map_option (\<lambda>(y, ps). (y, flip_chain rv ps)) (feed_stream (unpack_view E) qs xs)"
      by (cases rv) (simp_all add: id_def)
    then show ?thesis
      unfolding feed_stream.simps decode_view_unpack [OF Cons.prems] Ret t stream_view_simps option.map Option.bind.simps prod.case
      by (cases "feed_stream (unpack_view E) qs xs") auto
  qed (simp_all add: decode_view_unpack [OF Cons.prems])
qed simp

text \<open>
  Property C18. TCP segmentation does not matter to what a node decodes. For a chain built by
  \<^verbatim>\<open>build_processor_chain\<close>, with or without the global reverse, from specifications
  that do not use the deprecated \<^verbatim>\<open>reverse=\<close> of their own: feeding the direction in which the chain unpacks (the
  remote data of an entry node, the local data of an exit node) fragment by fragment gives
  the bytes, the chain and the failure that feeding the whole at once gives. The
  other direction packs, and there the padding may depend on the fragments.
\<close>

theorem decoding_segmentation:
  assumes "\<forall>spec\<in>set specs. plain_spec spec" "uniform_in_range E"
    "build_processor_chain E w specs rv = Ret (Some ps, w')"
  shows "feed_stream (\<lambda>ps x. map_option (\<lambda>(y, ps, _). (y, ps))
      (stream_view (if rv then chain_on_local_data E v ps x [] else chain_on_remote_data E v ps x []))) ps frags =
    map_option (\<lambda>(y, ps, _). (y, ps))
      (stream_view (if rv then chain_on_local_data E v ps (concat frags) [] else chain_on_remote_data E v ps (concat frags) []))"
proof -
  have "\<exists>qs v'. build_processor_chain E w specs (\<not> rv) = Ret (Some qs, v')"
    using assms(3) build_from_ok [of E w "flip_chain rv specs" rv "[]"] build_from_ok [of E w "flip_chain (\<not> rv) specs" "\<not> rv" "[]"]
    by (cases "specs = []"; cases rv) (auto simp: build_processor_chain_def Let_def)
  then obtain qs v' where qs: "build_processor_chain E w specs (\<not> rv) = Ret (Some qs, v')" by blast
  have fit: "list_all (plays rv) ps" "list_all proc_inv (flip_chain rv ps)"
    using build_chains_fit [OF assms(2,1), of w ps w' w qs v'] build_chains_fit [OF assms(2,1), of w qs v' w ps w'] assms(3) qs
    by (cases rv; auto simp: chains_fit_def dest: sync_inv_list)+
  have "feed_stream (decode_view E rv v) ps frags =
      map_option (\<lambda>(y, ps). (y, flip_chain rv ps)) (unpack_view E (flip_chain rv ps) (concat frags))"
    unfolding feed_decode_unpack [OF fit(1)] using fit(2) by (simp add: chain.codec.feed_eq_concat)
  then show ?thesis by (simp only: decode_view_unpack [OF fit(1)])
qed

theorem decoding_segmentation_witness:
  "\<exists>ps w'. build_processor_chain example_ext 0 [''cfb:key=k'', ''identity''] True = Ret (Some ps, w') \<and>
    feed_stream (\<lambda>ps x. map_option (\<lambda>(y, ps, _). (y, ps)) (stream_view (chain_on_local_data example_ext 3 ps x [])))
      ps [[1, 2], [3]] =
    map_option (\<lambda>(y, ps, _). (y, ps)) (stream_view (chain_on_local_data example_ext 3 ps [1, 2, 3] []))"
proof -
  have "list_all spec_ok [''identity'', ''cfb:key=k'']" by code_simp
  then obtain ps w' where b: "build_processor_chain example_ext 0 [''cfb:key=k'', ''identity''] True = Ret (Some ps, w')"
    using build_from_ok [of example_ext 0 "[''identity'', ''cfb:key=k'']" True "[]"]
    by (auto simp: build_processor_chain_def)
  have "plain_spec ''cfb:key=k''" "plain_spec ''identity''" by code_simp+
  with decoding_segmentation [OF _ example_ext_uniform b, of 3 "[[1, 2], [3]]"] b show ?thesis by auto
qed

text \<open>
  Property C20. The build does not check that the chunk size is positive: the specification
  \<^verbatim>\<open>padding:chunk=0,max=3,seed=1\<close> gives a chain whose packing direction never returns from
  the first data it gets, and with it the event loop of the node.
\<close>

theorem chunk_zero_accepted_and_hangs:
  "\<exists>ps. build_processor_chain E w [''padding:chunk=0,max=3,seed=1''] False = Ret (Some ps, w) \<and>
    chain_on_local_data E v ps [b] [] = Diverge"
proof -
  define spec where "spec = ''padding:chunk=0,max=3,seed=1''"
  have name: "spec_name spec = ''padding''" "spec_args spec = join CHR '','' (map print_kv
      [(''chunk'', ''0''), (''max'', ''3''), (''seed'', ''1'')])"
    by (simp_all add: spec_def spec_name_def spec_args_def print_kv_def)
  have "parse_kv (spec_args spec) = map_of (rev [(''chunk'', ''0''), (''max'', ''3''), (''seed'', ''1'')])"
    unfolding name parse_kv_map_of by (subst kv_items_join) (simp_all add: plain_kv_def)
  then have kv: "parse_kv (spec_args spec) ''chunk'' = Some ''0''" "parse_kv (spec_args spec) ''max'' = Some ''3''"
    "parse_kv (spec_args spec) ''seed'' = Some ''1''" "parse_kv (spec_args spec) ''reverse'' = None"
    by simp_all
  have n: "stoull ''0'' = Ret 0" "stoull ''3'' = Ret 3" "stoull ''1'' = Ret 1"
    by (simp_all add: stoull_def is_space_def digit_value_def)
  let ?p = "PaddingProcessor_new 0 3 1 False"
  have "build_processor E w spec False = Ret (Some (PaddingP ?p), w)"
    by (simp add: build_processor_def name(1) kv n padding_seed_def resolve_processor_reverse_def)
  moreover have "chain_on_local_data E v [PaddingP ?p] [b] [] = Diverge"
    by (simp add: chain_on_local_data_def on_local_data_def padding_pack_diverges)
  ultimately show ?thesis
    by (simp add: build_processor_chain_def chain_add_def spec_def)
qed

end
