(* ===== verification/Socket.thy ===== *)
theory Socket
  imports Prelude
begin

section \<open>Sockets\<close>

text \<open>
  A TCP socket as the code can observe it: whether it is open, whether its sending side is
  shut down, and the bytes that writes have handed over to the network. The tunnel's
  sessions and the relay's peers use it.
\<close>

record sock =
  is_open :: bool
  send_shut :: bool
  written :: ByteVector

definition fresh_sock :: sock where
  "fresh_sock = \<lparr>is_open = True, send_shut = False, written = []\<rparr>"

definition sock_close :: "sock \<Rightarrow> sock" where
  "sock_close k = k\<lparr>is_open := False\<rparr>"

definition sock_shutdown_send :: "sock \<Rightarrow> sock" where
  "sock_shutdown_send k = k\<lparr>send_shut := True\<rparr>"

definition sock_write :: "sock \<Rightarrow> ByteVector \<Rightarrow> sock" where
  "sock_write k x = k\<lparr>written := written k @ x\<rparr>"

text \<open>
  The result of one \<^verbatim>\<open>async_write\<close> of a buffer: all of it, or an error after a number of
  bytes.
\<close>

datatype write_result = WriteOk | WriteFailed nat

lemmas sock_defs = sock_close_def sock_shutdown_send_def sock_write_def

lemma written_sock [simp]:
  "written (sock_close k) = written k" "written (sock_shutdown_send k) = written k"
  "written (sock_write k x) = written k @ x" "written fresh_sock = []"
  by (simp_all add: sock_defs fresh_sock_def)

text \<open>
  A write that completes hands the bytes over. One that fails has handed over some of them,
  and TCP reports a failure only when the sending side of the connection is gone.
\<close>

definition wrote :: "write_result \<Rightarrow> ByteVector \<Rightarrow> sock \<Rightarrow> sock" where
  "wrote r x k = (case r of WriteOk \<Rightarrow> sock_write k x
     | WriteFailed n \<Rightarrow> sock_shutdown_send (sock_write k (take n x)))"

text \<open>A write to a socket that is closed or whose sending side is gone fails.\<close>

definition unusable :: "sock \<Rightarrow> bool" where
  "unusable k \<longleftrightarrow> send_shut k \<or> \<not> is_open k"

lemma wrote_simps:
  "written (wrote WriteOk x k) = written k @ x" "written (wrote (WriteFailed n) x k) = written k @ take n x"
  "unusable (wrote (WriteFailed n) x k)" "unusable k \<Longrightarrow> unusable (wrote r x k)"
  by (auto simp: wrote_def unusable_def sock_defs split: write_result.split)

lemma unusable_close [simp]: "unusable (sock_close k)"
  by (simp add: unusable_def sock_close_def)

end
