(* ===== verification/Tunnel.thy ===== *)
theory Tunnel
  imports Config Socket
begin

section \<open>Tunnel sessions\<close>

text \<open>
  A session of \<^verbatim>\<open>tunnel.cpp\<close>: two coroutines that copy bytes through the chain, one per
  direction, and one that logs rates. A coroutine runs from one \<^verbatim>\<open>co_await\<close> to the next
  without interruption (the \<^verbatim>\<open>io_context\<close> has one thread), so the model has one
  function per resumption: what happens from the completion of the awaited operation to
  the next suspension. Which coroutine is resumed, and with what result, is the choice of
  the outside, a step relation.
\<close>

text \<open>
  The JSON log lines. A rate is kept as its numerator and the elapsed time: the quotient
  is computed in \<^verbatim>\<open>double\<close> for the log only.
\<close>

datatype log_line = ConnNew u64 | ConnClose u64 u64 u64 | Stat u64 u64 u64 int

text \<open>Where a read loop is suspended: in a read, or in the write of the head of a list.\<close>

datatype loop_pc = NotStarted | Reading | Writing DataBufferList | Flushing DataBufferList | Finished

record 'w session =
  sid :: u64
  local_sock :: sock
  remote_sock :: sock
  rx_bytes :: u64
  tx_bytes :: u64
  last_stat_rx :: u64
  last_stat_tx :: u64
  last_stat_time :: int
  local_eof :: bool
  remote_eof :: bool
  closed :: bool
  done_count :: nat
  chain :: ProcessorChain
  session_world :: 'w
  local_pc :: loop_pc
  remote_pc :: loop_pc
  stat_running :: bool
  log_lines :: "log_line list"

definition close_all :: "'w session \<Rightarrow> 'w session" where
  "close_all s = s\<lparr>local_sock := sock_close (local_sock s), remote_sock := sock_close (remote_sock s),
     closed := True\<rparr>"

text \<open>The completion handler of the two loops.\<close>

definition on_done :: "'w session \<Rightarrow> 'w session" where
  "on_done s =
     (let s = s\<lparr>done_count := done_count s + 1\<rparr>
      in if done_count s = 2
         then s\<lparr>log_lines := log_lines s @ [ConnClose (sid s) (rx_bytes s) (tx_bytes s)]\<rparr>
         else s)"

datatype read_result = ReadData ByteVector | ReadEof | ReadAborted | ReadError

subsection \<open>read\_local\<close>

definition local_finish :: "'w session \<Rightarrow> 'w session" where
  "local_finish s = on_done (s\<lparr>local_pc := Finished\<rparr>)"

definition local_write_next :: "'w session \<Rightarrow> DataBufferList \<Rightarrow> 'w session" where
  "local_write_next s out =
     (if out \<noteq> [] then s\<lparr>local_pc := Writing out\<rparr>
      else if closed s then local_finish s else s\<lparr>local_pc := Reading\<rparr>)"

definition local_flush_next :: "'w session \<Rightarrow> DataBufferList \<Rightarrow> 'w session" where
  "local_flush_next s flushed =
     (if flushed \<noteq> [] then s\<lparr>local_pc := Flushing flushed\<rparr>
      else local_finish (if remote_eof s then close_all s else s))"

definition local_read :: "'w ext \<Rightarrow> 'w session \<Rightarrow> read_result \<Rightarrow> 'w session option" where
  "local_read E s r = (case r of
     ReadEof \<Rightarrow>
       (let s = s\<lparr>local_eof := True, remote_sock := sock_shutdown_send (remote_sock s)\<rparr>
        in case chain_flush_local E (session_world s) (chain s) of
             Ret (flushed, ps, w) \<Rightarrow>
               Some (local_flush_next (s\<lparr>chain := ps, session_world := w\<rparr>) flushed)
           | Throw e \<Rightarrow> Some (local_finish s)
           | Diverge \<Rightarrow> None)
   | ReadAborted \<Rightarrow> Some (local_finish s)
   | ReadError \<Rightarrow> Some (local_finish (if \<not> closed s then close_all s else s))
   | ReadData x \<Rightarrow>
       (case chain_on_local_data E (session_world s) (chain s) x [] of
          Ret (out, ps, w) \<Rightarrow> Some (local_write_next (s\<lparr>chain := ps, session_world := w\<rparr>) out)
        | Throw e \<Rightarrow> Some (local_finish (if \<not> closed s then close_all s else s))
        | Diverge \<Rightarrow> None))"

definition local_written :: "'w session \<Rightarrow> write_result \<Rightarrow> 'w session" where
  "local_written s r = (case local_pc s of
     Writing (b # out) \<Rightarrow> (case r of
       WriteOk \<Rightarrow>
         local_write_next (s\<lparr>remote_sock := sock_write (remote_sock s) b,
                             tx_bytes := tx_bytes s + of_nat (length b)\<rparr>) out
     | WriteFailed k \<Rightarrow>
         (let s = s\<lparr>remote_sock := sock_write (remote_sock s) (take k b)\<rparr>
          in local_finish (if \<not> closed s then close_all s else s)))
   | Flushing (b # out) \<Rightarrow> (case r of
       WriteOk \<Rightarrow>
         local_flush_next (s\<lparr>remote_sock := sock_write (remote_sock s) b,
                             tx_bytes := tx_bytes s + of_nat (length b)\<rparr>) out
     | WriteFailed k \<Rightarrow>
         local_finish (close_all (s\<lparr>remote_sock := sock_write (remote_sock s) (take k b)\<rparr>)))
   | _ \<Rightarrow> s)"

subsection \<open>read\_remote\<close>

definition remote_finish :: "'w session \<Rightarrow> 'w session" where
  "remote_finish s = on_done (s\<lparr>remote_pc := Finished\<rparr>)"

definition remote_write_next :: "'w session \<Rightarrow> DataBufferList \<Rightarrow> 'w session" where
  "remote_write_next s out =
     (if out \<noteq> [] then s\<lparr>remote_pc := Writing out\<rparr>
      else if closed s then remote_finish s else s\<lparr>remote_pc := Reading\<rparr>)"

definition remote_flush_next :: "'w session \<Rightarrow> DataBufferList \<Rightarrow> 'w session" where
  "remote_flush_next s flushed =
     (if flushed \<noteq> [] then s\<lparr>remote_pc := Flushing flushed\<rparr>
      else remote_finish (if local_eof s then close_all s else s))"

definition remote_read :: "'w ext \<Rightarrow> 'w session \<Rightarrow> read_result \<Rightarrow> 'w session option" where
  "remote_read E s r = (case r of
     ReadEof \<Rightarrow>
       (let s = s\<lparr>remote_eof := True, local_sock := sock_shutdown_send (local_sock s)\<rparr>
        in case chain_flush_remote E (session_world s) (chain s) of
             Ret (flushed, ps, w) \<Rightarrow>
               Some (remote_flush_next (s\<lparr>chain := ps, session_world := w\<rparr>) flushed)
           | Throw e \<Rightarrow> Some (remote_finish s)
           | Diverge \<Rightarrow> None)
   | ReadAborted \<Rightarrow> Some (remote_finish s)
   | ReadError \<Rightarrow> Some (remote_finish (if \<not> closed s then close_all s else s))
   | ReadData x \<Rightarrow>
       (case chain_on_remote_data E (session_world s) (chain s) x [] of
          Ret (out, ps, w) \<Rightarrow> Some (remote_write_next (s\<lparr>chain := ps, session_world := w\<rparr>) out)
        | Throw e \<Rightarrow> Some (remote_finish (if \<not> closed s then close_all s else s))
        | Diverge \<Rightarrow> None))"

definition remote_written :: "'w session \<Rightarrow> write_result \<Rightarrow> 'w session" where
  "remote_written s r = (case remote_pc s of
     Writing (b # out) \<Rightarrow> (case r of
       WriteOk \<Rightarrow>
         remote_write_next (s\<lparr>local_sock := sock_write (local_sock s) b,
                              rx_bytes := rx_bytes s + of_nat (length b)\<rparr>) out
     | WriteFailed k \<Rightarrow>
         (let s = s\<lparr>local_sock := sock_write (local_sock s) (take k b)\<rparr>
          in remote_finish (if \<not> closed s then close_all s else s)))
   | Flushing (b # out) \<Rightarrow> (case r of
       WriteOk \<Rightarrow>
         remote_flush_next (s\<lparr>local_sock := sock_write (local_sock s) b,
                              rx_bytes := rx_bytes s + of_nat (length b)\<rparr>) out
     | WriteFailed k \<Rightarrow>
         remote_finish (close_all (s\<lparr>local_sock := sock_write (local_sock s) (take k b)\<rparr>)))
   | _ \<Rightarrow> s)"

subsection \<open>stat\_loop\<close>

text \<open>The timer has expired (or failed, \<open>ec\<close>); \<open>now\<close> is the steady clock in nanoseconds.\<close>

definition stat_tick :: "'w session \<Rightarrow> bool \<Rightarrow> int \<Rightarrow> 'w session" where
  "stat_tick s ec now =
     (if ec \<or> closed s then s\<lparr>stat_running := False\<rparr>
      else let dt = now - last_stat_time s
           in if dt > 0
              then s\<lparr>last_stat_rx := rx_bytes s, last_stat_tx := tx_bytes s, last_stat_time := now,
                     log_lines := log_lines s @
                       [Stat (sid s) (rx_bytes s - last_stat_rx s) (tx_bytes s - last_stat_tx s) dt]\<rparr>
              else s)"

subsection \<open>Creation and start\<close>

text \<open>
  The constructor takes the accepted socket and a fresh socket for the remote end; the
  caller sets \<^verbatim>\<open>id\<close> and connects. \<^verbatim>\<open>start_session\<close> spawns the three coroutines; a read
  loop first looks at \<^verbatim>\<open>closed\<close>.
\<close>

definition new_session :: "'w \<Rightarrow> sock \<Rightarrow> ProcessorChain \<Rightarrow> int \<Rightarrow> 'w session" where
  "new_session w local proc_chain now =
     \<lparr>sid = 0, local_sock = local, remote_sock = fresh_sock, rx_bytes = 0, tx_bytes = 0,
      last_stat_rx = 0, last_stat_tx = 0, last_stat_time = now, local_eof = False,
      remote_eof = False, closed = False, done_count = 0, chain = proc_chain, session_world = w,
      local_pc = NotStarted, remote_pc = NotStarted, stat_running = False, log_lines = []\<rparr>"

definition start_session :: "'w session \<Rightarrow> 'w session" where
  "start_session s =
     (let s = local_write_next s [];
          s = remote_write_next s []
      in s\<lparr>stat_running := True\<rparr>)"

subsection \<open>The step relation\<close>

text \<open>
  An event is the completion of one awaited operation. \<open>WorldMoves\<close> stands for the other
  sessions of the process, which draw from the same random sources.
\<close>

datatype 'w event =
  LocalRead read_result
| LocalWritten write_result
| RemoteRead read_result
| RemoteWritten write_result
| StatTick bool int
| WorldMoves 'w

text \<open>
  What the sockets promise: a read gives between 1 and 65536 bytes, an operation is
  aborted only by closing the socket, and a write after a shutdown of the sending side
  fails.
\<close>

definition read_size :: "ByteVector \<Rightarrow> bool" where
  "read_size x \<longleftrightarrow> 0 < length x \<and> length x \<le> 65536"

fun read_possible :: "'w session \<Rightarrow> read_result \<Rightarrow> bool" where
  "read_possible s (ReadData x) = read_size x"
| "read_possible s ReadAborted = closed s"
| "read_possible s r = True"

fun write_possible :: "sock \<Rightarrow> loop_pc \<Rightarrow> write_result \<Rightarrow> bool" where
  "write_possible k (Writing (b # out)) r = (r = WriteOk \<longrightarrow> \<not> send_shut k)"
| "write_possible k (Flushing (b # out)) r = (r = WriteOk \<longrightarrow> \<not> send_shut k)"
| "write_possible k pc r = False"

fun possible :: "'w session \<Rightarrow> 'w event \<Rightarrow> bool" where
  "possible s (LocalRead r) = (local_pc s = Reading \<and> read_possible s r)"
| "possible s (LocalWritten r) = write_possible (remote_sock s) (local_pc s) r"
| "possible s (RemoteRead r) = (remote_pc s = Reading \<and> read_possible s r)"
| "possible s (RemoteWritten r) = write_possible (local_sock s) (remote_pc s) r"
| "possible s (StatTick ec now) = stat_running s"
| "possible s (WorldMoves w) = True"

fun resume :: "'w ext \<Rightarrow> 'w session \<Rightarrow> 'w event \<Rightarrow> 'w session option" where
  "resume E s (LocalRead r) = local_read E s r"
| "resume E s (LocalWritten r) = Some (local_written s r)"
| "resume E s (RemoteRead r) = remote_read E s r"
| "resume E s (RemoteWritten r) = Some (remote_written s r)"
| "resume E s (StatTick ec now) = Some (stat_tick s ec now)"
| "resume E s (WorldMoves w) = Some (s\<lparr>session_world := w\<rparr>)"

inductive session_step :: "'w ext \<Rightarrow> 'w session \<Rightarrow> 'w event \<Rightarrow> 'w session \<Rightarrow> bool" for E where
  resumed: "possible s ev \<Longrightarrow> resume E s ev = Some t \<Longrightarrow> session_step E s ev t"

inductive_simps session_step_iff: "session_step E s ev t"

text \<open>
  What has gone through the chain: the bytes read at either end, and the bytes the chain
  made of them.
\<close>

record history =
  up_in :: ByteVector
  up_out :: ByteVector
  down_in :: ByteVector
  down_out :: ByteVector

definition no_history :: history where
  "no_history = \<lparr>up_in = [], up_out = [], down_in = [], down_out = []\<rparr>"

definition chain_bytes :: "(DataBufferList \<times> ProcessorChain \<times> 'w) outcome \<Rightarrow> ByteVector" where
  "chain_bytes r = (case r of Ret (out, ps, w) \<Rightarrow> concat out | _ \<Rightarrow> [])"

fun record_event :: "'w ext \<Rightarrow> 'w session \<Rightarrow> 'w event \<Rightarrow> history \<Rightarrow> history" where
  "record_event E s (LocalRead (ReadData x)) h =
     h\<lparr>up_in := up_in h @ x,
       up_out := up_out h @ chain_bytes (chain_on_local_data E (session_world s) (chain s) x [])\<rparr>"
| "record_event E s (RemoteRead (ReadData x)) h =
     h\<lparr>down_in := down_in h @ x,
       down_out := down_out h @ chain_bytes (chain_on_remote_data E (session_world s) (chain s) x [])\<rparr>"
| "record_event E s ev h = h"

inductive session_run :: "'w ext \<Rightarrow> 'w session \<Rightarrow> history \<Rightarrow> 'w session \<Rightarrow> bool" for E s0 where
  run_start: "session_run E s0 no_history s0"
| run_step: "session_run E s0 h s \<Longrightarrow> session_step E s ev t \<Longrightarrow>
    session_run E s0 (record_event E s ev h) t"

text \<open>The same as a function of a list of events, to run examples.\<close>

fun replay :: "'w ext \<Rightarrow> history \<times> 'w session \<Rightarrow> 'w event list \<Rightarrow> (history \<times> 'w session) option" where
  "replay E (h, s) [] = Some (h, s)"
| "replay E (h, s) (ev # evs) =
     (if possible s ev
      then case resume E s ev of None \<Rightarrow> None | Some t \<Rightarrow> replay E (record_event E s ev h, t) evs
      else None)"

lemma replay_run:
  "session_run E s0 h s \<Longrightarrow> replay E (h, s) evs = Some (h', t) \<Longrightarrow> session_run E s0 h' t"
proof (induction evs arbitrary: h s)
  case (Cons ev evs)
  then obtain s' where "possible s ev" "resume E s ev = Some s'"
    "replay E (record_event E s ev h, s') evs = Some (h', t)"
    by (auto split: if_splits option.splits)
  with Cons show ?case by (blast intro: run_step resumed)
qed auto

lemmas replay_from_start = replay_run [OF run_start]

end
