(* ===== verification/Tunnel_Session.thy ===== *)
theory Tunnel_Session
  imports Tunnel
begin

section \<open>What a tunnel session guarantees\<close>

text \<open>
  The invariants of a session. \<open>session_inv\<close> is about control: which loop has ended and
  why, which socket is open, what has been logged. \<open>lanes\<close> is about data: what each
  direction has written is what the chain gave, in order and without gaps.
\<close>

subsection \<open>No processor flushes\<close>

lemma run_chain_nil:
  assumes "\<And>p. fl p [] = []"
  shows "run_chain op fl w ps [] = Ret ([], ps, w)"
  using assms by (induction ps) simp_all

lemma chain_flush_nil [simp]:
  "chain_flush_local E w ps = Ret ([], ps, w)" "chain_flush_remote E w ps = Ret ([], ps, w)"
  by (simp_all add: chain_flush_local_def chain_flush_remote_def run_chain_nil
      processor_flush_local_def processor_flush_remote_def)

subsection \<open>Control\<close>

fun is_conn_close :: "log_line \<Rightarrow> bool" where
  "is_conn_close (ConnClose i rx tx) = True"
| "is_conn_close _ = False"

fun pc_ok :: "loop_pc \<Rightarrow> bool" where
  "pc_ok Reading = True"
| "pc_ok Finished = True"
| "pc_ok (Writing out) = (out \<noteq> [])"
| "pc_ok _ = False"

definition ended :: "loop_pc \<Rightarrow> nat" where
  "ended pc = (if pc = Finished then 1 else 0)"

definition session_inv :: "'w session \<Rightarrow> bool" where
  "session_inv s \<longleftrightarrow>
     pc_ok (local_pc s) \<and> pc_ok (remote_pc s) \<and>
     done_count s = ended (local_pc s) + ended (remote_pc s) \<and>
     is_open (local_sock s) = (\<not> closed s) \<and> is_open (remote_sock s) = (\<not> closed s) \<and>
     send_shut (remote_sock s) = local_eof s \<and> send_shut (local_sock s) = remote_eof s \<and>
     (local_eof s \<longrightarrow> local_pc s = Finished) \<and> (remote_eof s \<longrightarrow> remote_pc s = Finished) \<and>
     (local_pc s = Finished \<longrightarrow> local_eof s \<or> closed s) \<and>
     (remote_pc s = Finished \<longrightarrow> remote_eof s \<or> closed s) \<and>
     (local_eof s \<and> remote_eof s \<longrightarrow> closed s) \<and>
     filter is_conn_close (log_lines s) =
       (if done_count s = 2 then [ConnClose (sid s) (rx_bytes s) (tx_bytes s)] else [])"

text \<open>The steps of which the handlers are made.\<close>

lemma close_all_inv: "session_inv s \<Longrightarrow> session_inv (close_all s)"
  by (simp add: session_inv_def close_all_def sock_defs)

lemma close_all_fields [simp]:
  "closed (close_all s)" "local_pc (close_all s) = local_pc s" "remote_pc (close_all s) = remote_pc s"
  "session_inv s \<Longrightarrow> session_inv (close_all s)"
  by (simp_all add: close_all_def close_all_inv [unfolded close_all_def])

lemma close_open_fields [simp]:
  "closed (if \<not> closed s then close_all s else s)"
  "local_pc (if \<not> closed s then close_all s else s) = local_pc s"
  "remote_pc (if \<not> closed s then close_all s else s) = remote_pc s"
  "session_inv s \<Longrightarrow> session_inv (if \<not> closed s then close_all s else s)"
  by simp_all

lemma local_finish_inv:
  assumes "session_inv s" "local_pc s \<noteq> Finished" "closed s"
  shows "session_inv (local_finish s)"
  using assms
  by (cases "remote_pc s = Finished")
    (auto simp: session_inv_def local_finish_def on_done_def Let_def ended_def)

lemma remote_finish_inv:
  assumes "session_inv s" "remote_pc s \<noteq> Finished" "closed s"
  shows "session_inv (remote_finish s)"
  using assms
  by (cases "local_pc s = Finished")
    (auto simp: session_inv_def remote_finish_def on_done_def Let_def ended_def)

lemma local_eof_inv:
  assumes "session_inv s" "local_pc s \<noteq> Finished"
  defines "t \<equiv> s\<lparr>local_eof := True, remote_sock := sock_shutdown_send (remote_sock s)\<rparr>"
  shows "session_inv (local_finish (if remote_eof s then close_all t else t))"
proof (cases "remote_pc s = Finished")
  case True
  with assms show ?thesis
    by (cases "remote_eof s")
      (simp_all add: session_inv_def local_finish_def on_done_def Let_def ended_def close_all_def sock_defs)
next
  case False
  with assms show ?thesis
    by (cases "remote_eof s")
      (simp_all add: session_inv_def local_finish_def on_done_def Let_def ended_def close_all_def sock_defs)
qed

lemma remote_eof_inv:
  assumes "session_inv s" "remote_pc s \<noteq> Finished"
  defines "t \<equiv> s\<lparr>remote_eof := True, local_sock := sock_shutdown_send (local_sock s)\<rparr>"
  shows "session_inv (remote_finish (if local_eof s then close_all t else t))"
proof (cases "local_pc s = Finished")
  case True
  with assms show ?thesis
    by (cases "local_eof s")
      (simp_all add: session_inv_def remote_finish_def on_done_def Let_def ended_def close_all_def sock_defs)
next
  case False
  with assms show ?thesis
    by (cases "local_eof s")
      (simp_all add: session_inv_def remote_finish_def on_done_def Let_def ended_def close_all_def sock_defs)
qed

lemma session_inv_chain [simp]:
  "session_inv (s\<lparr>chain := ps, session_world := w\<rparr>) = session_inv s"
  "session_inv (s\<lparr>session_world := w\<rparr>) = session_inv s"
  "session_inv (s\<lparr>chain := ps\<rparr>) = session_inv s"
  by (simp_all add: session_inv_def)

lemma session_inv_written:
  assumes "session_inv s"
  shows "local_pc s \<noteq> Finished \<Longrightarrow>
      session_inv (s\<lparr>remote_sock := sock_write (remote_sock s) x, tx_bytes := n\<rparr>)"
    "remote_pc s \<noteq> Finished \<Longrightarrow>
      session_inv (s\<lparr>local_sock := sock_write (local_sock s) x, rx_bytes := n\<rparr>)"
    "session_inv (s\<lparr>remote_sock := sock_write (remote_sock s) x\<rparr>)"
    "session_inv (s\<lparr>local_sock := sock_write (local_sock s) x\<rparr>)"
  using assms by (auto simp: session_inv_def sock_defs ended_def)

lemma local_write_next_inv:
  assumes "session_inv s" "local_pc s \<noteq> Finished"
  shows "session_inv (local_write_next s out)"
proof (cases "out = [] \<and> closed s")
  case True
  with assms show ?thesis by (simp add: local_write_next_def local_finish_inv)
next
  case False
  with assms show ?thesis by (auto simp: local_write_next_def session_inv_def ended_def)
qed

lemma remote_write_next_inv:
  assumes "session_inv s" "remote_pc s \<noteq> Finished"
  shows "session_inv (remote_write_next s out)"
proof (cases "out = [] \<and> closed s")
  case True
  with assms show ?thesis by (simp add: remote_write_next_def remote_finish_inv)
next
  case False
  with assms show ?thesis by (auto simp: remote_write_next_def session_inv_def ended_def)
qed

lemma session_inv_start:
  assumes "is_open k" "\<not> send_shut k"
  shows "session_inv (start_session ((new_session w k ps now)\<lparr>sid := i\<rparr>))"
  using assms by (simp add: session_inv_def start_session_def new_session_def fresh_sock_def
      local_write_next_def remote_write_next_def Let_def ended_def)

text \<open>How a read loop ends: at the end of the stream, or with the session closed.\<close>

lemma local_read_eof [simp]:
  "local_read E s ReadEof = Some (local_finish (let t = s\<lparr>local_eof := True,
     remote_sock := sock_shutdown_send (remote_sock s)\<rparr> in if remote_eof s then close_all t else t))"
  by (simp add: local_read_def Let_def local_flush_next_def)

lemma remote_read_eof [simp]:
  "remote_read E s ReadEof = Some (remote_finish (let t = s\<lparr>remote_eof := True,
     local_sock := sock_shutdown_send (local_sock s)\<rparr> in if local_eof s then close_all t else t))"
  by (simp add: remote_read_def Let_def remote_flush_next_def)

lemma local_read_inv:
  assumes "session_inv s" "local_pc s = Reading" "read_possible s r" "local_read E s r = Some t"
  shows "session_inv t"
proof (cases r)
  case (ReadData x)
  with assms show ?thesis
    by (auto simp: local_read_def simp del: if_split intro!: local_finish_inv local_write_next_inv
        split: outcome.splits)
next
  case ReadEof
  with assms local_eof_inv [of s] show ?thesis by (auto simp: Let_def)
qed (use assms in \<open>auto simp: local_read_def simp del: if_split intro!: local_finish_inv\<close>)

lemma remote_read_inv:
  assumes "session_inv s" "remote_pc s = Reading" "read_possible s r" "remote_read E s r = Some t"
  shows "session_inv t"
proof (cases r)
  case (ReadData x)
  with assms show ?thesis
    by (auto simp: remote_read_def simp del: if_split intro!: remote_finish_inv remote_write_next_inv
        split: outcome.splits)
next
  case ReadEof
  with assms remote_eof_inv [of s] show ?thesis by (auto simp: Let_def)
qed (use assms in \<open>auto simp: remote_read_def simp del: if_split intro!: remote_finish_inv\<close>)

lemma write_possibleE:
  assumes "write_possible k pc r" "pc_ok pc"
  obtains b out where "pc = Writing (b # out)" "r = WriteOk \<longrightarrow> \<not> send_shut k"
  using assms by (cases pc; cases r; auto simp: neq_Nil_conv)

lemma local_written_inv:
  assumes "session_inv s" "write_possible (remote_sock s) (local_pc s) r"
  shows "session_inv (local_written s r)"
proof -
  from assms have "pc_ok (local_pc s)" by (simp add: session_inv_def)
  with assms(2) obtain b out where "local_pc s = Writing (b # out)" by (auto elim: write_possibleE)
  with assms(1) show ?thesis
    by (cases r) (auto simp: local_written_def Let_def session_inv_written
        intro!: local_write_next_inv local_finish_inv)
qed

lemma remote_written_inv:
  assumes "session_inv s" "write_possible (local_sock s) (remote_pc s) r"
  shows "session_inv (remote_written s r)"
proof -
  from assms have "pc_ok (remote_pc s)" by (simp add: session_inv_def)
  with assms(2) obtain b out where "remote_pc s = Writing (b # out)" by (auto elim: write_possibleE)
  with assms(1) show ?thesis
    by (cases r) (auto simp: remote_written_def Let_def session_inv_written
        intro!: remote_write_next_inv remote_finish_inv)
qed

lemma stat_tick_inv: "session_inv s \<Longrightarrow> session_inv (stat_tick s ec now)"
  by (auto simp: session_inv_def stat_tick_def Let_def)

lemma session_step_inv:
  assumes "session_step E s ev t" "session_inv s"
  shows "session_inv t"
  using assms
  by (cases ev) (auto simp: session_step_iff intro: local_read_inv remote_read_inv
      local_written_inv remote_written_inv stat_tick_inv)

lemma session_run_inv: "session_run E s0 h s \<Longrightarrow> session_inv s0 \<Longrightarrow> session_inv s"
  by (induction rule: session_run.induct) (auto intro: session_step_inv)

subsection \<open>Data\<close>

fun pending :: "loop_pc \<Rightarrow> ByteVector" where
  "pending (Writing out) = concat out"
| "pending (Flushing out) = concat out"
| "pending _ = []"

text \<open>
  One direction: its loop, whether it has seen the end of the stream, the socket it writes
  to, its byte counter and the bytes the chain has given for it.
\<close>

definition lane :: "loop_pc \<Rightarrow> bool \<Rightarrow> sock \<Rightarrow> u64 \<Rightarrow> ByteVector \<Rightarrow> bool" where
  "lane pc eof k n stream \<longleftrightarrow> prefix (written k) stream \<and>
     (pc \<noteq> Finished \<or> eof \<longrightarrow> stream = written k @ pending pc \<and> n = of_nat (length (written k)))"

definition up_lane :: "history \<Rightarrow> 'w session \<Rightarrow> bool" where
  "up_lane h s \<longleftrightarrow> lane (local_pc s) (local_eof s) (remote_sock s) (tx_bytes s) (up_out h)"

definition down_lane :: "history \<Rightarrow> 'w session \<Rightarrow> bool" where
  "down_lane h s \<longleftrightarrow> lane (remote_pc s) (remote_eof s) (local_sock s) (rx_bytes s) (down_out h)"

lemmas lane_defs = lane_def up_lane_def down_lane_def

text \<open>What one direction's loop does not touch of the other direction.\<close>

definition local_side :: "'w session \<Rightarrow> loop_pc \<times> bool \<times> ByteVector \<times> u64" where
  "local_side s = (local_pc s, local_eof s, written (remote_sock s), tx_bytes s)"

definition remote_side :: "'w session \<Rightarrow> loop_pc \<times> bool \<times> ByteVector \<times> u64" where
  "remote_side s = (remote_pc s, remote_eof s, written (local_sock s), rx_bytes s)"

lemma lane_side:
  "local_side s = local_side t \<Longrightarrow> up_lane h s = up_lane h t"
  "remote_side s = remote_side t \<Longrightarrow> down_lane h s = down_lane h t"
  by (simp_all add: local_side_def remote_side_def lane_defs)

lemma finish_sides:
  "remote_side (local_finish s) = remote_side s" "local_side (remote_finish s) = local_side s"
  "local_side (local_finish s) = (Finished, snd (local_side s))"
  "remote_side (remote_finish s) = (Finished, snd (remote_side s))"
  "chain (local_finish s) = chain s" "chain (remote_finish s) = chain s"
  by (simp_all add: local_finish_def remote_finish_def on_done_def Let_def local_side_def remote_side_def)

lemma close_all_sides [simp]:
  "local_side (close_all s) = local_side s" "remote_side (close_all s) = remote_side s"
  "chain (close_all s) = chain s"
  by (simp_all add: close_all_def local_side_def remote_side_def)

lemma write_next_sides:
  "remote_side (local_write_next s out) = remote_side s"
  "local_side (remote_write_next s out) = local_side s"
  "chain (local_write_next s out) = chain s" "chain (remote_write_next s out) = chain s"
  by (simp_all add: local_write_next_def remote_write_next_def finish_sides)
    (simp_all add: local_side_def remote_side_def)

lemma sides_update [simp]:
  "local_side (s\<lparr>chain := ps\<rparr>) = local_side s" "local_side (s\<lparr>session_world := w\<rparr>) = local_side s"
  "remote_side (s\<lparr>chain := ps\<rparr>) = remote_side s" "remote_side (s\<lparr>session_world := w\<rparr>) = remote_side s"
  "local_side (s\<lparr>local_sock := k\<rparr>) = local_side s" "remote_side (s\<lparr>remote_sock := k\<rparr>) = remote_side s"
  "local_side (s\<lparr>rx_bytes := n\<rparr>) = local_side s" "remote_side (s\<lparr>tx_bytes := n\<rparr>) = remote_side s"
  "local_side (s\<lparr>remote_eof := b\<rparr>) = local_side s" "remote_side (s\<lparr>local_eof := b\<rparr>) = remote_side s"
  by (simp_all add: local_side_def remote_side_def)

lemma local_flush_next_side: "remote_side (local_flush_next s out) = remote_side s"
  by (simp add: local_flush_next_def finish_sides) (simp add: remote_side_def)

lemma local_read_side: "local_read E s r = Some t \<Longrightarrow> remote_side t = remote_side s"
  by (cases r) (auto simp: local_read_def finish_sides write_next_sides
      local_flush_next_side Let_def split: outcome.splits)

lemma local_written_side: "remote_side (local_written s r) = remote_side s"
  by (cases r) (auto simp: local_written_def finish_sides write_next_sides Let_def
      local_flush_next_side split: list.splits loop_pc.splits)

lemma remote_flush_next_side: "local_side (remote_flush_next s out) = local_side s"
  by (simp add: remote_flush_next_def finish_sides) (simp add: local_side_def)

lemma remote_read_side: "remote_read E s r = Some t \<Longrightarrow> local_side t = local_side s"
  by (cases r) (auto simp: remote_read_def finish_sides write_next_sides
      remote_flush_next_side Let_def split: outcome.splits)

lemma remote_written_side: "local_side (remote_written s r) = local_side s"
  by (cases r) (auto simp: remote_written_def finish_sides write_next_sides Let_def
      remote_flush_next_side split: list.splits loop_pc.splits)

lemma local_write_next_lane:
  assumes "lane Reading (local_eof s) (remote_sock s) (tx_bytes s) xs" "\<not> local_eof s" "h = xs @ concat out"
  shows "lane (local_pc (local_write_next s out)) (local_eof s)
    (remote_sock s) (tx_bytes s) h" "local_eof (local_write_next s out) = local_eof s"
    "remote_sock (local_write_next s out) = remote_sock s" "tx_bytes (local_write_next s out) = tx_bytes s"
  using assms by (auto simp: local_write_next_def local_finish_def on_done_def Let_def lane_def)

lemma local_read_lane:
  assumes "session_inv s" "local_pc s = Reading" "up_lane h s" "local_read E s r = Some t"
  shows "up_lane (record_event E s (LocalRead r) h) t"
proof -
  have l: "lane Reading (local_eof s) (remote_sock s) (tx_bytes s) (up_out h)" "\<not> local_eof s"
    using assms by (auto simp: up_lane_def session_inv_def)
  have fin: "up_lane h t" if "local_side t = (Finished, snd (local_side s))"
    using that l by (simp add: up_lane_def lane_def local_side_def)
  show ?thesis
  proof (cases r)
    case (ReadData x)
    show ?thesis
    proof (cases "chain_on_local_data E (session_world s) (chain s) x []")
      case (Ret u)
      obtain out ps w where u: "u = (out, ps, w)" by (rule prod_cases3)
      have t: "t = local_write_next (s\<lparr>chain := ps, session_world := w\<rparr>) out"
        using assms(4) by (simp add: local_read_def ReadData Ret u)
      show ?thesis
        using local_write_next_lane [of "s\<lparr>chain := ps, session_world := w\<rparr>" "up_out h" "up_out h @ concat out" out] l
        by (simp add: t ReadData Ret u chain_bytes_def up_lane_def)
    next
      case (Throw e)
      have "local_side t = (Finished, snd (local_side s))"
        using assms(4) ReadData Throw by (auto simp: local_read_def finish_sides)
      from fin [OF this] show ?thesis by (simp add: ReadData Throw chain_bytes_def up_lane_def)
    qed (use assms(4) ReadData in \<open>simp add: local_read_def\<close>)
  next
    case ReadEof
    with assms(4) l show ?thesis
      by (auto simp: up_lane_def lane_def Let_def local_finish_def on_done_def close_all_def)
  next
    case ReadAborted
    with assms(4) fin show ?thesis by (auto simp: local_read_def finish_sides)
  next
    case ReadError
    with assms(4) fin show ?thesis
      by (auto simp: local_read_def finish_sides)
  qed
qed

lemma local_written_lane:
  assumes "session_inv s" "write_possible (remote_sock s) (local_pc s) r" "up_lane h s"
  shows "up_lane h (local_written s r)"
proof -
  from assms obtain b out where pc: "local_pc s = Writing (b # out)"
    by (auto simp: session_inv_def elim: write_possibleE)
  then have eof: "\<not> local_eof s" using assms(1) by (auto simp: session_inv_def)
  show ?thesis
  proof (cases r)
    case WriteOk
    let ?s = "s\<lparr>remote_sock := sock_write (remote_sock s) b, tx_bytes := tx_bytes s + of_nat (length b)\<rparr>"
    have "lane Reading (local_eof ?s) (remote_sock ?s) (tx_bytes ?s) (written (remote_sock s) @ b)"
      using assms(3) pc by (simp add: up_lane_def lane_def)
    from local_write_next_lane [OF this _ refl, of out] eof assms(3) pc show ?thesis
      by (simp add: local_written_def WriteOk up_lane_def lane_def)
  next
    case (WriteFailed n)
    have "prefix (take n b) (b @ concat out)" by (meson prefix_def take_is_prefix prefix_order.trans)
    then have "prefix (written (remote_sock s) @ take n b) (up_out h)"
      using assms(3) pc by (simp add: up_lane_def lane_def)
    with eof pc show ?thesis
      by (auto simp: local_written_def WriteFailed up_lane_def lane_def Let_def
          local_finish_def on_done_def close_all_def)
  qed
qed

lemma remote_write_next_lane:
  assumes "lane Reading (remote_eof s) (local_sock s) (rx_bytes s) xs" "\<not> remote_eof s" "h = xs @ concat out"
  shows "lane (remote_pc (remote_write_next s out)) (remote_eof s)
    (local_sock s) (rx_bytes s) h" "remote_eof (remote_write_next s out) = remote_eof s"
    "local_sock (remote_write_next s out) = local_sock s" "rx_bytes (remote_write_next s out) = rx_bytes s"
  using assms by (auto simp: remote_write_next_def remote_finish_def on_done_def Let_def lane_def)

lemma remote_read_lane:
  assumes "session_inv s" "remote_pc s = Reading" "down_lane h s" "remote_read E s r = Some t"
  shows "down_lane (record_event E s (RemoteRead r) h) t"
proof -
  have l: "lane Reading (remote_eof s) (local_sock s) (rx_bytes s) (down_out h)" "\<not> remote_eof s"
    using assms by (auto simp: down_lane_def session_inv_def)
  have fin: "down_lane h t" if "remote_side t = (Finished, snd (remote_side s))"
    using that l by (simp add: down_lane_def lane_def remote_side_def)
  show ?thesis
  proof (cases r)
    case (ReadData x)
    show ?thesis
    proof (cases "chain_on_remote_data E (session_world s) (chain s) x []")
      case (Ret u)
      obtain out ps w where u: "u = (out, ps, w)" by (rule prod_cases3)
      have t: "t = remote_write_next (s\<lparr>chain := ps, session_world := w\<rparr>) out"
        using assms(4) by (simp add: remote_read_def ReadData Ret u)
      show ?thesis
        using remote_write_next_lane [of "s\<lparr>chain := ps, session_world := w\<rparr>" "down_out h" "down_out h @ concat out" out] l
        by (simp add: t ReadData Ret u chain_bytes_def down_lane_def)
    next
      case (Throw e)
      have "remote_side t = (Finished, snd (remote_side s))"
        using assms(4) ReadData Throw by (auto simp: remote_read_def finish_sides)
      from fin [OF this] show ?thesis by (simp add: ReadData Throw chain_bytes_def down_lane_def)
    qed (use assms(4) ReadData in \<open>simp add: remote_read_def\<close>)
  next
    case ReadEof
    with assms(4) l show ?thesis
      by (auto simp: down_lane_def lane_def Let_def remote_finish_def on_done_def close_all_def)
  next
    case ReadAborted
    with assms(4) fin show ?thesis by (auto simp: remote_read_def finish_sides)
  next
    case ReadError
    with assms(4) fin show ?thesis
      by (auto simp: remote_read_def finish_sides)
  qed
qed

lemma remote_written_lane:
  assumes "session_inv s" "write_possible (local_sock s) (remote_pc s) r" "down_lane h s"
  shows "down_lane h (remote_written s r)"
proof -
  from assms obtain b out where pc: "remote_pc s = Writing (b # out)"
    by (auto simp: session_inv_def elim: write_possibleE)
  then have eof: "\<not> remote_eof s" using assms(1) by (auto simp: session_inv_def)
  show ?thesis
  proof (cases r)
    case WriteOk
    let ?s = "s\<lparr>local_sock := sock_write (local_sock s) b, rx_bytes := rx_bytes s + of_nat (length b)\<rparr>"
    have "lane Reading (remote_eof ?s) (local_sock ?s) (rx_bytes ?s) (written (local_sock s) @ b)"
      using assms(3) pc by (simp add: down_lane_def lane_def)
    from remote_write_next_lane [OF this _ refl, of out] eof assms(3) pc show ?thesis
      by (simp add: remote_written_def WriteOk down_lane_def lane_def)
  next
    case (WriteFailed n)
    have "prefix (take n b) (b @ concat out)" by (meson prefix_def take_is_prefix prefix_order.trans)
    then have "prefix (written (local_sock s) @ take n b) (down_out h)"
      using assms(3) pc by (simp add: down_lane_def lane_def)
    with eof pc show ?thesis
      by (auto simp: remote_written_def WriteFailed down_lane_def lane_def Let_def
          remote_finish_def on_done_def close_all_def)
  qed
qed

lemma stat_tick_sides:
  "local_side (stat_tick s ec now) = local_side s" "remote_side (stat_tick s ec now) = remote_side s"
  "chain (stat_tick s ec now) = chain s"
  by (simp_all add: stat_tick_def Let_def local_side_def remote_side_def)

lemma record_event_other:
  "down_out (record_event E s (LocalRead r) h) = down_out h" "down_in (record_event E s (LocalRead r) h) = down_in h"
  "up_out (record_event E s (RemoteRead r) h) = up_out h" "up_in (record_event E s (RemoteRead r) h) = up_in h"
  by (cases r; simp)+

lemma session_step_lanes:
  assumes "session_step E s ev t" "session_inv s" "up_lane h s" "down_lane h s"
  shows "up_lane (record_event E s ev h) t" "down_lane (record_event E s ev h) t"
proof -
  have side: "up_lane h t" if "local_side t = local_side s" for t :: "'a session"
    using that assms(3) lane_side(1) [of t s h] by simp
  have side': "down_lane h t" if "remote_side t = remote_side s" for t :: "'a session"
    using that assms(4) lane_side(2) [of t s h] by simp
  have other: "down_lane (record_event E s (LocalRead r) h) t = down_lane h t"
    "up_lane (record_event E s (RemoteRead r) h) t = up_lane h t" for r t
    by (simp_all add: lane_defs record_event_other)
  from assms(1) have ev: "possible s ev" "resume E s ev = Some t" by (auto simp: session_step_iff)
  show "up_lane (record_event E s ev h) t"
    using ev assms(2,3) by (cases ev) (auto simp: other stat_tick_sides
        intro: local_read_lane local_written_lane side remote_read_side remote_written_side)
  show "down_lane (record_event E s ev h) t"
    using ev assms(2,4) by (cases ev) (auto simp: other stat_tick_sides
        intro: remote_read_lane remote_written_lane side' local_read_side local_written_side)
qed

lemma session_run_lanes:
  assumes "session_run E s0 h s" "session_inv s0" "up_lane no_history s0" "down_lane no_history s0"
  shows "up_lane h s \<and> down_lane h s"
  using assms
proof (induction rule: session_run.induct)
  case (run_step h s ev t)
  then show ?case using session_step_lanes session_run_inv by blast
qed simp

subsection \<open>Statistics\<close>

fun stat_rx :: "log_line \<Rightarrow> u64" where
  "stat_rx (Stat i rx tx dt) = rx"
| "stat_rx _ = 0"

fun stat_tx :: "log_line \<Rightarrow> u64" where
  "stat_tx (Stat i rx tx dt) = tx"
| "stat_tx _ = 0"

definition stats_inv :: "'w session \<Rightarrow> bool" where
  "stats_inv s \<longleftrightarrow> sum_list (map stat_rx (log_lines s)) = last_stat_rx s \<and>
     sum_list (map stat_tx (log_lines s)) = last_stat_tx s"

lemma stats_inv_update [simp]:
  "stats_inv (s\<lparr>chain := ps\<rparr>) = stats_inv s" "stats_inv (s\<lparr>session_world := w\<rparr>) = stats_inv s"
  "stats_inv (s\<lparr>local_sock := k\<rparr>) = stats_inv s" "stats_inv (s\<lparr>remote_sock := k\<rparr>) = stats_inv s"
  "stats_inv (s\<lparr>rx_bytes := n\<rparr>) = stats_inv s" "stats_inv (s\<lparr>tx_bytes := n\<rparr>) = stats_inv s"
  "stats_inv (s\<lparr>local_eof := b\<rparr>) = stats_inv s" "stats_inv (s\<lparr>remote_eof := b\<rparr>) = stats_inv s"
  "stats_inv (close_all s) = stats_inv s" "stats_inv (on_done s) = stats_inv s"
  "stats_inv (s\<lparr>local_pc := pc\<rparr>) = stats_inv s" "stats_inv (s\<lparr>remote_pc := pc\<rparr>) = stats_inv s"
  by (simp_all add: stats_inv_def close_all_def on_done_def Let_def)

lemma loop_parts_stats [simp]:
  "stats_inv (local_finish s) = stats_inv s" "stats_inv (remote_finish s) = stats_inv s"
  "stats_inv (local_write_next s out) = stats_inv s" "stats_inv (remote_write_next s out) = stats_inv s"
  "stats_inv (local_flush_next s out) = stats_inv s" "stats_inv (remote_flush_next s out) = stats_inv s"
  by (simp_all add: local_finish_def remote_finish_def local_write_next_def remote_write_next_def
      local_flush_next_def remote_flush_next_def)

lemma session_step_stats:
  assumes "session_step E s ev t" "stats_inv s"
  shows "stats_inv t"
proof (cases ev)
  case (LocalRead r)
  with assms show ?thesis
    by (cases r) (auto simp: session_step_iff local_read_def Let_def split: outcome.splits)
next
  case (RemoteRead r)
  with assms show ?thesis
    by (cases r) (auto simp: session_step_iff remote_read_def Let_def split: outcome.splits)
next
  case (LocalWritten r)
  with assms show ?thesis
    by (cases r) (auto simp: session_step_iff local_written_def Let_def split: loop_pc.splits list.splits)
next
  case (RemoteWritten r)
  with assms show ?thesis
    by (cases r) (auto simp: session_step_iff remote_written_def Let_def split: loop_pc.splits list.splits)
next
  case (StatTick ec now)
  with assms show ?thesis by (auto simp: session_step_iff stat_tick_def Let_def stats_inv_def)
qed (use assms in \<open>auto simp: session_step_iff\<close>)

lemma session_run_stats: "session_run E s0 h s \<Longrightarrow> stats_inv s0 \<Longrightarrow> stats_inv s"
  by (induction rule: session_run.induct) (auto intro: session_step_stats)

subsection \<open>A fresh session\<close>

text \<open>A session as the accept loop starts it.\<close>

definition fresh_session :: "'w \<Rightarrow> ProcessorChain \<Rightarrow> 'w session" where
  "fresh_session w ps = start_session (new_session w fresh_sock ps 0)"

lemma fresh_session_fields [simp]:
  "chain (fresh_session w ps) = ps" "local_pc (fresh_session w ps) = Reading"
  "remote_pc (fresh_session w ps) = Reading" "written (remote_sock (fresh_session w ps)) = []"
  "written (local_sock (fresh_session w ps)) = []" "tx_bytes (fresh_session w ps) = 0"
  "rx_bytes (fresh_session w ps) = 0" "local_eof (fresh_session w ps) = False"
  "remote_eof (fresh_session w ps) = False" "session_inv (fresh_session w ps)"
  "up_lane no_history (fresh_session w ps)" "down_lane no_history (fresh_session w ps)"
  "stats_inv (fresh_session w ps)"
  by (simp_all add: fresh_session_def start_session_def new_session_def fresh_sock_def Let_def
      local_write_next_def remote_write_next_def session_inv_def ended_def lane_defs no_history_def
      stats_inv_def)

lemmas fresh_run_inv = session_run_inv [OF _ fresh_session_fields(10)]
lemmas fresh_run_lanes = session_run_lanes [OF _ fresh_session_fields(10,11,12)]
lemmas fresh_run_stats = session_run_stats [OF _ fresh_session_fields(13)]

subsection \<open>Properties\<close>

text \<open>A session with the identity processor, and some events, for the examples.\<close>

definition demo_session :: "nat session" where
  "demo_session = fresh_session 0 [IdentityP (IdentityProcessor_new False)]"

definition demo_data :: "nat event list" where
  "demo_data = [LocalRead (ReadData [1, 2, 3]), LocalWritten WriteOk, RemoteRead (ReadData [9]),
     StatTick False 5]"

definition demo_end :: "nat event list" where
  "demo_end = demo_data @ [LocalRead ReadEof, RemoteWritten WriteOk, RemoteRead ReadEof]"

lemmas demo_defs = demo_session_def demo_data_def demo_end_def fresh_session_def start_session_def
  new_session_def fresh_sock_def local_read_def local_written_def local_write_next_def remote_read_def
  remote_written_def remote_write_next_def stat_tick_def sock_write_def sock_shutdown_send_def
  chain_on_local_data_def chain_on_remote_data_def on_local_data_def on_remote_data_def
  identity_pack_def identity_unpack_def lift_unpack_def IdentityProcessor_new_def read_size_def
  chain_bytes_def no_history_def Let_def local_finish_def remote_finish_def on_done_def close_all_def
  sock_close_def local_flush_next_def remote_flush_next_def

lemma demo_runs:
  "\<exists>h s. session_run example_ext demo_session h s \<and> local_pc s = Reading \<and> written (remote_sock s) = [1, 2, 3] \<and>
    up_in h = [1, 2, 3] \<and> remote_pc s = Writing [[9]] \<and> \<not> closed s"
  "\<exists>h s. session_run example_ext demo_session h s \<and> local_eof s \<and> \<not> closed s \<and> remote_pc s = Writing [[9]]"
  "\<exists>h s. session_run example_ext demo_session h s \<and> local_pc s = Finished \<and> remote_pc s = Finished"
proof -
  let ?k = "replay example_ext (no_history, demo_session)"
  have "(case ?k demo_data of None \<Rightarrow> False | Some (h, s) \<Rightarrow> local_pc s = Reading \<and>
      written (remote_sock s) = [1, 2, 3] \<and> up_in h = [1, 2, 3] \<and> remote_pc s = Writing [[9]] \<and> \<not> closed s)"
    by (simp add: demo_defs)
  then show "\<exists>h s. session_run example_ext demo_session h s \<and> local_pc s = Reading \<and>
      written (remote_sock s) = [1, 2, 3] \<and> up_in h = [1, 2, 3] \<and> remote_pc s = Writing [[9]] \<and> \<not> closed s"
    using replay_from_start by (fastforce split: option.splits)
  have "(case ?k (demo_data @ [LocalRead ReadEof]) of None \<Rightarrow> False | Some (h, s) \<Rightarrow>
      local_eof s \<and> \<not> closed s \<and> remote_pc s = Writing [[9]])"
    by (simp add: demo_defs)
  then show "\<exists>h s. session_run example_ext demo_session h s \<and> local_eof s \<and> \<not> closed s \<and> remote_pc s = Writing [[9]]"
    using replay_from_start by (fastforce split: option.splits)
  have "(case ?k demo_end of None \<Rightarrow> False | Some (h, s) \<Rightarrow> local_pc s = Finished \<and> remote_pc s = Finished)"
    by (simp add: demo_defs)
  then show "\<exists>h s. session_run example_ext demo_session h s \<and> local_pc s = Finished \<and> remote_pc s = Finished"
    using replay_from_start by (fastforce split: option.splits)
qed

text \<open>
  Property C7. A session is a faithful pipe in each direction: at every moment of every run
  the bytes written to a socket are a prefix of what the chain made of the bytes read from
  the other socket; while the loop runs, and after it has ended at the end of the stream,
  exactly the buffers still to be written are missing and the byte counter is the number
  of bytes written (modulo 2^64).
\<close>

theorem session_writes_chain_output:
  assumes "session_run E (fresh_session w ps) h s"
  shows "prefix (written (remote_sock s)) (up_out h) \<and> prefix (written (local_sock s)) (down_out h) \<and>
    (local_pc s \<noteq> Finished \<or> local_eof s \<longrightarrow> up_out h = written (remote_sock s) @ pending (local_pc s) \<and>
       tx_bytes s = of_nat (length (written (remote_sock s)))) \<and>
    (remote_pc s \<noteq> Finished \<or> remote_eof s \<longrightarrow> down_out h = written (local_sock s) @ pending (remote_pc s) \<and>
       rx_bytes s = of_nat (length (written (local_sock s))))"
  using fresh_run_lanes [OF assms] by (auto simp: lane_defs)

theorem session_writes_chain_output_witness:
  "\<exists>h s. session_run example_ext demo_session h s \<and> up_out h = [1, 2, 3] \<and> tx_bytes s = 3"
proof -
  obtain h s where r: "session_run example_ext demo_session h s" and
    s: "local_pc s = Reading" "written (remote_sock s) = [1, 2, 3]" using demo_runs(1) by blast
  from session_writes_chain_output [OF r [unfolded demo_session_def]] s r show ?thesis by force
qed

text \<open>
  Property C13. Half-close: when one side has sent its end of stream and the session is not
  closed, the sending side of the other socket is shut, both sockets are open and the other
  direction's loop is still running; and no loop is ever in a write to a socket whose
  sending side it has shut.
\<close>

theorem session_half_close:
  assumes "session_run E (fresh_session w ps) h s"
  shows "(local_eof s \<and> \<not> closed s \<longrightarrow> send_shut (remote_sock s) \<and> is_open (local_sock s) \<and>
       is_open (remote_sock s) \<and> remote_pc s \<noteq> Finished) \<and>
    (remote_eof s \<and> \<not> closed s \<longrightarrow> send_shut (local_sock s) \<and> is_open (local_sock s) \<and>
       is_open (remote_sock s) \<and> local_pc s \<noteq> Finished) \<and>
    (send_shut (remote_sock s) \<longrightarrow> local_pc s = Finished) \<and> (send_shut (local_sock s) \<longrightarrow> remote_pc s = Finished)"
  using fresh_run_inv [OF assms] by (auto simp: session_inv_def)

theorem session_half_close_witness:
  "\<exists>h s. session_run example_ext demo_session h s \<and> local_eof s \<and> send_shut (remote_sock s) \<and>
    is_open (local_sock s) \<and> remote_pc s \<noteq> Finished"
proof -
  obtain h s where r: "session_run example_ext demo_session h s" and
    s: "local_eof s" "\<not> closed s" using demo_runs(2) by blast
  from session_half_close [OF r [unfolded demo_session_def]] s r show ?thesis by blast
qed

text \<open>
  Property C14. No session leaks its sockets, and its end is logged once: both sockets are
  open exactly while the session is not marked closed; when both read loops have ended the
  session is closed; and the log holds one closing line, with the final byte counts, once
  both have ended and none before.
\<close>

theorem session_closes_once:
  assumes "session_run E (fresh_session w ps) h s"
  shows "is_open (local_sock s) = (\<not> closed s) \<and> is_open (remote_sock s) = (\<not> closed s) \<and>
    done_count s = ended (local_pc s) + ended (remote_pc s) \<and>
    (done_count s = 2 \<longrightarrow> closed s) \<and>
    filter is_conn_close (log_lines s) =
      (if done_count s = 2 then [ConnClose (sid s) (rx_bytes s) (tx_bytes s)] else [])"
proof -
  have "session_inv s" using assms by (rule fresh_run_inv)
  then show ?thesis by (auto simp: session_inv_def ended_def split: if_splits)
qed

theorem session_closes_once_witness:
  "\<exists>h s. session_run example_ext demo_session h s \<and> done_count s = 2 \<and> closed s \<and> \<not> is_open (local_sock s)"
proof -
  obtain h s where r: "session_run example_ext demo_session h s" and
    s: "local_pc s = Finished" "remote_pc s = Finished" using demo_runs(3) by blast
  from session_closes_once [OF r [unfolded demo_session_def]] s r show ?thesis
    by (intro exI [of _ h] exI [of _ s]) (auto simp: ended_def)
qed

text \<open>
  Property C15. Every error tears the session down in the same step: a read error, a write
  error and an exception of the chain leave the session closed, both sockets included, and
  the loop that met it ended.
\<close>

theorem session_errors_close:
  assumes "session_run E (fresh_session w ps) h s" "session_step E s ev t"
  shows "(ev = LocalRead ReadError \<or> (\<exists>k. ev = LocalWritten (WriteFailed k)) \<or>
       (\<exists>x e. ev = LocalRead (ReadData x) \<and> chain_on_local_data E (session_world s) (chain s) x [] = Throw e) \<longrightarrow>
       closed t \<and> \<not> is_open (local_sock t) \<and> \<not> is_open (remote_sock t) \<and> local_pc t = Finished) \<and>
    (ev = RemoteRead ReadError \<or> (\<exists>k. ev = RemoteWritten (WriteFailed k)) \<or>
       (\<exists>x e. ev = RemoteRead (ReadData x) \<and> chain_on_remote_data E (session_world s) (chain s) x [] = Throw e) \<longrightarrow>
       closed t \<and> \<not> is_open (local_sock t) \<and> \<not> is_open (remote_sock t) \<and> remote_pc t = Finished)"
proof -
  have s: "session_inv s" using assms(1) by (rule fresh_run_inv)
  then have t: "session_inv t" using assms(2) by (blast intro: session_step_inv)
  have fin: "closed (local_finish u) = closed u" "local_pc (local_finish u) = Finished"
    "closed (remote_finish u) = closed u" "remote_pc (remote_finish u) = Finished" for u :: "'a session"
    by (simp_all add: local_finish_def remote_finish_def on_done_def Let_def)
  have "closed t \<and> local_pc t = Finished" if "ev = LocalRead ReadError \<or> (\<exists>k. ev = LocalWritten (WriteFailed k)) \<or>
       (\<exists>x e. ev = LocalRead (ReadData x) \<and> chain_on_local_data E (session_world s) (chain s) x [] = Throw e)"
    using that assms(2) s by (auto simp: session_step_iff local_read_def local_written_def Let_def fin
        session_inv_def elim!: write_possibleE)
  moreover have "closed t \<and> remote_pc t = Finished" if "ev = RemoteRead ReadError \<or> (\<exists>k. ev = RemoteWritten (WriteFailed k)) \<or>
       (\<exists>x e. ev = RemoteRead (ReadData x) \<and> chain_on_remote_data E (session_world s) (chain s) x [] = Throw e)"
    using that assms(2) s by (auto simp: session_step_iff remote_read_def remote_written_def Let_def fin
        session_inv_def elim!: write_possibleE)
  ultimately show ?thesis using t by (auto simp: session_inv_def)
qed

theorem session_errors_close_witness:
  "\<exists>h s t. session_run example_ext demo_session h s \<and> session_step example_ext s (LocalRead ReadError) t \<and>
    \<not> is_open (remote_sock t)"
proof -
  obtain h s where r: "session_run example_ext demo_session h s" and s: "local_pc s = Reading"
    using demo_runs(1) by blast
  have st: "session_step example_ext s (LocalRead ReadError)
      (local_finish (if \<not> closed s then close_all s else s))"
    using s by (simp add: session_step_iff local_read_def)
  from session_errors_close [OF r [unfolded demo_session_def] st] r st show ?thesis by blast
qed

text \<open>
  The rate lines lose no byte: the byte counts behind the rates logged so far
  sum up to the counters at the last line, in both directions, and after the session is
  closed the next tick ends the loop.
\<close>

theorem session_stats_add_up:
  assumes "session_run E (fresh_session w ps) h s"
  shows "sum_list (map stat_rx (log_lines s)) = last_stat_rx s \<and>
    sum_list (map stat_tx (log_lines s)) = last_stat_tx s \<and>
    (closed s \<longrightarrow> stat_tick s ec now = s\<lparr>stat_running := False\<rparr>)"
  using fresh_run_stats [OF assms] by (simp add: stats_inv_def stat_tick_def)

theorem session_stats_add_up_witness:
  "\<exists>h s. session_run example_ext demo_session h s \<and> written (remote_sock s) = [1, 2, 3] \<and>
    sum_list (map stat_tx (log_lines s)) = last_stat_tx s"
proof -
  obtain h s where r: "session_run example_ext demo_session h s" and
    s: "written (remote_sock s) = [1, 2, 3]" using demo_runs(1) by blast
  from session_stats_add_up [OF r [unfolded demo_session_def]] s r show ?thesis by blast
qed

end
