(* ===== verification/Transition.thy ===== *)
theory Transition
  imports Main
begin

section \<open>Step relations, runs and invariants\<close>

text \<open>
  The concurrent parts of the program are step relations, one step per resumption of a
  coroutine. Their runs are instances of \<open>reach\<close>; an invariant is a predicate that every
  step keeps, and a list of moves that a function executes is a run. Both interfaces are
  locales, interpreted for each system in its own theory.
\<close>

inductive reach :: "('s \<Rightarrow> 's \<Rightarrow> bool) \<Rightarrow> 's \<Rightarrow> 's \<Rightarrow> bool" for step s0 where
  reach_start: "reach step s0 s0"
| reach_step: "reach step s0 s \<Longrightarrow> step s t \<Longrightarrow> reach step s0 t"

locale kept_invariant =
  fixes step :: "'s \<Rightarrow> 's \<Rightarrow> bool"
    and ok :: "'s \<Rightarrow> bool"
  assumes kept: "step s t \<Longrightarrow> ok s \<Longrightarrow> ok t"
begin

lemma reach_ok: "reach step s0 s \<Longrightarrow> ok s0 \<Longrightarrow> ok s"
  by (induction rule: reach.induct) (auto intro: kept)

end

text \<open>Running moves: \<open>None\<close> when one of them is not possible.\<close>

fun play :: "('s \<Rightarrow> 'm \<Rightarrow> 's option) \<Rightarrow> 's \<Rightarrow> 'm list \<Rightarrow> 's option" where
  "play move s [] = Some s"
| "play move s (m # ms) = (case move s m of None \<Rightarrow> None | Some t \<Rightarrow> play move t ms)"

lemma play_append: "play move s (ms @ ns) = Option.bind (play move s ms) (\<lambda>t. play move t ns)"
  by (induction ms arbitrary: s) (simp_all split: option.split)

locale played_moves =
  fixes step :: "'s \<Rightarrow> 's \<Rightarrow> bool"
    and move :: "'s \<Rightarrow> 'm \<Rightarrow> 's option"
  assumes move_step: "move s m = Some t \<Longrightarrow> step s t"
begin

lemma play_reach: "reach step s0 s \<Longrightarrow> play move s ms = Some t \<Longrightarrow> reach step s0 t"
proof (induction ms arbitrary: s)
  case (Cons m ms)
  then obtain r where r: "move s m = Some r" "play move r ms = Some t"
    by (auto split: option.splits)
  from Cons.IH [OF reach_step [OF Cons.prems(1) move_step [OF r(1)]] r(2)] show ?case .
qed simp

lemma play_from_start: "play move s0 ms = Some t \<Longrightarrow> reach step s0 t"
  by (rule play_reach [OF reach_start])

lemma play_case: "(case play move s0 ms of None \<Rightarrow> False | Some t \<Rightarrow> P t) \<Longrightarrow> \<exists>t. reach step s0 t \<and> P t"
  by (auto split: option.splits intro: play_from_start)

end

end
