(* ===== verification/Tunnel_Pair.thy ===== *)
theory Tunnel_Pair
  imports Tunnel_Session Transition
begin

section \<open>Two tunnel sessions in a row\<close>

text \<open>
  The deployment of the README, with the session code on both nodes: the entry node's
  session copies between a client and the exit node, the exit node's session between the
  entry node and a server. The two sessions run on their own; the only link is TCP: the
  bytes a node has read from the other one are a prefix of the bytes the other has
  written. The chain theorems of \<open>Chain_Roles\<close> are lifted to this system, with its failures,
  half-closes and partial writes.
\<close>

record 'w pair =
  entry :: "'w session"
  entry_hist :: history
  exit :: "'w session"
  exit_hist :: history

definition pair_start :: "'w session \<Rightarrow> 'w session \<Rightarrow> 'w pair" where
  "pair_start a b = \<lparr>entry = a, entry_hist = no_history, exit = b, exit_hist = no_history\<rparr>"

inductive pair_step :: "'w ext \<Rightarrow> 'w pair \<Rightarrow> 'w pair \<Rightarrow> bool" for E where
  entry_moves: "session_step E (entry p) ev a \<Longrightarrow> h = record_event E (entry p) ev (entry_hist p) \<Longrightarrow>
    prefix (down_in h) (written (local_sock (exit p))) \<Longrightarrow>
    pair_step E p (p\<lparr>entry := a, entry_hist := h\<rparr>)"
| exit_moves: "session_step E (exit p) ev b \<Longrightarrow> h = record_event E (exit p) ev (exit_hist p) \<Longrightarrow>
    prefix (up_in h) (written (remote_sock (entry p))) \<Longrightarrow>
    pair_step E p (p\<lparr>exit := b, exit_hist := h\<rparr>)"

abbreviation pair_run :: "'w ext \<Rightarrow> 'w pair \<Rightarrow> 'w pair \<Rightarrow> bool" where
  "pair_run E \<equiv> reach (pair_step E)"

subsection \<open>One direction through both chains\<close>

text \<open>
  \<open>put\<close> is what the packing chain has given, \<open>taken\<close> what the unpacking node has read of
  it, \<open>sent\<close> what the packing node has read, \<open>got\<close> what the unpacking chain has given.
  When the packing chain has failed, the last bytes read are not packed.
\<close>

definition flow :: "'w ext \<Rightarrow> ProcessorChain \<Rightarrow> ProcessorChain \<Rightarrow> ByteVector \<Rightarrow> ByteVector
    \<Rightarrow> ByteVector \<Rightarrow> ByteVector \<Rightarrow> bool \<Rightarrow> bool" where
  "flow E e d put taken got sent live \<longleftrightarrow> prefix taken put \<and>
     (\<exists>packed. chain_link E e d (drop (length taken) put) packed got \<and> prefix packed sent \<and>
       (live \<longrightarrow> packed = sent))"

lemma flow_pack:
  assumes "flow E e d put taken got sent True" "chain_pack E w e x = Ret (out, e', w')"
  shows "flow E e' d (put @ concat out) taken got (sent @ x) live"
  using assms chain.link_send [of E e d "drop (length taken) put" sent got w x out e' w']
  by (auto simp: flow_def prefix_def)

lemma flow_fail:
  "flow E e d put taken got sent True \<Longrightarrow> flow E e d put taken got (sent @ x) False"
  by (auto simp: flow_def)

lemma flow_unpack:
  assumes "flow E e d put taken got sent live" "prefix (taken @ a) put"
  obtains bufs d' where "chain_unpack E d a = Ret (bufs, d')"
    "flow E e d' put (taken @ a) (got @ concat bufs) sent live"
proof -
  from assms(2) obtain b where put: "put = taken @ a @ b" by (auto simp: prefix_def)
  from assms(1) obtain packed where "chain_link E e d (a @ b) packed got"
    "prefix packed sent" "live \<longrightarrow> packed = sent" by (auto simp: flow_def put)
  then show ?thesis
    by (elim chain.link_receive) (rule that, assumption, auto simp: flow_def put)
qed

lemma flow_other_pack:
  "flow E e d put taken got sent live \<Longrightarrow> chain_pack E w d x = Ret (out, d', w') \<Longrightarrow>
    flow E e d' put taken got sent live"
  by (auto simp: flow_def intro: chain.link_other_send)

lemma flow_other_unpack:
  "flow E e d put taken got sent live \<Longrightarrow> chain_unpack E e x = Ret (out, e') \<Longrightarrow>
    flow E e' d put taken got sent live"
  by (auto simp: flow_def intro: chain.link_other_receive)

lemma flow_weaken:
  "flow E e d put taken got sent live \<Longrightarrow> (live' \<Longrightarrow> live) \<Longrightarrow> flow E e d put taken got sent live'"
  by (auto simp: flow_def)

lemma flow_prefix: "flow E e d put taken got sent live \<Longrightarrow> prefix got sent"
  by (auto simp: flow_def dest: chain.link_prefix intro: prefix_order.trans)

lemma flow_drained: "flow E e d put taken got sent True \<Longrightarrow> taken = put \<Longrightarrow> got = sent"
  by (auto simp: flow_def dest: chain.link_drained)

subsection \<open>The invariant of the pair\<close>

text \<open>A direction is live while its loop runs, and stays complete after the end of the stream.\<close>

definition up_live :: "'w session \<Rightarrow> bool" where
  "up_live s \<longleftrightarrow> local_pc s \<noteq> Finished \<or> local_eof s"

definition down_live :: "'w session \<Rightarrow> bool" where
  "down_live s \<longleftrightarrow> remote_pc s \<noteq> Finished \<or> remote_eof s"

definition flows :: "'w ext \<Rightarrow> 'w session \<Rightarrow> history \<Rightarrow> 'w session \<Rightarrow> history \<Rightarrow> bool" where
  "flows E a ha b hb \<longleftrightarrow>
     list_all (plays False) (chain a) \<and> list_all (plays True) (chain b) \<and>
     flow E (chain a) (rev (chain b)) (up_out ha) (up_in hb) (up_out hb) (up_in ha) (up_live a) \<and>
     flow E (rev (chain b)) (chain a) (down_out hb) (down_in ha) (down_out ha) (down_in hb) (down_live b)"

definition pair_inv :: "'w ext \<Rightarrow> 'w pair \<Rightarrow> bool" where
  "pair_inv E p \<longleftrightarrow>
     session_inv (entry p) \<and> up_lane (entry_hist p) (entry p) \<and> down_lane (entry_hist p) (entry p) \<and>
     session_inv (exit p) \<and> up_lane (exit_hist p) (exit p) \<and> down_lane (exit_hist p) (exit p) \<and>
     flows E (entry p) (entry_hist p) (exit p) (exit_hist p)"

text \<open>Only a read with data moves the chain.\<close>

definition chain_after :: "'w ext \<Rightarrow> 'w session \<Rightarrow> 'w event \<Rightarrow> ProcessorChain" where
  "chain_after E s ev = (case ev of
     LocalRead (ReadData x) \<Rightarrow>
       (case chain_on_local_data E (session_world s) (chain s) x [] of Ret (out, ps, w) \<Rightarrow> ps | _ \<Rightarrow> chain s)
   | RemoteRead (ReadData x) \<Rightarrow>
       (case chain_on_remote_data E (session_world s) (chain s) x [] of Ret (out, ps, w) \<Rightarrow> ps | _ \<Rightarrow> chain s)
   | _ \<Rightarrow> chain s)"

lemma local_read_chain:
  "local_read E s r = Some t \<Longrightarrow> chain t = chain_after E s (LocalRead r)"
  by (cases r) (auto simp: local_read_def chain_after_def finish_sides write_next_sides Let_def
      local_flush_next_def split: outcome.splits)

lemma remote_read_chain:
  "remote_read E s r = Some t \<Longrightarrow> chain t = chain_after E s (RemoteRead r)"
  by (cases r) (auto simp: remote_read_def chain_after_def finish_sides write_next_sides Let_def
      remote_flush_next_def split: outcome.splits)

lemma written_chain: "chain (local_written s r) = chain s" "chain (remote_written s r) = chain s"
proof -
  have "chain (local_flush_next s out) = chain s" "chain (remote_flush_next s out) = chain s"
    for s :: "'a session" and out
    by (simp_all add: local_flush_next_def remote_flush_next_def finish_sides)
  then show "chain (local_written s r) = chain s" "chain (remote_written s r) = chain s"
    by (auto simp: local_written_def remote_written_def finish_sides write_next_sides Let_def
      split: loop_pc.splits list.splits write_result.splits)
qed

lemma session_step_chain:
  "session_step E s ev t \<Longrightarrow> chain t = chain_after E s ev"
  by (cases ev; auto simp: session_step_iff local_read_chain remote_read_chain written_chain
      stat_tick_sides; simp add: chain_after_def)

lemma write_possible_running: "write_possible k pc r \<Longrightarrow> pc \<noteq> Finished"
  by auto

lemma live_side:
  "local_side t = local_side s \<Longrightarrow> up_live t = up_live s"
  "remote_side t = remote_side s \<Longrightarrow> down_live t = down_live s"
  by (simp_all add: up_live_def local_side_def down_live_def remote_side_def)

lemma session_step_up_live:
  assumes "session_step E s ev t" "up_live t"
  shows "up_live s"
proof -
  have run: "local_pc s \<noteq> Finished \<Longrightarrow> up_live s" by (simp add: up_live_def)
  have side: "local_side t = local_side s \<Longrightarrow> up_live s" using assms(2) live_side(1) by metis
  from assms(1) have "possible s ev" "resume E s ev = Some t" by (auto simp: session_step_iff)
  then show ?thesis
    by (cases ev) (auto simp: remote_written_side stat_tick_sides
        dest: write_possible_running remote_read_side intro: run side)
qed

lemma session_step_down_live:
  assumes "session_step E s ev t" "down_live t"
  shows "down_live s"
proof -
  have run: "remote_pc s \<noteq> Finished \<Longrightarrow> down_live s" by (simp add: down_live_def)
  have side: "remote_side t = remote_side s \<Longrightarrow> down_live s" using assms(2) live_side(2) by metis
  from assms(1) have "possible s ev" "resume E s ev = Some t" by (auto simp: session_step_iff)
  then show ?thesis
    by (cases ev) (auto simp: local_written_side stat_tick_sides
        dest: write_possible_running local_read_side intro: run side)
qed

subsection \<open>Every step keeps the flows\<close>

text \<open>The entry node packs what it reads from the client and unpacks what the exit node sends.\<close>

lemma entry_flows:
  assumes f: "flows E a ha b hb" and inv: "session_inv a" and st: "session_step E a ev t"
    and h: "h = record_event E a ev ha" and tcp: "prefix (down_in h) (down_out hb)"
  shows "flows E t h b hb"
proof -
  have ch: "chain t = chain_after E a ev" using st by (rule session_step_chain)
  have ps: "list_all (plays False) (chain a)" and qs: "list_all (plays True) (chain b)"
    and up: "flow E (chain a) (rev (chain b)) (up_out ha) (up_in hb) (up_out hb) (up_in ha) (up_live a)"
    and down: "flow E (rev (chain b)) (chain a) (down_out hb) (down_in ha) (down_out ha) (down_in hb) (down_live b)"
    using f by (auto simp: flows_def)
  have up': "flow E (chain a) (rev (chain b)) (up_out ha) (up_in hb) (up_out hb) (up_in ha) (up_live t)"
    using up session_step_up_live [OF st] by (rule flow_weaken)
  consider (local) x where "ev = LocalRead (ReadData x)" | (remote) x where "ev = RemoteRead (ReadData x)"
    | (other) "h = ha" "chain t = chain a"
    unfolding h ch by (cases "(E, a, ev, ha)" rule: record_event.cases) (auto simp: chain_after_def)
  then show ?thesis
  proof cases
    case local
    then have "local_pc a = Reading" using st by (auto simp: session_step_iff)
    then have up1: "flow E (chain a) (rev (chain b)) (up_out ha) (up_in hb) (up_out hb) (up_in ha) True"
      using up by (simp add: up_live_def)
    show ?thesis
    proof (cases "chain_pack E (session_world a) (chain a) x")
      case (Ret u)
      obtain out qs w where u: "u = (out, qs, w)" by (rule prod_cases3)
      from flow_pack [OF up1 Ret [unfolded u]] flow_other_pack [OF down Ret [unfolded u]]
        chain_pack_plays [OF ps Ret [unfolded u]]
      show ?thesis
        using qs by (simp add: flows_def h ch chain_after_def chain_bytes_def local entry_local [OF ps] Ret u)
    next
      case (Throw e)
      then have "local_side t = (Finished, snd (local_side a))"
        using st by (auto simp: session_step_iff local entry_local [OF ps] local_read_def finish_sides)
      then have "\<not> up_live t"
        using inv \<open>local_pc a = Reading\<close> by (simp add: local_side_def up_live_def session_inv_def)
      with flow_fail [OF up1, of x] ps qs down Throw show ?thesis
        by (simp add: flows_def h ch chain_after_def chain_bytes_def local entry_local [OF ps])
    next
      case Diverge
      with st show ?thesis
        by (simp add: session_step_iff local entry_local [OF ps] local_read_def)
    qed
  next
    case remote
    have "prefix (down_in ha @ x) (down_out hb)" using tcp by (simp add: h remote)
    with down obtain bufs d where u: "chain_unpack E (chain a) x = Ret (bufs, d)"
      and d: "flow E (rev (chain b)) d (down_out hb) (down_in ha @ x) (down_out ha @ concat bufs)
        (down_in hb) (down_live b)" by (rule flow_unpack)
    from flow_other_unpack [OF up' u] d chain_unpack_plays [OF ps u] qs show ?thesis
      by (simp add: flows_def h ch chain_after_def chain_bytes_def remote entry_remote [OF ps] u)
  next
    case other
    with ps qs up' down show ?thesis by (simp add: flows_def)
  qed
qed

text \<open>The exit node does the opposite.\<close>

lemma exit_flows:
  assumes f: "flows E a ha b hb" and inv: "session_inv b" and st: "session_step E b ev t"
    and h: "h = record_event E b ev hb" and tcp: "prefix (up_in h) (up_out ha)"
  shows "flows E a ha t h"
proof -
  have ch: "chain t = chain_after E b ev" using st by (rule session_step_chain)
  have ps: "list_all (plays False) (chain a)" and qs: "list_all (plays True) (chain b)"
    and up: "flow E (chain a) (rev (chain b)) (up_out ha) (up_in hb) (up_out hb) (up_in ha) (up_live a)"
    and down: "flow E (rev (chain b)) (chain a) (down_out hb) (down_in ha) (down_out ha) (down_in hb) (down_live b)"
    using f by (auto simp: flows_def)
  have down': "flow E (rev (chain b)) (chain a) (down_out hb) (down_in ha) (down_out ha) (down_in hb) (down_live t)"
    using down session_step_down_live [OF st] by (rule flow_weaken)
  consider (local) x where "ev = LocalRead (ReadData x)" | (remote) x where "ev = RemoteRead (ReadData x)"
    | (other) "h = hb" "chain t = chain b"
    unfolding h ch by (cases "(E, b, ev, hb)" rule: record_event.cases) (auto simp: chain_after_def)
  then show ?thesis
  proof cases
    case remote
    then have "remote_pc b = Reading" using st by (auto simp: session_step_iff)
    then have down1: "flow E (rev (chain b)) (chain a) (down_out hb) (down_in ha) (down_out ha) (down_in hb) True"
      using down by (simp add: down_live_def)
    show ?thesis
    proof (cases "chain_pack E (session_world b) (rev (chain b)) x")
      case (Ret u)
      obtain out ds w where u: "u = (out, ds, w)" by (rule prod_cases3)
      from flow_pack [OF down1 Ret [unfolded u]] flow_other_pack [OF up Ret [unfolded u]]
        chain_pack_plays [of True, OF _ Ret [unfolded u]] qs
      show ?thesis
        using ps by (simp add: flows_def h ch chain_after_def chain_bytes_def remote exit_remote [OF qs] Ret u)
    next
      case (Throw e)
      then have "remote_side t = (Finished, snd (remote_side b))"
        using st by (auto simp: session_step_iff remote exit_remote [OF qs] remote_read_def finish_sides)
      then have "\<not> down_live t"
        using inv \<open>remote_pc b = Reading\<close> by (simp add: remote_side_def down_live_def session_inv_def)
      with flow_fail [OF down1, of x] ps qs up Throw show ?thesis
        by (simp add: flows_def h ch chain_after_def chain_bytes_def remote exit_remote [OF qs])
    next
      case Diverge
      with st show ?thesis
        by (simp add: session_step_iff remote exit_remote [OF qs] remote_read_def)
    qed
  next
    case local
    have "prefix (up_in hb @ x) (up_out ha)" using tcp by (simp add: h local)
    with up obtain bufs d where u: "chain_unpack E (rev (chain b)) x = Ret (bufs, d)"
      and d: "flow E (chain a) d (up_out ha) (up_in hb @ x) (up_out hb @ concat bufs)
        (up_in ha) (up_live a)" by (rule flow_unpack)
    from flow_other_unpack [OF down' u] d chain_unpack_plays [of True, OF _ u] qs ps show ?thesis
      by (simp add: flows_def h ch chain_after_def chain_bytes_def local exit_local [OF qs] u)
  next
    case other
    with ps qs up down' show ?thesis by (simp add: flows_def)
  qed
qed

lemma lane_prefix: "up_lane h s \<Longrightarrow> prefix (written (remote_sock s)) (up_out h)"
  "down_lane h s \<Longrightarrow> prefix (written (local_sock s)) (down_out h)"
  by (auto simp: lane_defs)

lemma pair_step_inv: "pair_step E p q \<Longrightarrow> pair_inv E p \<Longrightarrow> pair_inv E q"
proof (induction rule: pair_step.induct)
  case (entry_moves p ev a h)
  have "prefix (down_in h) (down_out (exit_hist p))"
    using entry_moves lane_prefix(2) prefix_order.trans unfolding pair_inv_def by blast
  with entry_moves show ?case
    by (auto simp: pair_inv_def intro: session_step_inv session_step_lanes entry_flows)
next
  case (exit_moves p ev b h)
  have "prefix (up_in h) (up_out (entry_hist p))"
    using exit_moves lane_prefix(1) prefix_order.trans unfolding pair_inv_def by blast
  with exit_moves show ?case
    by (auto simp: pair_inv_def intro: session_step_inv session_step_lanes exit_flows)
qed

interpretation pair: kept_invariant "pair_step E" "pair_inv E" for E
  by unfold_locales (rule pair_step_inv)

text \<open>Two fresh sessions whose chains fit.\<close>

lemma pair_inv_start:
  assumes "chains_fit E es qs"
  shows "pair_inv E (pair_start (fresh_session w es) (fresh_session v qs))"
  using assms by (simp add: pair_inv_def pair_start_def flows_def flow_def no_history_def
      chains_fit_def chain.link_start) (simp add: up_lane_def down_lane_def no_history_def lane_def)

lemma reading_complete:
  "up_lane h s \<Longrightarrow> local_pc s = Reading \<or> local_eof s \<and> local_pc s = Finished \<Longrightarrow>
    written (remote_sock s) = up_out h"
  "down_lane h s \<Longrightarrow> remote_pc s = Reading \<or> remote_eof s \<and> remote_pc s = Finished \<Longrightarrow>
    written (local_sock s) = down_out h"
  by (auto simp: lane_defs)

subsection \<open>Running examples\<close>

datatype 'w move = EntryMove "'w event" | ExitMove "'w event"

fun pair_move :: "'w ext \<Rightarrow> 'w pair \<Rightarrow> 'w move \<Rightarrow> 'w pair option" where
  "pair_move E p (EntryMove ev) =
     (let h = record_event E (entry p) ev (entry_hist p)
      in if possible (entry p) ev \<and> prefix (down_in h) (written (local_sock (exit p)))
         then map_option (\<lambda>a. p\<lparr>entry := a, entry_hist := h\<rparr>) (resume E (entry p) ev) else None)"
| "pair_move E p (ExitMove ev) =
     (let h = record_event E (exit p) ev (exit_hist p)
      in if possible (exit p) ev \<and> prefix (up_in h) (written (remote_sock (entry p)))
         then map_option (\<lambda>b. p\<lparr>exit := b, exit_hist := h\<rparr>) (resume E (exit p) ev) else None)"

interpretation pair: played_moves "pair_step E" "pair_move E" for E
proof unfold_locales
  show "pair_step E p q" if "pair_move E p m = Some q" for p m q
    using that by (cases m) (auto simp: Let_def split: if_splits intro!: pair_step.intros resumed)
qed

text \<open>A client that sends two bytes and its end of stream through two nodes with \<^verbatim>\<open>cfb:key=k\<close>.\<close>

definition demo_pair :: "nat pair" where
  "demo_pair = pair_start (fresh_session 0 [CfbP (CfbProcessor_new [0x6B] False)])
     (fresh_session 0 [CfbP (CfbProcessor_new [0x6B] True)])"

definition demo_moves :: "nat move list" where
  "demo_moves = [EntryMove (LocalRead (ReadData [7, 8])), EntryMove (LocalWritten WriteOk),
     ExitMove (LocalRead (ReadData [0x6C])), EntryMove (LocalRead ReadEof), ExitMove (LocalWritten WriteOk)]"

definition demo_rest :: "nat move list" where
  "demo_rest = [ExitMove (LocalRead (ReadData [0x65])), ExitMove (LocalWritten WriteOk), ExitMove (LocalRead ReadEof)]"

lemma demo_pair_runs:
  "\<exists>p. pair_run example_ext demo_pair p \<and> written (remote_sock (exit p)) = [7] \<and> up_in (entry_hist p) = [7, 8] \<and>
     local_pc (exit p) = Reading \<and> prefix (up_in (exit_hist p) @ [0x65]) (written (remote_sock (entry p)))"
  "\<exists>p. pair_run example_ext demo_pair p \<and> local_eof (entry p) \<and> local_eof (exit p) \<and>
     up_in (exit_hist p) = written (remote_sock (entry p)) \<and> up_in (entry_hist p) = [7, 8]"
proof -
  note defs = demo_pair_def demo_moves_def demo_rest_def pair_start_def demo_defs
    CfbProcessor_new_eq cfb_initial_iv_def cfb_pack_def cfb_unpack_def encrypt_def decrypt_def mix_def
    upt_conv_Cons
  have "(case play (pair_move example_ext) demo_pair demo_moves of None \<Rightarrow> False | Some p \<Rightarrow>
     written (remote_sock (exit p)) = [7] \<and> up_in (entry_hist p) = [7, 8] \<and>
     local_pc (exit p) = Reading \<and> prefix (up_in (exit_hist p) @ [0x65]) (written (remote_sock (entry p))))"
    by (simp add: defs)
  then show "\<exists>p. pair_run example_ext demo_pair p \<and> written (remote_sock (exit p)) = [7] \<and> up_in (entry_hist p) = [7, 8] \<and>
     local_pc (exit p) = Reading \<and> prefix (up_in (exit_hist p) @ [0x65]) (written (remote_sock (entry p)))"
    by (rule pair.play_case)
  have "(case play (pair_move example_ext) demo_pair (demo_moves @ demo_rest) of None \<Rightarrow> False | Some p \<Rightarrow>
     local_eof (entry p) \<and> local_eof (exit p) \<and>
     up_in (exit_hist p) = written (remote_sock (entry p)) \<and> up_in (entry_hist p) = [7, 8])"
    by (simp add: defs)
  then show "\<exists>p. pair_run example_ext demo_pair p \<and> local_eof (entry p) \<and> local_eof (exit p) \<and>
     up_in (exit_hist p) = written (remote_sock (entry p)) \<and> up_in (entry_hist p) = [7, 8]"
    by (rule pair.play_case)
qed

lemma demo_spec: "spec_name ''cfb:key=k'' = ''cfb''" "parse_kv (spec_args ''cfb:key=k'') = [''key'' \<mapsto> ''k'']"
  by (simp_all add: spec_name_def spec_args_def parse_kv_def split.simps add_kv_def)

lemma demo_builds:
  "build_processor_chain example_ext 0 [''cfb:key=k''] rv = Ret (Some [CfbP (CfbProcessor_new [0x6B] rv)], 0)"
  by (simp add: build_processor_chain_def build_processor_def demo_spec chain_add_def
      resolve_processor_reverse_def bytes_of_string_def of_char_def)

lemma demo_plain: "plain_spec ''cfb:key=k''"
  by (simp add: plain_spec_def resolve_processor_reverse_def demo_spec)

subsection \<open>Properties\<close>

lemma built_pair_inv:
  assumes "uniform_in_range E" "\<forall>spec\<in>set specs. plain_spec spec"
    "build_processor_chain E w specs False = Ret (Some es, w')"
    "build_processor_chain E v specs True = Ret (Some qs, v')"
    "pair_run E (pair_start (fresh_session w1 es) (fresh_session v1 qs)) p"
  shows "pair_inv E p"
  by (rule pair.reach_ok [OF assms(5) pair_inv_start [OF build_chains_fit [OF assms(1-4)]]])

text \<open>
  Property C1. The tunnel is transparent. Two nodes are started with the same processor
  arguments, none of them with the deprecated \<^verbatim>\<open>reverse=\<close>, and one node with the global reverse; their sessions run in any interleaving,
  with any segmentation, failures and half-closes. At every moment the bytes the exit node
  has written to the server are a prefix of the bytes the client has sent, and the bytes
  the entry node has written to the client are a prefix of the bytes the server has sent.
\<close>

theorem tunnel_pair_transparent:
  assumes "uniform_in_range E" "\<forall>spec\<in>set specs. plain_spec spec"
    "build_processor_chain E w specs False = Ret (Some es, w')"
    "build_processor_chain E v specs True = Ret (Some qs, v')"
    "pair_run E (pair_start (fresh_session w1 es) (fresh_session v1 qs)) p"
  shows "prefix (written (remote_sock (exit p))) (up_in (entry_hist p)) \<and>
    prefix (written (local_sock (entry p))) (down_in (exit_hist p))"
  using built_pair_inv [OF assms]
  by (auto simp: pair_inv_def flows_def lane_defs dest!: flow_prefix intro: prefix_order.trans)

theorem tunnel_pair_transparent_witness:
  "\<exists>p. pair_run example_ext demo_pair p \<and> written (remote_sock (exit p)) = [7] \<and> up_in (entry_hist p) = [7, 8] \<and>
    prefix (written (remote_sock (exit p))) (up_in (entry_hist p))"
proof -
  obtain p where p: "pair_run example_ext demo_pair p" "written (remote_sock (exit p)) = [7]"
    "up_in (entry_hist p) = [7, 8]" using demo_pair_runs(1) by blast
  from tunnel_pair_transparent [OF example_ext_uniform _ demo_builds demo_builds p(1) [unfolded demo_pair_def]]
    p demo_plain show ?thesis by auto
qed

text \<open>
  Property C2. Nothing is lost on an orderly close: when the client has ended its stream,
  the exit node has read all that the entry node wrote and then the end of the stream, and
  both loops ended that way, the server has received exactly the bytes the client sent.
  The same holds towards the client.
\<close>

theorem tunnel_pair_complete:
  assumes "uniform_in_range E" "\<forall>spec\<in>set specs. plain_spec spec"
    "build_processor_chain E w specs False = Ret (Some es, w')"
    "build_processor_chain E v specs True = Ret (Some qs, v')"
    "pair_run E (pair_start (fresh_session w1 es) (fresh_session v1 qs)) p"
  shows "(local_eof (entry p) \<and> local_eof (exit p) \<and>
       up_in (exit_hist p) = written (remote_sock (entry p)) \<longrightarrow>
       written (remote_sock (exit p)) = up_in (entry_hist p)) \<and>
    (remote_eof (exit p) \<and> remote_eof (entry p) \<and>
       down_in (entry_hist p) = written (local_sock (exit p)) \<longrightarrow>
       written (local_sock (entry p)) = down_in (exit_hist p))"
proof -
  note inv = built_pair_inv [OF assms, unfolded pair_inv_def flows_def]
  have up: "written (remote_sock (exit p)) = up_in (entry_hist p)"
    if "local_eof (entry p)" "local_eof (exit p)" "up_in (exit_hist p) = written (remote_sock (entry p))"
  proof -
    from that inv have "local_pc (entry p) = Finished" "local_pc (exit p) = Finished"
      by (auto simp: session_inv_def)
    with that inv have "written (remote_sock (entry p)) = up_out (entry_hist p)"
      "written (remote_sock (exit p)) = up_out (exit_hist p)" by (auto simp: lane_defs)
    with that inv show ?thesis by (auto simp: up_live_def dest!: flow_drained)
  qed
  have down: "written (local_sock (entry p)) = down_in (exit_hist p)"
    if "remote_eof (exit p)" "remote_eof (entry p)" "down_in (entry_hist p) = written (local_sock (exit p))"
  proof -
    from that inv have "remote_pc (entry p) = Finished" "remote_pc (exit p) = Finished"
      by (auto simp: session_inv_def)
    with that inv have "written (local_sock (exit p)) = down_out (exit_hist p)"
      "written (local_sock (entry p)) = down_out (entry_hist p)" by (auto simp: lane_defs)
    with that inv show ?thesis by (auto simp: down_live_def dest!: flow_drained)
  qed
  from up down show ?thesis by blast
qed

theorem tunnel_pair_complete_witness:
  "\<exists>p. pair_run example_ext demo_pair p \<and> written (remote_sock (exit p)) = [7, 8]"
proof -
  obtain p where p: "pair_run example_ext demo_pair p" "local_eof (entry p)" "local_eof (exit p)"
    "up_in (exit_hist p) = written (remote_sock (entry p))" "up_in (entry_hist p) = [7, 8]"
    using demo_pair_runs(2) by blast
  from tunnel_pair_complete [OF example_ext_uniform _ demo_builds demo_builds p(1) [unfolded demo_pair_def]]
    p demo_plain show ?thesis by auto
qed

text \<open>
  Property C3. The exit node never rejects what the entry node sent: whatever next piece of
  the wire it reads, in any reachable state, its chain decodes it without an exception and
  without looping. The entry node decodes what the exit node sent in the same way.
\<close>

theorem tunnel_pair_decodes:
  assumes "uniform_in_range E" "\<forall>spec\<in>set specs. plain_spec spec"
    "build_processor_chain E w specs False = Ret (Some es, w')"
    "build_processor_chain E v specs True = Ret (Some qs, v')"
    "pair_run E (pair_start (fresh_session w1 es) (fresh_session v1 qs)) p"
  shows "(prefix (up_in (exit_hist p) @ a) (written (remote_sock (entry p))) \<longrightarrow>
      (\<exists>out ds u'. chain_on_local_data E u (chain (exit p)) a [] = Ret (out, ds, u'))) \<and>
    (prefix (down_in (entry_hist p) @ a) (written (local_sock (exit p))) \<longrightarrow>
      (\<exists>out ds u'. chain_on_remote_data E u (chain (entry p)) a [] = Ret (out, ds, u')))"
proof (intro conjI impI)
  note inv = built_pair_inv [OF assms, unfolded pair_inv_def flows_def]
  assume "prefix (up_in (exit_hist p) @ a) (written (remote_sock (entry p)))"
  with inv have "prefix (up_in (exit_hist p) @ a) (up_out (entry_hist p))"
    by (meson lane_prefix(1) prefix_order.trans)
  with inv obtain bufs d where "chain_unpack E (rev (chain (exit p))) a = Ret (bufs, d)"
    by (meson flow_unpack)
  with inv show "\<exists>out ds u'. chain_on_local_data E u (chain (exit p)) a [] = Ret (out, ds, u')"
    by (simp add: exit_local)
next
  note inv = built_pair_inv [OF assms, unfolded pair_inv_def flows_def]
  assume "prefix (down_in (entry_hist p) @ a) (written (local_sock (exit p)))"
  with inv have "prefix (down_in (entry_hist p) @ a) (down_out (exit_hist p))"
    by (meson lane_prefix(2) prefix_order.trans)
  with inv obtain bufs d where "chain_unpack E (chain (entry p)) a = Ret (bufs, d)"
    by (meson flow_unpack)
  with inv show "\<exists>out ds u'. chain_on_remote_data E u (chain (entry p)) a [] = Ret (out, ds, u')"
    by (simp add: entry_remote)
qed

theorem tunnel_pair_decodes_witness:
  "\<exists>p out ds u'. pair_run example_ext demo_pair p \<and> written (remote_sock (exit p)) = [7] \<and>
    chain_on_local_data example_ext 5 (chain (exit p)) [0x65] [] = Ret (out, ds, u')"
proof -
  obtain p where p: "pair_run example_ext demo_pair p" "written (remote_sock (exit p)) = [7]"
    "prefix (up_in (exit_hist p) @ [0x65]) (written (remote_sock (entry p)))" using demo_pair_runs(1) by blast
  from tunnel_pair_decodes [OF example_ext_uniform _ demo_builds demo_builds p(1) [unfolded demo_pair_def],
      of "[0x65]" 5] p demo_plain show ?thesis by auto
qed

end
