(* ===== verification/Tunnel_Accept.thy ===== *)
theory Tunnel_Accept
  imports Tunnel_Session Transition
begin

section \<open>The accept loop and the start of a tunnel\<close>

subsection \<open>do\_accept\<close>

text \<open>
  The coroutine is suspended in \<^verbatim>\<open>async_accept\<close>, in the \<^verbatim>\<open>async_connect\<close> of a new
  session, or has ended: it ends when accepting fails, when the chain cannot be built, and
  when \<^verbatim>\<open>local.remote_endpoint()\<close> or the build throws, since nothing catches there.
  \<open>sessions\<close> keeps the sessions in the order of their connections, each as the loop left it.
\<close>

datatype 'w accept_pc = Accepting | Connecting "'w session" | AcceptEnded

record 'w accept_state =
  next_id :: u64
  accept_world :: 'w
  accept_pc :: "'w accept_pc"
  sessions :: "'w session list"
  accept_log :: "log_line list"

definition accept_start :: "'w \<Rightarrow> 'w accept_state" where
  "accept_start w = \<lparr>next_id = 0, accept_world = w, accept_pc = Accepting, sessions = [],
     accept_log = []\<rparr>"

text \<open>
  The results of an accept: it fails, it gives a socket whose peer is still known, or one
  whose peer has gone so that \<^verbatim>\<open>remote_endpoint\<close> throws.
\<close>

datatype accept_result = AcceptFailed | AcceptedPeer | AcceptedGone

definition accepted :: "'w ext \<Rightarrow> string list \<Rightarrow> bool \<Rightarrow> int \<Rightarrow> 'w accept_state \<Rightarrow> accept_result
    \<Rightarrow> 'w accept_state option" where
  "accepted E specs rv now a r = (case r of
     AcceptFailed \<Rightarrow> Some (a\<lparr>accept_pc := AcceptEnded\<rparr>)
   | AcceptedGone \<Rightarrow> Some (a\<lparr>next_id := next_id a + 1, accept_pc := AcceptEnded\<rparr>)
   | AcceptedPeer \<Rightarrow>
       (let id = next_id a;
            a = a\<lparr>next_id := id + 1, accept_log := accept_log a @ [ConnNew id]\<rparr>
        in case build_processor_chain E (accept_world a) specs rv of
             Ret (Some ps, w) \<Rightarrow>
               Some (a\<lparr>accept_world := w,
                       accept_pc := Connecting ((new_session w fresh_sock ps now)\<lparr>sid := id\<rparr>)\<rparr>)
           | Ret (None, w) \<Rightarrow> Some (a\<lparr>accept_world := w, accept_pc := AcceptEnded\<rparr>)
           | Throw e \<Rightarrow> Some (a\<lparr>accept_pc := AcceptEnded\<rparr>)
           | Diverge \<Rightarrow> None))"

definition connected :: "'w accept_state \<Rightarrow> bool \<Rightarrow> 'w accept_state" where
  "connected a ok = (case accept_pc a of
     Connecting s \<Rightarrow>
       if ok then a\<lparr>sessions := sessions a @ [start_session s], accept_pc := Accepting\<rparr>
       else a\<lparr>sessions := sessions a @ [close_all s], accept_pc := Accepting\<rparr>
   | _ \<Rightarrow> a)"

inductive accept_step :: "'w ext \<Rightarrow> string list \<Rightarrow> bool \<Rightarrow> 'w accept_state \<Rightarrow> 'w accept_state \<Rightarrow> bool"
  for E specs rv where
  accept_done: "accept_pc a = Accepting \<Longrightarrow> accepted E specs rv now a r = Some b \<Longrightarrow>
    accept_step E specs rv a b"
| connect_done: "accept_pc a = Connecting s \<Longrightarrow> accept_step E specs rv a (connected a ok)"
| world_moves: "accept_step E specs rv a (a\<lparr>accept_world := w\<rparr>)"

abbreviation accept_run :: "'w ext \<Rightarrow> string list \<Rightarrow> bool \<Rightarrow> 'w accept_state \<Rightarrow> 'w accept_state \<Rightarrow> bool" where
  "accept_run E specs rv \<equiv> reach (accept_step E specs rv)"

subsection \<open>run\_tunnel\<close>

text \<open>
  What \<^verbatim>\<open>run_tunnel\<close> does before it enters the event loop. \<^verbatim>\<open>make_address\<close> is Asio's:
  \<open>None\<close> when it throws; \<open>bind_ok\<close> tells whether opening, binding and listening succeed.
  \<^verbatim>\<open>unsigned long\<close> has 64 bits on the LP64 targets, so \<^verbatim>\<open>stoul\<close> is \<open>stoull\<close>.
\<close>

datatype 'a tunnel_setup =
  InvalidAddressFormat
| InvalidPort
| InvalidProcessors
| SetupThrows
| Listening "'a \<times> u16" "'a \<times> u16"

definition port_of :: "string \<Rightarrow> u16 outcome" where
  "port_of s = obind (stoull s) (\<lambda>v. Ret (ucast v))"

definition run_tunnel :: "'w ext \<Rightarrow> 'w \<Rightarrow> (string \<Rightarrow> 'a option) \<Rightarrow> ('a \<times> u16 \<Rightarrow> bool)
    \<Rightarrow> string \<Rightarrow> string \<Rightarrow> string list \<Rightarrow> bool \<Rightarrow> 'a tunnel_setup" where
  "run_tunnel E w make_address bind_ok listen_addr remote_addr specs rv =
     (case (rfind_char CHR '':'' listen_addr, rfind_char CHR '':'' remote_addr) of
        (Some colon1, Some colon2) \<Rightarrow>
          (case (port_of (drop (colon1 + 1) listen_addr), port_of (drop (colon2 + 1) remote_addr)) of
             (Ret listen_port, Ret remote_port) \<Rightarrow>
               (case build_processor_chain E w specs rv of
                  Ret (Some ps, w) \<Rightarrow>
                    (case (make_address (take colon1 listen_addr), make_address (take colon2 remote_addr)) of
                       (Some listen_ip, Some remote_ip) \<Rightarrow>
                         if bind_ok (listen_ip, listen_port)
                         then Listening (listen_ip, listen_port) (remote_ip, remote_port)
                         else SetupThrows
                     | _ \<Rightarrow> SetupThrows)
                | Ret (None, w) \<Rightarrow> InvalidProcessors
                | _ \<Rightarrow> SetupThrows)
           | _ \<Rightarrow> InvalidPort)
      | _ \<Rightarrow> InvalidAddressFormat)"

subsection \<open>A chain that builds once builds again\<close>

text \<open>The random sources decide the padding seed only.\<close>

lemma build_processor_again:
  assumes "build_processor E w spec rv = Ret (Some p, w')"
  shows "\<exists>q v'. build_processor E v spec rv = Ret (Some q, v')"
  using assms
  by (auto simp: build_processor_def Let_def obind_eq_Ret padding_seed_def split_beta
      split: if_splits option.splits)

lemma build_from_again:
  "build_from E w specs rv ps = Ret (Some qs, w') \<Longrightarrow>
    \<exists>qs v'. build_from E v specs rv ps' = Ret (Some qs, v')"
proof (induction specs arbitrary: w v ps ps')
  case (Cons spec specs)
  then obtain p w1 where p: "build_processor E w spec rv = Ret (Some p, w1)"
    and r: "build_from E w1 specs rv (chain_add ps p) = Ret (Some qs, w')"
    by (auto simp: obind_eq_Ret split: option.splits)
  from build_processor_again [OF p, of v] obtain q v1 where
    "build_processor E v spec rv = Ret (Some q, v1)" by auto
  with Cons.IH [OF r] show ?case by simp
qed simp

lemma build_processor_chain_again:
  "build_processor_chain E w specs rv = Ret (Some ps, w') \<Longrightarrow>
    \<exists>qs v'. build_processor_chain E v specs rv = Ret (Some qs, v')"
  using build_from_again [of E w _ rv "[]"]
  by (auto simp: build_processor_chain_def Let_def split: if_splits)

subsection \<open>The accept loop\<close>

definition accept_ids :: "'w accept_state \<Rightarrow> u64 list" where
  "accept_ids a = map sid (sessions a) @ (case accept_pc a of Connecting s \<Rightarrow> [sid s] | _ \<Rightarrow> [])"

text \<open>A session before its connection, and one the loop has left: started, or closed.\<close>

definition built_session :: "'w ext \<Rightarrow> string list \<Rightarrow> bool \<Rightarrow> 'w session \<Rightarrow> bool" where
  "built_session E specs rv s \<longleftrightarrow> (\<exists>w w' v now i ps.
     build_processor_chain E w specs rv = Ret (Some ps, w') \<and>
     s = (new_session v fresh_sock ps now)\<lparr>sid := i\<rparr>)"

definition handed_over :: "'w ext \<Rightarrow> string list \<Rightarrow> bool \<Rightarrow> 'w session \<Rightarrow> bool" where
  "handed_over E specs rv s \<longleftrightarrow>
     (\<exists>s0. built_session E specs rv s0 \<and> (s = start_session s0 \<or> s = close_all s0))"

definition accept_inv :: "'w ext \<Rightarrow> string list \<Rightarrow> bool \<Rightarrow> 'w accept_state \<Rightarrow> bool" where
  "accept_inv E specs rv a \<longleftrightarrow>
     (\<forall>s\<in>set (sessions a). handed_over E specs rv s) \<and>
     accept_ids a = map of_nat [0..<length (accept_ids a)] \<and>
     (case accept_pc a of Connecting s \<Rightarrow> built_session E specs rv s | _ \<Rightarrow> True) \<and>
     (accept_pc a \<noteq> AcceptEnded \<longrightarrow>
        next_id a = of_nat (length (accept_ids a)) \<and> accept_log a = map ConnNew (accept_ids a))"

lemma accept_inv_start: "accept_inv E specs rv (accept_start w)"
  by (simp add: accept_inv_def accept_start_def accept_ids_def)

lemma sid_kept [simp]: "sid (start_session s) = sid s" "sid (close_all s) = sid s"
  by (simp_all add: start_session_def local_write_next_def remote_write_next_def local_finish_def
      remote_finish_def on_done_def close_all_def Let_def)

lemma built_sessionI:
  "build_processor_chain E w specs rv = Ret (Some ps, w') \<Longrightarrow>
    built_session E specs rv ((new_session v fresh_sock ps now)\<lparr>sid := i\<rparr>)"
  unfolding built_session_def by blast

lemma sid_update_sid [simp]: "sid (s\<lparr>sid := i\<rparr>) = i"
  by simp

lemma accepted_inv:
  assumes "accept_inv E specs rv a" "accept_pc a = Accepting" "accepted E specs rv now a r = Some b"
  shows "accept_inv E specs rv b"
  using assms
  by (cases r) (auto simp: accepted_def accept_inv_def accept_ids_def Let_def built_sessionI
      split: outcome.splits option.splits)

lemma connected_inv:
  assumes "accept_inv E specs rv a" "accept_pc a = Connecting s"
  shows "accept_inv E specs rv (connected a ok)"
proof -
  have ids: "accept_ids (connected a ok) = accept_ids a"
    using assms(2) by (simp add: connected_def accept_ids_def)
  from assms have "handed_over E specs rv (start_session s)" "handed_over E specs rv (close_all s)"
    by (auto simp: accept_inv_def handed_over_def)
  with assms show ?thesis
    by (auto simp: accept_inv_def ids) (auto simp: connected_def split: if_splits)
qed

lemma accept_inv_world [simp]:
  "accept_inv E specs rv (a\<lparr>accept_world := w\<rparr>) = accept_inv E specs rv a"
proof -
  have "accept_ids (a\<lparr>accept_world := w\<rparr>) = accept_ids a" by (simp add: accept_ids_def)
  then show ?thesis by (simp add: accept_inv_def)
qed

lemma accept_step_inv: "accept_step E specs rv a b \<Longrightarrow> accept_inv E specs rv a \<Longrightarrow> accept_inv E specs rv b"
  by (induction rule: accept_step.induct) (auto intro: accepted_inv connected_inv)

interpretation accept: kept_invariant "accept_step E specs rv" "accept_inv E specs rv" for E specs rv
  by unfold_locales (rule accept_step_inv)

lemmas accept_run_inv = accept.reach_ok [OF _ accept_inv_start]

text \<open>What was handed over either satisfies the session invariant from its start, or is closed.\<close>

lemma handed_over_cases:
  assumes "handed_over E specs rv s"
  shows "session_inv s \<and> \<not> closed s \<and> stat_running s \<or>
    closed s \<and> \<not> is_open (local_sock s) \<and> \<not> is_open (remote_sock s)"
proof -
  from assms obtain s0 where b: "built_session E specs rv s0" "s = start_session s0 \<or> s = close_all s0"
    by (auto simp: handed_over_def)
  from b(1) obtain v now i ps where s0: "s0 = (new_session v fresh_sock ps now)\<lparr>sid := i\<rparr>"
    by (auto simp: built_session_def)
  have "session_inv (start_session s0)"
    unfolding s0 by (rule session_inv_start) (simp_all add: fresh_sock_def)
  moreover have "\<not> closed (start_session s0)" "stat_running (start_session s0)"
    by (simp_all add: s0 start_session_def new_session_def local_write_next_def
        remote_write_next_def Let_def)
  ultimately show ?thesis
    using b(2) by (auto simp: close_all_def sock_close_def)
qed

subsection \<open>Properties\<close>

lemma spec_identity [simp]: "build_processor_chain E w [] rv = Ret (Some [IdentityP (IdentityProcessor_new False)], w)"
  by (simp add: build_processor_chain_def chain_add_def)

lemma demo_accept:
  "accept_run E [] rv (accept_start w) (the (accepted E [] rv 0 (accept_start w) AcceptedPeer))"
  "accept_pc (the (accepted E [] rv 0 (accept_start w) AcceptedPeer)) =
    Connecting (new_session w fresh_sock [IdentityP (IdentityProcessor_new False)] 0\<lparr>sid := 0\<rparr>)"
proof -
  have s: "accept_pc (accept_start w) = Accepting" by (simp add: accept_start_def)
  have "accepted E [] rv 0 (accept_start w) AcceptedPeer =
      Some (the (accepted E [] rv 0 (accept_start w) AcceptedPeer))"
    by (simp add: accepted_def Let_def)
  have "accept_step E [] rv (accept_start w) (the (accepted E [] rv 0 (accept_start w) AcceptedPeer))"
    by (rule accept_done) fact+
  then show "accept_run E [] rv (accept_start w) (the (accepted E [] rv 0 (accept_start w) AcceptedPeer))"
    by (rule reach_step [OF reach_start])
  show "accept_pc (the (accepted E [] rv 0 (accept_start w) AcceptedPeer)) =
      Connecting (new_session w fresh_sock [IdentityP (IdentityProcessor_new False)] 0\<lparr>sid := 0\<rparr>)"
    by (simp add: accepted_def Let_def accept_start_def)
qed

text \<open>
  Property C38. The accept loop numbers and announces its sessions: the ids of the sessions it
  has made are 0, 1, 2, ... in the order of the connections (modulo 2^64), and while it
  runs the log has one \<^verbatim>\<open>conn_new\<close> line for each, in that order; every session it has
  left has both sockets open and its loops started, or is closed with both sockets.
\<close>

theorem accept_loop_sessions:
  assumes "accept_run E specs rv (accept_start w) a"
  shows "accept_ids a = map of_nat [0..<length (accept_ids a)] \<and>
    (accept_pc a \<noteq> AcceptEnded \<longrightarrow> accept_log a = map ConnNew (accept_ids a)) \<and>
    (\<forall>s\<in>set (sessions a). session_inv s \<and> \<not> closed s \<and> stat_running s \<or>
       closed s \<and> \<not> is_open (local_sock s) \<and> \<not> is_open (remote_sock s))"
  using accept_run_inv [OF assms] handed_over_cases
  unfolding accept_inv_def by blast

theorem accept_loop_sessions_witness:
  "\<exists>a. accept_run example_ext [] False (accept_start 0) a \<and> accept_ids a = [0] \<and> accept_log a = [ConnNew 0]"
proof -
  let ?a = "the (accepted example_ext [] False 0 (accept_start 0) AcceptedPeer)"
  have ids: "accept_ids ?a = [0]" "accept_pc ?a \<noteq> AcceptEnded"
    by (simp_all add: accepted_def Let_def accept_start_def accept_ids_def)
  from accept_loop_sessions [OF demo_accept(1) [of example_ext False 0]] ids demo_accept(1) [of example_ext False 0]
  show ?thesis by (intro exI [of _ ?a]) simp
qed

text \<open>
  Once the processors have been checked at the start, only the acceptor can
  end the loop: an accepted connection with a known peer leads to a connecting session,
  whatever the random sources have become, and a failed connection closes that session and
  goes back to accepting.
\<close>

theorem accept_loop_survives:
  assumes "build_processor_chain E w0 specs rv = Ret (Some ps0, w1)"
    and "accept_run E specs rv (accept_start w) a"
  shows "(\<exists>b s. accepted E specs rv now a AcceptedPeer = Some b \<and> accept_pc b = Connecting s) \<and>
    (\<forall>s. accept_pc a = Connecting s \<longrightarrow> accept_pc (connected a ok) = Accepting \<and>
       (\<not> ok \<longrightarrow> closed (last (sessions (connected a ok)))) \<and>
       (ok \<longrightarrow> \<not> closed (last (sessions (connected a ok)))))"
proof (intro conjI allI impI)
  from build_processor_chain_again [OF assms(1), of "accept_world a"] obtain ps v where
    "build_processor_chain E (accept_world a) specs rv = Ret (Some ps, v)" by auto
  then show "\<exists>b s. accepted E specs rv now a AcceptedPeer = Some b \<and> accept_pc b = Connecting s"
    by (simp add: accepted_def Let_def)
next
  fix s assume c: "accept_pc a = Connecting s"
  show "accept_pc (connected a ok) = Accepting" using c by (simp add: connected_def)
  show "closed (last (sessions (connected a ok)))" if "\<not> ok" using c that by (simp add: connected_def)
  show "\<not> closed (last (sessions (connected a ok)))" if ok
  proof -
    from c accept_run_inv [OF assms(2)] have "built_session E specs rv s"
      by (simp add: accept_inv_def)
    then have "\<not> closed (start_session s)"
      by (auto simp: built_session_def start_session_def new_session_def local_write_next_def
          remote_write_next_def Let_def)
    with c that show ?thesis by (simp add: connected_def)
  qed
qed

theorem accept_loop_survives_witness:
  "\<exists>a s. accept_run example_ext [] True (accept_start 4) a \<and> accept_pc a = Connecting s \<and>
    accept_pc (connected a False) = Accepting \<and> closed (last (sessions (connected a False)))"
  using accept_loop_survives [where now = 0 and ok = False, OF spec_identity demo_accept(1) [of example_ext True 4]]
    demo_accept [of example_ext True 4] by blast

text \<open>
  Property C39. What \<^verbatim>\<open>run_tunnel\<close> does with its arguments: with addresses of the form
  \<open>ip:port\<close> (the last colon counts), decimal ports, acceptable processors and usable
  addresses it listens, on the port's value modulo 65536; one processor specification that
  is not acceptable never lets it listen.
\<close>

theorem run_tunnel_listens:
  assumes "list_all spec_ok specs" "n < 2 ^ 64" "m < 2 ^ 64"
    "make_address ip1 = Some a1" "make_address ip2 = Some a2" "bind_ok (a1, of_nat n)"
  shows "run_tunnel E w make_address bind_ok (ip1 @ '':'' @ decimal n) (ip2 @ '':'' @ decimal m) specs rv =
    Listening (a1, of_nat n) (a2, of_nat m)"
proof -
  have colon: "CHR '':'' \<notin> set (decimal n)" for n
  proof (induction n rule: decimal.induct)
    case (1 n)
    have "digit_char d \<noteq> CHR '':''" if "d < 10" for d
    proof
      assume "digit_char d = CHR '':''"
      then have "digit_value (CHR '':'') = Some d" using that by (metis digit_value_digit_char)
      then show False by (simp add: digit_value_def)
    qed
    from this [of n] this [of "n mod 10"] 1 show ?case
      by (cases "n < 10") (auto simp: decimal.simps [of n] dest: sym)
  qed
  have at: "rfind_char CHR '':'' (ip @ '':'' @ decimal n) = Some (length ip)" for ip n
    using rfind_char_append [OF colon, of ip n] by simp
  have port: "port_of (decimal k) = Ret (of_nat k)" if "k < 2 ^ 64" for k
  proof -
    have "ucast (of_nat k :: u64) = (of_nat k :: u16)"
      by (rule bit_word_eqI) (simp add: bit_simps)
    with that stoull_decimal [of "[]" k] show ?thesis by (simp add: port_of_def no_digit_def)
  qed
  obtain ps v where "build_processor_chain E w specs rv = Ret (Some ps, v)"
  proof -
    from assms(1) build_from_ok [of E w specs rv "[]"] build_from_ok [of E w "rev specs" rv "[]"]
    have "\<exists>ps v. build_processor_chain E w specs rv = Ret (Some ps, v)"
      by (cases "specs = []"; cases rv) (simp_all add: build_processor_chain_def Let_def)
    with that show thesis by blast
  qed
  with assms show ?thesis by (simp only: run_tunnel_def at) (simp add: port)
qed

theorem run_tunnel_listens_witness:
  "run_tunnel example_ext 0 (\<lambda>ip. if ip = ''h'' then Some True else None) (\<lambda>_. True)
     (''h'' @ '':'' @ decimal 65616) (''h'' @ '':'' @ decimal 443) [''identity''] False =
   Listening (True, 80) (True, 443)"
  using run_tunnel_listens [of "[''identity'']" 65616 443 "\<lambda>ip. if ip = ''h'' then Some True else None"
      "''h''" True "''h''" True "\<lambda>_. True" example_ext 0 False]
  by (simp add: spec_ok_def spec_name_def)

end
