(* ===== verification/Udp.thy ===== *)
theory Udp
  imports Prelude
begin

section \<open>The UDP commands\<close>

text \<open>
  \<^verbatim>\<open>udp_sender.cpp\<close> and \<^verbatim>\<open>udp_server.cpp\<close>. The network is a parameter: what
  \<^verbatim>\<open>make_address\<close>, \<^verbatim>\<open>open\<close> and \<^verbatim>\<open>async_send_to\<close> do, each with the text of the
  exception when it throws; the server is run on the results of its receives.
\<close>

record 'a udp_net =
  udp_make_address :: "string \<Rightarrow> string + 'a"
  udp_open :: "string option"
  udp_send_to :: "'a \<times> u16 \<Rightarrow> string \<Rightarrow> string option"

record SendResult =
  success :: bool
  error :: string

text \<open>\<open>Inl\<close> is the exception that leaves the coroutine.\<close>

definition do_send :: "'a udp_net \<Rightarrow> string \<Rightarrow> u16 \<Rightarrow> string \<Rightarrow> string + unit" where
  "do_send net ip port message =
     (case udp_make_address net ip of
        Inl e \<Rightarrow> Inl e
      | Inr a \<Rightarrow>
          (case udp_open net of
             Some e \<Rightarrow> Inl e
           | None \<Rightarrow>
               (case udp_send_to net (a, port) message of
                  Some e \<Rightarrow> Inl e
                | None \<Rightarrow> Inr ())))"

definition send_udp :: "'a udp_net \<Rightarrow> string \<Rightarrow> u16 \<Rightarrow> string \<Rightarrow> SendResult" where
  "send_udp net ip port message =
     (case do_send net ip port message of
        Inl what \<Rightarrow> \<lparr>success = False, error = what\<rparr>
      | Inr _ \<Rightarrow> \<lparr>success = True, error = []\<rparr>)"

text \<open>
  The server: the log lines it writes, and whether the process has exited, which it does
  with \<^verbatim>\<open>EXIT_FAILURE\<close> as soon as the coroutine ends. A receive gives at most the
  65536 bytes of the buffer.
\<close>

datatype udp_log = UdpListening u16 | UdpMessage string u16 string | UdpError string

fun do_serve :: "(string + string \<times> u16 \<times> string) list \<Rightarrow> udp_log list \<times> string option" where
  "do_serve [] = ([], None)"
| "do_serve (Inl e # rs) = ([], Some e)"
| "do_serve (Inr (addr, port, msg) # rs) =
     (let (log, ended) = do_serve rs in (UdpMessage addr port (take 65536 msg) # log, ended))"

text \<open>The socket is opened and bound first; \<open>bind\<close> is its failure, if any.\<close>

definition serve_udp :: "u16 \<Rightarrow> string option \<Rightarrow> (string + string \<times> u16 \<times> string) list
    \<Rightarrow> udp_log list \<times> nat option" where
  "serve_udp port bind rs =
     (let (log, ended) = (case bind of Some e \<Rightarrow> ([], Some e) | None \<Rightarrow> do_serve rs)
      in case ended of
           None \<Rightarrow> (UdpListening port # log, None)
         | Some e \<Rightarrow> (UdpListening port # log @ [UdpError e], Some 1))"

lemma do_serve_append:
  "do_serve (rs @ rs') = (case do_serve rs of
     (log, None) \<Rightarrow> (case do_serve rs' of (log', e) \<Rightarrow> (log @ log', e))
   | (log, Some e) \<Rightarrow> (log, Some e))"
  by (induction rs rule: do_serve.induct) (auto split: prod.splits option.splits)

lemma do_serve_messages:
  "do_serve (map Inr ms) = (map (\<lambda>(a, p, m). UdpMessage a p (take 65536 m)) ms, None)"
  by (induction ms) auto

subsection \<open>Properties\<close>

text \<open>
  Sending reports success exactly when the address parses, the socket opens
  and the send of the whole message to that address and port completes, and reports the
  text of the first failure otherwise; no exception leaves the function.
\<close>

theorem send_udp_reports:
  "success (send_udp net ip port message) \<longleftrightarrow>
     (\<exists>a. udp_make_address net ip = Inr a) \<and> udp_open net = None \<and>
     udp_send_to net (projr (udp_make_address net ip), port) message = None"
  by (auto simp: send_udp_def do_send_def split: sum.splits option.splits)

text \<open>
  The UDP server logs every datagram before the first receive error, in order,
  and the error ends the process with the failure code after a line that names it; nothing
  is received after that.
\<close>

theorem serve_udp_logs_until_error:
  "serve_udp port None (map Inr ms @ Inl e # rs) =
     (UdpListening port # map (\<lambda>(a, p, m). UdpMessage a p (take 65536 m)) ms @ [UdpError e], Some 1) \<and>
   serve_udp port None (map Inr ms) =
     (UdpListening port # map (\<lambda>(a, p, m). UdpMessage a p (take 65536 m)) ms, None)"
  by (simp add: serve_udp_def do_serve_append do_serve_messages)

end
