(* ===== verification/Relay_Frame.thy ===== *)
theory Relay_Frame
  imports Text External
begin

section \<open>The frames of the relay protocol\<close>

text \<open>
  The codec of \<^verbatim>\<open>relay.cpp\<close>: methods, frames, their bytes, the bodies that carry a uuid,
  and the uuids. \<^verbatim>\<open>enum Method : Byte\<close> has a fixed underlying type, so a \<^verbatim>\<open>Method\<close>
  can hold any byte; the enumerators are constants (\<open>FRAME_EOF\<close> is \<^verbatim>\<open>EOF_\<close>).
\<close>

type_synonym Method = Byte

definition REGISTER :: Method where "REGISTER = 0x01"
definition READY :: Method where "READY = 0x02"
definition NEW_SESSION :: Method where "NEW_SESSION = 0x03"
definition FORWARD_SESSION :: Method where "FORWARD_SESSION = 0x04"
definition SESSION_OK :: Method where "SESSION_OK = 0x05"
definition SESSION_ERR :: Method where "SESSION_ERR = 0x06"
definition DATA :: Method where "DATA = 0x10"
definition DATA_EOF :: Method where "DATA_EOF = 0x11"
definition SESSION_CLOSE :: Method where "SESSION_CLOSE = 0x12"
definition FRAME_EOF :: Method where "FRAME_EOF = 0xFF"

lemmas method_defs = REGISTER_def READY_def NEW_SESSION_def FORWARD_SESSION_def SESSION_OK_def
  SESSION_ERR_def DATA_def DATA_EOF_def SESSION_CLOSE_def FRAME_EOF_def

definition UUID_BYTES :: nat where "UUID_BYTES = 36"

record Frame =
  frame_method :: Method
  frame_body :: ByteVector

definition mk_frame :: "Method \<Rightarrow> ByteVector \<Rightarrow> Frame" where
  "mk_frame m b = \<lparr>frame_method = m, frame_body = b\<rparr>"

subsection \<open>Reading\<close>

text \<open>
  \<^verbatim>\<open>read_frame\<close> on the bytes a socket has delivered and not yet given to a reader.
  \<open>ended\<close> says that no more will come (end of stream or an error). The header's read
  reports its error, the payload's throws; while bytes may still come the coroutine waits.
\<close>

datatype frame_read =
  GotFrame Frame ByteVector
| NoFrame
| ReadThrows
| Waiting

definition read_frame :: "bool \<Rightarrow> ByteVector \<Rightarrow> frame_read" where
  "read_frame ended bs =
     (if length bs < 4 then (if ended then NoFrame else Waiting)
      else let len = of_be32 (bs ! 0) (bs ! 1) (bs ! 2) (bs ! 3)
           in if len < 1 then NoFrame
              else if length bs - 4 < unat len then (if ended then ReadThrows else Waiting)
              else let payload = take (unat len) (drop 4 bs)
                   in GotFrame (mk_frame (payload ! 0) (drop 1 payload)) (drop (4 + unat len) bs))"

subsection \<open>Writing\<close>

text \<open>\<^verbatim>\<open>write_frame\<close> gathers three buffers; \<^verbatim>\<open>build_frame_bytes\<close> fills one.\<close>

definition write_frame :: "Method \<Rightarrow> ByteVector \<Rightarrow> ByteVector" where
  "write_frame m data =
     (let total = (of_nat (1 + length data) :: u32);
          hdr = [ucast (drop_bit 24 total AND 0xFF), ucast (drop_bit 16 total AND 0xFF),
                 ucast (drop_bit 8 total AND 0xFF), ucast (total AND 0xFF)];
          method_byte = m
      in hdr @ [method_byte] @ data)"

definition build_frame_bytes :: "Method \<Rightarrow> ByteVector \<Rightarrow> ByteVector" where
  "build_frame_bytes m data =
     (let total = (of_nat (1 + length data) :: u32);
          frame = [] @ [ucast (drop_bit 24 total AND 0xFF)];
          frame = frame @ [ucast (drop_bit 16 total AND 0xFF)];
          frame = frame @ [ucast (drop_bit 8 total AND 0xFF)];
          frame = frame @ [ucast (total AND 0xFF)];
          frame = frame @ [m]
      in if length data > 0 then frame @ data else frame)"

definition build_uuid_body :: "string \<Rightarrow> ByteVector" where
  "build_uuid_body uuid = bytes_of_string uuid"

definition build_uuid_data_body :: "string \<Rightarrow> ByteVector \<Rightarrow> ByteVector" where
  "build_uuid_data_body uuid data =
     (let body = bytes_of_string uuid in if length data > 0 then body @ data else body)"

subsection \<open>Uuids\<close>

text \<open>\<^verbatim>\<open>%0nx\<close> of \<^verbatim>\<open>snprintf\<close>: the hexadecimal digits, filled with zeros to \<open>n\<close> places.\<close>

definition hex_char :: "nat \<Rightarrow> char" where
  "hex_char d = char_of (if d < 10 then 48 + d else 87 + d)"

fun hex_digits :: "nat \<Rightarrow> string" where
  "hex_digits v = (if v < 16 then [hex_char v] else hex_digits (v div 16) @ [hex_char (v mod 16)])"

declare hex_digits.simps [simp del]

definition printf_hex :: "nat \<Rightarrow> nat \<Rightarrow> string" where
  "printf_hex n v = replicate (n - length (hex_digits v)) (CHR ''0'') @ hex_digits v"

text \<open>The static generator is seeded once, from a 32-bit random word.\<close>

definition uuid_rng :: "'w ext \<Rightarrow> 'w \<Rightarrow> mt19937_64 \<times> 'w" where
  "uuid_rng E w = (let (r, w) = random_device E w in (mt_seed (ucast r), w))"

definition generate_uuid :: "mt19937_64 \<Rightarrow> string \<times> mt19937_64" where
  "generate_uuid rng =
     (let (hi, rng) = mt_next rng;
          (lo, rng) = mt_next rng;
          hi = hi AND NOT 0xF000;
          hi = hi OR 0x4000;
          lo = lo AND NOT 0xC000000000000000;
          lo = lo OR 0x8000000000000000;
          buf = printf_hex 8 (unat (drop_bit 32 hi)) @ ''-''
              @ printf_hex 4 (unat (drop_bit 16 hi AND 0xFFFF)) @ ''-''
              @ printf_hex 4 (unat (hi AND 0xFFFF)) @ ''-''
              @ printf_hex 4 (unat (drop_bit 48 lo AND 0xFFFF)) @ ''-''
              @ printf_hex 12 (unat (lo AND 0x0000FFFFFFFFFFFF))
      in (take UUID_BYTES buf, rng))"

subsection \<open>The codec\<close>

lemma write_frame_be32: "write_frame m data = be32 (of_nat (1 + length data)) @ m # data"
  by (simp add: write_frame_def be32_def Let_def)

lemma build_frame_bytes_write_frame: "build_frame_bytes m data = write_frame m data"
  by (simp add: build_frame_bytes_def write_frame_def Let_def)

definition fits_frame :: "ByteVector \<Rightarrow> bool" where
  "fits_frame data \<longleftrightarrow> length data < 4294967295"

lemma read_frame_written:
  assumes "fits_frame data"
  shows "read_frame ended (write_frame m data @ rest) = GotFrame (mk_frame m data) rest"
proof -
  define v :: u32 where "v = of_nat (1 + length data)"
  define bs where "bs = be32 v @ m # data @ rest"
  have n: "unat v = 1 + length data" using assms unfolding v_def unat_of_nat by (simp add: fits_frame_def)
  have hd: "of_be32 (bs ! 0) (bs ! 1) (bs ! 2) (bs ! 3) = v"
    using of_be32_be32 [of v] by (simp add: bs_def nth_append)
  have cut: "length bs = 5 + length data + length rest" "take (unat v) (drop 4 bs) = m # data"
    "drop (4 + unat v) bs = rest"
    by (simp_all add: bs_def n)
  have pos: "\<not> v < 1"
  proof
    assume "v < 1"
    then have "unat v < 1" by (simp add: word_less_nat_alt)
    with n show False by simp
  qed
  have "read_frame ended bs = GotFrame (mk_frame m data) rest"
    unfolding read_frame_def Let_def hd cut(2,3) using n pos cut(1) by simp
  then show ?thesis by (simp add: bs_def write_frame_be32 v_def)
qed

lemma read_frame_Got:
  "read_frame ended bs = GotFrame f rest \<longleftrightarrow>
    (let len = of_be32 (bs ! 0) (bs ! 1) (bs ! 2) (bs ! 3); payload = take (unat len) (drop 4 bs)
     in 4 \<le> length bs \<and> \<not> len < 1 \<and> unat len \<le> length bs - 4 \<and>
        f = mk_frame (payload ! 0) (drop 1 payload) \<and> rest = drop (4 + unat len) bs)"
  unfolding read_frame_def Let_def by (simp only: split: if_split) (auto simp only: frame_read.simps not_less)

lemma read_frame_append:
  assumes "read_frame False bs = GotFrame f rest"
  shows "read_frame ended (bs @ tail) = GotFrame f (rest @ tail)"
proof -
  define len where "len = of_be32 (bs ! 0) (bs ! 1) (bs ! 2) (bs ! 3)"
  from assms have l: "4 \<le> length bs" "\<not> len < 1" "unat len \<le> length bs - 4"
    "f = mk_frame (take (unat len) (drop 4 bs) ! 0) (drop 1 (take (unat len) (drop 4 bs)))"
    "rest = drop (4 + unat len) bs"
    unfolding read_frame_Got Let_def len_def by blast+
  moreover from l(1) have "bs \<noteq> []" by auto
  ultimately have "of_be32 ((bs @ tail) ! 0) ((bs @ tail) ! 1) ((bs @ tail) ! 2) ((bs @ tail) ! 3) = len"
    by (simp add: nth_append len_def)
  with l show ?thesis unfolding read_frame_Got Let_def by simp
qed

lemma read_frame_shorter: "read_frame ended bs = GotFrame f rest \<Longrightarrow> length rest < length bs"
  by (auto simp: read_frame_Got Let_def)

text \<open>The frames of a delivered byte string, one \<^verbatim>\<open>read_frame\<close> after the other.\<close>

function read_frames :: "ByteVector \<Rightarrow> Frame list \<times> ByteVector" where
  "read_frames bs = (case read_frame False bs of
     GotFrame f rest \<Rightarrow> (let (fs, r) = read_frames rest in (f # fs, r))
   | _ \<Rightarrow> ([], bs))"
  by pat_completeness auto
termination
  by (relation "measure length") (auto dest: read_frame_shorter)

declare read_frames.simps [simp del]

lemma read_frames_written:
  "\<forall>f\<in>set fs. fits_frame (frame_body f) \<Longrightarrow>
    read_frames (concat (map (\<lambda>f. write_frame (frame_method f) (frame_body f)) fs)) = (fs, [])"
proof (induction fs)
  case Nil
  then show ?case by (simp add: read_frames.simps read_frame_def)
next
  case (Cons f fs)
  then show ?case
    by (simp add: read_frames.simps [of "write_frame _ _ @ _"] read_frame_written mk_frame_def)
qed

subsection \<open>Uuid text\<close>

lemma length_hex_digits: "v < 16 ^ n \<Longrightarrow> 0 < n \<Longrightarrow> length (hex_digits v) \<le> n"
proof (induction v arbitrary: n rule: hex_digits.induct)
  case (1 v)
  show ?case
  proof (cases "v < 16")
    case True
    with 1 show ?thesis by (simp add: hex_digits.simps [of v])
  next
    case False
    with "1.prems" obtain k where k: "n = Suc k" "0 < k"
      by (cases n; cases "n - 1") auto
    with "1.prems" have "v div 16 < 16 ^ k" by (simp add: less_mult_imp_div_less mult.commute)
    with 1 False k show ?thesis by (simp add: hex_digits.simps [of v])
  qed
qed

lemma length_printf_hex: "v < 16 ^ n \<Longrightarrow> 0 < n \<Longrightarrow> length (printf_hex n v) = n"
  using length_hex_digits [of v n] by (simp add: printf_hex_def)

lemma unat_and_mask: "unat (x AND mask n :: u64) < 2 ^ n"
proof -
  have "unat (x AND mask n) = take_bit n (unat x)"
    unfolding take_bit_eq_mask [symmetric] by (rule unsigned_take_bit_eq)
  then show ?thesis by simp
qed

lemma hex_digits_four:
  assumes "16 ^ 3 \<le> v" "v < 16 ^ 4"
  shows "length (hex_digits v) = 4" "hex_digits v ! 0 = hex_char (v div 4096)"
proof -
  have d: "v div 16 div 16 = v div 256" "v div 256 div 16 = v div 4096" by (simp_all add: div_mult2_eq [symmetric])
  have lt: "\<not> v < 16" "\<not> v div 16 < 16" "\<not> v div 256 < 16" "v div 4096 < 16"
    using assms by (simp_all add: not_less less_eq_div_iff_mult_less_eq div_less_iff_less_mult)
  have "hex_digits v = [hex_char (v div 4096), hex_char (v div 256 mod 16), hex_char (v div 16 mod 16), hex_char (v mod 16)]"
    using lt d by (simp add: hex_digits.simps [of v] hex_digits.simps [of "v div 16"]
        hex_digits.simps [of "v div 256"] hex_digits.simps [of "v div 4096"])
  then show "length (hex_digits v) = 4" "hex_digits v ! 0 = hex_char (v div 4096)" by simp_all
qed

lemma printf_hex_four:
  "16 ^ 3 \<le> v \<Longrightarrow> v < 16 ^ 4 \<Longrightarrow> printf_hex 4 v ! 0 = hex_char (v div 4096)"
  by (simp add: printf_hex_def hex_digits_four)

lemma bit_four: "bit (4 :: int) n \<longleftrightarrow> n = 2"
proof -
  have "bit (push_bit 2 (1 :: int)) n \<longleftrightarrow> n = 2"
    unfolding bit_push_bit_iff by (auto simp: bit_1_iff)
  then show ?thesis by simp
qed

lemma uuid_version_field:
  "unat ((hi AND NOT 0xF000 OR 0x4000 :: u64) AND 0xFFFF) div 4096 = 4"
proof -
  have m: "(0xFFFF :: u64) = mask 16" "(0xF000 :: u64) = push_bit 12 (mask 4)" "(0x4000 :: u64) = push_bit 14 1"
    by (simp_all add: mask_eq_exp_minus_1)
  have "drop_bit 12 ((hi AND NOT 0xF000 OR 0x4000 :: u64) AND 0xFFFF) = 4"
    unfolding m by (rule bit_word_eqI) (auto simp: bit_simps bit_four)
  then have "unat (drop_bit 12 ((hi AND NOT 0xF000 OR 0x4000 :: u64) AND 0xFFFF)) = 4"
    by (simp only:) simp
  then have "drop_bit 12 (unat ((hi AND NOT 0xF000 OR 0x4000 :: u64) AND 0xFFFF)) = 4"
    by (simp only: unat_drop_bit_eq)
  then show ?thesis by (simp only: drop_bit_eq_div) simp
qed

lemma uuid_variant_field:
  "unat (drop_bit 48 (lo AND NOT 0xC000000000000000 OR 0x8000000000000000 :: u64) AND 0xFFFF) div 4096 \<in> {8..<12}"
proof -
  let ?w = "drop_bit 48 (lo AND NOT 0xC000000000000000 OR 0x8000000000000000 :: u64) AND 0xFFFF"
  have m: "(0xFFFF :: u64) = mask 16" "(0xC000000000000000 :: u64) = push_bit 62 (mask 2)"
    "(0x8000000000000000 :: u64) = push_bit 63 1" by (simp_all add: mask_eq_exp_minus_1)
  have "drop_bit 14 ?w = push_bit 1 1"
    unfolding m by (rule bit_word_eqI) (auto simp: bit_simps)
  then have "unat (drop_bit 14 ?w) = 2" by (simp only:) simp
  then have "drop_bit 14 (unat ?w) = 2" by (simp only: unat_drop_bit_eq)
  then have "unat ?w div 16384 = 2" by (simp only: drop_bit_eq_div) simp
  then have "unat ?w div 4096 \<ge> 8" "unat ?w div 4096 < 12" by linarith+
  then show ?thesis by simp
qed

lemma printf_hex_lead:
  assumes "v div 4096 = d" "0 < d" "d < 16"
  shows "printf_hex 4 v ! 0 = hex_char d" "length (printf_hex 4 v) = 4"
proof -
  have "v div 4096 \<noteq> 0" "v div 4096 < 16" using assms by auto
  then have "16 ^ 3 \<le> v" "v < 16 ^ 4" by (simp_all add: div_less_iff_less_mult)
  with assms show "printf_hex 4 v ! 0 = hex_char d" "length (printf_hex 4 v) = 4"
    by (simp_all add: printf_hex_four length_printf_hex)
qed

lemma uuid_shape:
  assumes "length a = 8" "length b = 4" "length c = 4" "length d = 4" "length e = 12"
  defines "buf \<equiv> a @ ''-'' @ b @ ''-'' @ c @ ''-'' @ d @ ''-'' @ e"
  shows "take UUID_BYTES buf = buf" "length buf = UUID_BYTES" "buf ! 8 = CHR ''-''" "buf ! 13 = CHR ''-''"
    "buf ! 18 = CHR ''-''" "buf ! 23 = CHR ''-''" "buf ! 14 = c ! 0" "buf ! 19 = d ! 0"
  using assms by (simp_all add: UUID_BYTES_def buf_def nth_append)

lemma unat_less_8: "unat (drop_bit 32 (x :: u64)) < 16 ^ 8"
proof -
  have "unat x < 2 ^ 64" using unsigned_less [of x] by simp
  then have "unat x div 2 ^ 32 < 2 ^ 32" by (simp add: less_mult_imp_div_less)
  then have "drop_bit 32 (unat x) < 2 ^ 32" by (simp only: drop_bit_eq_div)
  then have "unat (drop_bit 32 x) < 2 ^ 32" by (simp only: unat_drop_bit_eq)
  then show ?thesis by simp
qed

lemma unat_field:
  "unat (x AND 0xFFFF :: u64) < 16 ^ 4" "unat (x AND 0x0000FFFFFFFFFFFF :: u64) < 16 ^ 12"
  using unat_and_mask [of x 16] unat_and_mask [of x 48] by (simp_all add: mask_eq_exp_minus_1)

lemma generate_uuid_shape:
  assumes "generate_uuid rng = (uuid, rng')"
  shows "length uuid = UUID_BYTES" "\<forall>i\<in>{8, 13, 18, 23}. uuid ! i = CHR ''-''"
    "uuid ! 14 = CHR ''4''" "uuid ! 19 \<in> {CHR ''8'', CHR ''9'', CHR ''a'', CHR ''b''}"
proof -
  obtain hi r1 where 1: "mt_next rng = (hi, r1)" by (rule prod.exhaust)
  obtain lo r2 where 2: "mt_next r1 = (lo, r2)" by (rule prod.exhaust)
  let ?hi = "hi AND NOT 0xF000 OR 0x4000" and ?lo = "lo AND NOT 0xC000000000000000 OR 0x8000000000000000"
  let ?a = "printf_hex 8 (unat (drop_bit 32 ?hi))" and ?b = "printf_hex 4 (unat (drop_bit 16 ?hi AND 0xFFFF))"
    and ?c = "printf_hex 4 (unat (?hi AND 0xFFFF))" and ?d = "printf_hex 4 (unat (drop_bit 48 ?lo AND 0xFFFF))"
    and ?e = "printf_hex 12 (unat (?lo AND 0x0000FFFFFFFFFFFF))"
  have len: "length ?a = 8" "length ?b = 4" "length ?c = 4" "length ?d = 4" "length ?e = 12"
    by (rule length_printf_hex [OF unat_less_8]; simp only:; simp)
      (rule length_printf_hex [OF unat_field(1)] length_printf_hex [OF unat_field(2)]; simp)+
  note shape = uuid_shape [OF len]
  have u: "uuid = ?a @ ''-'' @ ?b @ ''-'' @ ?c @ ''-'' @ ?d @ ''-'' @ ?e"
    using assms unfolding generate_uuid_def 1 2 Let_def prod.case shape(1) by (rule sym [OF prod.inject [THEN iffD1, THEN conjunct1]])
  have c: "?c ! 0 = CHR ''4''"
    using printf_hex_lead(1) [OF uuid_version_field [of hi]] by (simp add: hex_char_def char_of_def bit_simps)
  obtain n where n: "unat (drop_bit 48 ?lo AND 0xFFFF) div 4096 = n" "8 \<le> n" "n < 12"
    using uuid_variant_field [of lo] by (meson atLeastLessThan_iff)
  then have "n = 8 \<or> n = 9 \<or> n = 10 \<or> n = 11" by auto
  then have d: "?d ! 0 \<in> {CHR ''8'', CHR ''9'', CHR ''a'', CHR ''b''}"
    using printf_hex_lead(1) [OF n(1)] by (auto simp: hex_char_def char_of_def bit_simps)
  show "length uuid = UUID_BYTES" "\<forall>i\<in>{8, 13, 18, 23}. uuid ! i = CHR ''-''"
    "uuid ! 14 = CHR ''4''" "uuid ! 19 \<in> {CHR ''8'', CHR ''9'', CHR ''a'', CHR ''b''}"
    unfolding u using shape(2-) c d by (simp_all only: ball_simps simp_thms)
qed

subsection \<open>Properties\<close>

text \<open>
  Property C37. Frames survive the stream: the bytes of any frames whose bodies are shorter
  than 2^32 - 1 bytes, written by either writer, are read back as those frames with no byte
  left; and a frame that can be read from the bytes delivered so far is read the same
  whatever arrives behind it, so that the segmentation of the stream does not matter.
\<close>

theorem frames_roundtrip:
  assumes "\<forall>f\<in>set fs. fits_frame (frame_body f)"
  shows "read_frames (concat (map (\<lambda>f. write_frame (frame_method f) (frame_body f)) fs)) = (fs, []) \<and>
    read_frames (concat (map (\<lambda>f. build_frame_bytes (frame_method f) (frame_body f)) fs)) = (fs, []) \<and>
    (read_frame False bs = GotFrame f rest \<longrightarrow> read_frame ended (bs @ tail) = GotFrame f (rest @ tail))"
  using read_frames_written [OF assms] by (simp add: build_frame_bytes_write_frame read_frame_append)

theorem frames_roundtrip_witness:
  "read_frames (build_frame_bytes DATA [1, 2] @ build_frame_bytes READY []) =
    ([mk_frame DATA [1, 2], mk_frame READY []], []) \<and>
   read_frame True (build_frame_bytes READY [] @ [9, 9]) = GotFrame (mk_frame READY []) [9, 9]"
proof -
  have got: "read_frame False (build_frame_bytes READY []) = GotFrame (mk_frame READY []) []"
    by (simp add: read_frame_def build_frame_bytes_def of_be32_def mk_frame_def)
  show ?thesis
    using frames_roundtrip [of "[mk_frame DATA [1, 2], mk_frame READY []]" "build_frame_bytes READY []"
        "mk_frame READY []" "[]" True "[9, 9]"] got
    by (simp add: fits_frame_def mk_frame_def)
qed

text \<open>
  Every uuid the visitor makes, from any state of the generator, is the text of
  a version 4 uuid: 36 characters with dashes at the usual places, a 4 as the version digit
  and 8, 9, a or b as the variant digit; so it fills exactly the uuid field of a frame
  body, and the reader's cut at 36 bytes gives the uuid and the data back.
\<close>

theorem uuid_fills_its_field:
  assumes "generate_uuid rng = (uuid, rng')"
  shows "length uuid = UUID_BYTES \<and> (\<forall>i\<in>{8, 13, 18, 23}. uuid ! i = CHR ''-'') \<and>
    uuid ! 14 = CHR ''4'' \<and> uuid ! 19 \<in> {CHR ''8'', CHR ''9'', CHR ''a'', CHR ''b''} \<and>
    take UUID_BYTES (build_uuid_data_body uuid data) = build_uuid_body uuid \<and>
    drop UUID_BYTES (build_uuid_data_body uuid data) = data"
  using generate_uuid_shape [OF assms]
  by (cases "data = []") (simp_all add: build_uuid_data_body_def build_uuid_body_def bytes_of_string_def Let_def)

theorem uuid_fills_its_field_witness:
  "\<exists>uuid rng'. generate_uuid (mt_seed 5) = (uuid, rng') \<and> length uuid = 36 \<and>
    drop UUID_BYTES (build_uuid_data_body uuid [1, 2]) = [1, 2]"
proof -
  obtain uuid rng' where u: "generate_uuid (mt_seed 5) = (uuid, rng')" by (rule prod.exhaust)
  from uuid_fills_its_field [OF u, of "[1, 2]"] u show ?thesis by (simp add: UUID_BYTES_def)
qed

end
