(* ===== verification/Relay_Server.thy ===== *)
theory Relay_Server
  imports Relay_Frame Socket Transition "HOL-Library.Sublist"
begin

section \<open>The relay server\<close>

text \<open>
  Role A of \<^verbatim>\<open>relay.cpp\<close>. Connections are numbered in the order of their accepts; the
  number of a connection stands for the \<^verbatim>\<open>shared_ptr<Peer>\<close> made for it. The state holds,
  for every connection, its socket and where the coroutine that registers it is suspended;
  the map \<^verbatim>\<open>pairs\<close>; and, for every id and direction, where the coroutine that pumps
  frames is suspended (\<open>True\<close> is from B to C). The event loop has one thread, so each
  resumption of a coroutine is one atomic function; \<^verbatim>\<open>dead_mtx\<close> plays no role.
  \<open>received\<close> records the frames a pump has read from a connection.
\<close>

subsection \<open>State\<close>

record Match =
  mb :: "nat option"
  mc :: "nat option"
  dead :: bool

definition new_match :: Match where
  "new_match = \<lparr>mb = None, mc = None, dead = False\<rparr>"

datatype reg_pc = NotAccepted | RegReading | RegRejecting | RegReadyB string | RegReadyC string | RegEnded

datatype pump_pc = NoPump | PumpReading | PumpForwarding ByteVector | PumpEof | PumpLast | PumpEnded

record server =
  socks :: "nat \<Rightarrow> sock"
  regs :: "nat \<Rightarrow> reg_pc"
  peers :: "nat \<rightharpoonup> string \<times> char"
  pairs :: "string \<rightharpoonup> Match"
  pumps :: "string \<Rightarrow> bool \<Rightarrow> pump_pc"
  received :: "nat \<Rightarrow> Frame list"

definition server_start :: server where
  "server_start = \<lparr>socks = \<lambda>_. fresh_sock, regs = \<lambda>_. NotAccepted, peers = Map.empty,
     pairs = Map.empty, pumps = \<lambda>_ _. NoPump, received = \<lambda>_. []\<rparr>"

definition set_pump :: "server \<Rightarrow> string \<Rightarrow> bool \<Rightarrow> pump_pc \<Rightarrow> server" where
  "set_pump s tid d pc = s\<lparr>pumps := (pumps s)(tid := (pumps s tid)(d := pc))\<rparr>"

definition set_reg :: "server \<Rightarrow> nat \<Rightarrow> reg_pc \<Rightarrow> server" where
  "set_reg s k pc = s\<lparr>regs := (regs s)(k := pc)\<rparr>"

definition upd_sock :: "server \<Rightarrow> nat \<Rightarrow> (sock \<Rightarrow> sock) \<Rightarrow> server" where
  "upd_sock s k f = s\<lparr>socks := (socks s)(k := f (socks s k))\<rparr>"

subsection \<open>Registration\<close>

text \<open>The body of a REGISTER frame, \<^verbatim>\<open>"id B"\<close> or \<^verbatim>\<open>"id C"\<close>.\<close>

definition parse_register :: "ByteVector \<Rightarrow> (string \<times> char) option" where
  "parse_register b =
     (if b = [] then None
      else let view = string_of_bytes b
           in case find_char CHR '' '' view of
                None \<Rightarrow> None
              | Some sp \<Rightarrow>
                  if sp + 2 > length view then None
                  else let tid = take sp view; role = view ! (sp + 1)
                       in if role \<noteq> CHR ''B'' \<and> role \<noteq> CHR ''C'' then None else Some (tid, role))"

text \<open>The coroutine ends before a \<^verbatim>\<open>Peer\<close> owns the socket, or drops the only owner.\<close>

definition reg_drop :: "server \<Rightarrow> nat \<Rightarrow> server" where
  "reg_drop s k = set_reg (upd_sock s k sock_close) k RegEnded"

definition register :: "server \<Rightarrow> nat \<Rightarrow> string \<Rightarrow> char \<Rightarrow> server" where
  "register s k tid role =
     (let s = s\<lparr>peers := (peers s)(k \<mapsto> (tid, role))\<rparr>;
          m = (case pairs s tid of None \<Rightarrow> new_match | Some m \<Rightarrow> m)
      in if (role = CHR ''B'' \<and> mb m \<noteq> None) \<or> (role = CHR ''C'' \<and> mc m \<noteq> None)
         then set_reg (s\<lparr>pairs := (pairs s)(tid \<mapsto> m)\<rparr>) k RegRejecting
         else let m = (if role = CHR ''B'' then m\<lparr>mb := Some k\<rparr> else m\<lparr>mc := Some k\<rparr>);
                  s = s\<lparr>pairs := (pairs s)(tid \<mapsto> m)\<rparr>
              in if mb m \<noteq> None \<and> mc m \<noteq> None then set_reg s k (RegReadyB tid)
                 else set_reg s k RegEnded)"

definition reg_frame :: "server \<Rightarrow> nat \<Rightarrow> frame_read \<Rightarrow> server" where
  "reg_frame s k r = (case r of
     GotFrame f rest \<Rightarrow>
       if frame_method f \<noteq> REGISTER then reg_drop s k
       else (case parse_register (frame_body f) of
               None \<Rightarrow> reg_drop s k
             | Some (tid, role) \<Rightarrow> register s k tid role)
   | NoFrame \<Rightarrow> reg_drop s k
   | ReadThrows \<Rightarrow> reg_drop s k
   | Waiting \<Rightarrow> s)"

text \<open>
  The writes of the coroutine: EOF to a duplicate, else READY to B and then to C, after
  which the two pumps start. A write that throws ends the coroutine.
\<close>

definition reg_target :: "server \<Rightarrow> nat \<Rightarrow> nat option" where
  "reg_target s k = (case regs s k of
     RegRejecting \<Rightarrow> Some k
   | RegReadyB tid \<Rightarrow> Option.bind (pairs s tid) mb
   | RegReadyC tid \<Rightarrow> Option.bind (pairs s tid) mc
   | _ \<Rightarrow> None)"

definition reg_written :: "server \<Rightarrow> nat \<Rightarrow> nat \<Rightarrow> write_result \<Rightarrow> server" where
  "reg_written s k t r = (case regs s k of
     RegRejecting \<Rightarrow> reg_drop (upd_sock s t (wrote r (write_frame FRAME_EOF []))) k
   | RegReadyB tid \<Rightarrow>
       (let s = upd_sock s t (wrote r (write_frame READY []))
        in set_reg s k (if r = WriteOk then RegReadyC tid else RegEnded))
   | RegReadyC tid \<Rightarrow>
       (let s = upd_sock s t (wrote r (write_frame READY []))
        in if r = WriteOk
           then set_reg (set_pump (set_pump s tid True PumpReading) tid False PumpReading) k RegEnded
           else set_reg s k RegEnded)
   | _ \<Rightarrow> s)"

subsection \<open>The pumps\<close>

definition pump_from :: "server \<Rightarrow> string \<Rightarrow> bool \<Rightarrow> nat option" where
  "pump_from s tid d = Option.bind (pairs s tid) (if d then mb else mc)"

definition pump_to :: "server \<Rightarrow> string \<Rightarrow> bool \<Rightarrow> nat option" where
  "pump_to s tid d = Option.bind (pairs s tid) (if d then mc else mb)"

text \<open>What is written for a frame: only NEW_SESSION from B is translated.\<close>

definition forwarded :: "char \<Rightarrow> Frame \<Rightarrow> ByteVector" where
  "forwarded role f =
     (if frame_method f = NEW_SESSION \<and> role = CHR ''B''
      then write_frame FORWARD_SESSION (frame_body f)
      else write_frame (frame_method f) (frame_body f))"

text \<open>After the loop: the first pump of a pair to get here says EOF and closes both ends.\<close>

definition pump_break :: "server \<Rightarrow> string \<Rightarrow> bool \<Rightarrow> server" where
  "pump_break s tid d = (case pairs s tid of
     None \<Rightarrow> s
   | Some m \<Rightarrow>
       (let was_dead = dead m;
            s = s\<lparr>pairs := (pairs s)(tid \<mapsto> m\<lparr>dead := True\<rparr>)\<rparr>
        in set_pump s tid d (if \<not> was_dead then PumpLast else PumpEnded)))"

definition pump_frame :: "server \<Rightarrow> string \<Rightarrow> bool \<Rightarrow> nat \<Rightarrow> frame_read \<Rightarrow> server" where
  "pump_frame s tid d from r = (case r of
     GotFrame f rest \<Rightarrow>
       (let s = s\<lparr>received := (received s)(from := received s from @ [f])\<rparr>
        in if frame_method f = FRAME_EOF then set_pump s tid d PumpEof
           else set_pump s tid d (PumpForwarding
                  (forwarded (case peers s from of Some (i, role) \<Rightarrow> role | None \<Rightarrow> CHR ''?'') f)))
   | NoFrame \<Rightarrow> pump_break s tid d
   | ReadThrows \<Rightarrow> pump_break s tid d
   | Waiting \<Rightarrow> s)"

definition pump_written :: "server \<Rightarrow> string \<Rightarrow> bool \<Rightarrow> nat \<Rightarrow> nat \<Rightarrow> write_result \<Rightarrow> server" where
  "pump_written s tid d from to r = (case pumps s tid d of
     PumpForwarding x \<Rightarrow>
       (let s = upd_sock s to (wrote r x)
        in if r = WriteOk then set_pump s tid d PumpReading else pump_break s tid d)
   | PumpEof \<Rightarrow>
       (let s = upd_sock s to (wrote r (write_frame FRAME_EOF []))
        in if r = WriteOk then pump_break (upd_sock s to sock_close) tid d else pump_break s tid d)
   | PumpLast \<Rightarrow>
       (let s = upd_sock s to (wrote r (write_frame FRAME_EOF []))
        in if r = WriteOk
           then set_pump (upd_sock (upd_sock s to sock_close) from sock_close) tid d PumpEnded
           else set_pump s tid d PumpEnded)
   | _ \<Rightarrow> s)"

subsection \<open>Steps\<close>

text \<open>
  A write to a socket that is closed or whose sending side is gone fails. The socket of a
  pump's last write is closed by nobody else, so one that is unusable was so when the write
  began, and nothing was sent.
\<close>

definition can_write :: "bool \<Rightarrow> sock \<Rightarrow> write_result \<Rightarrow> bool" where
  "can_write final k r \<longleftrightarrow> (unusable k \<longrightarrow> (if final then r = WriteFailed 0 else r \<noteq> WriteOk))"

fun is_got :: "frame_read \<Rightarrow> bool" where
  "is_got (GotFrame f rest) = True"
| "is_got _ = False"

datatype server_event =
  Accept nat
| RegFrame nat frame_read
| RegWritten nat write_result
| PumpFrame string bool frame_read
| PumpWritten string bool write_result

text \<open>
  A move of the outside: a connection is accepted, or an awaited read or write of one of
  the coroutines completes. A frame can come only from an open socket: a completion that is
  queued when another coroutine closes the socket is played before the close.
\<close>

fun server_move :: "server \<Rightarrow> server_event \<Rightarrow> server option" where
  "server_move s (Accept k) = (if regs s k = NotAccepted then Some (set_reg s k RegReading) else None)"
| "server_move s (RegFrame k r) =
     (if regs s k = RegReading \<and> r \<noteq> Waiting then Some (reg_frame s k r) else None)"
| "server_move s (RegWritten k r) = (case reg_target s k of
     None \<Rightarrow> None
   | Some t \<Rightarrow> if can_write False (socks s t) r then Some (reg_written s k t r) else None)"
| "server_move s (PumpFrame tid d r) = (case pump_from s tid d of
     None \<Rightarrow> None
   | Some from \<Rightarrow>
       if pumps s tid d = PumpReading \<and> r \<noteq> Waiting \<and> (is_got r \<longrightarrow> is_open (socks s from))
       then Some (pump_frame s tid d from r) else None)"
| "server_move s (PumpWritten tid d r) = (case (pump_from s tid d, pump_to s tid d) of
     (Some from, Some to) \<Rightarrow>
       if pumps s tid d \<notin> {NoPump, PumpReading, PumpEnded} \<and> can_write (pumps s tid d = PumpLast) (socks s to) r
       then Some (pump_written s tid d from to r) else None
   | _ \<Rightarrow> None)"

inductive server_step :: "server \<Rightarrow> server \<Rightarrow> bool" where
  moved: "server_move s m = Some t \<Longrightarrow> server_step s t"

inductive_cases server_stepE: "server_step s t"

interpretation server: played_moves server_step server_move
  by unfold_locales (rule moved)

subsection \<open>The invariant\<close>

abbreviation ready_bytes :: ByteVector where
  "ready_bytes \<equiv> write_frame READY []"

abbreviation eof_bytes :: ByteVector where
  "eof_bytes \<equiv> write_frame FRAME_EOF []"

text \<open>What a pump writes for the frames it has read.\<close>

definition relay_one :: "bool \<Rightarrow> Frame \<Rightarrow> ByteVector" where
  "relay_one d f = (if frame_method f = FRAME_EOF then eof_bytes
     else forwarded (if d then CHR ''B'' else CHR ''C'') f)"

definition relayed :: "bool \<Rightarrow> Frame list \<Rightarrow> ByteVector" where
  "relayed d fs = ready_bytes @ concat (map (relay_one d) fs)"

lemma relayed_snoc: "relayed d (fs @ [f]) = relayed d fs @ relay_one d f"
  by (simp add: relayed_def)

text \<open>One direction of a pair whose registration is over, from connection \<open>f\<close> to \<open>t\<close>.\<close>

definition pumping :: "server \<Rightarrow> string \<Rightarrow> bool \<Rightarrow> nat \<Rightarrow> nat \<Rightarrow> bool" where
  "pumping s tid d f t \<longleftrightarrow> (case pumps s tid d of
     NoPump \<Rightarrow> received s f = [] \<and> prefix (written (socks s t)) ready_bytes
   | PumpReading \<Rightarrow> written (socks s t) = relayed d (received s f)
   | PumpForwarding x \<Rightarrow> written (socks s t) @ x = relayed d (received s f)
   | PumpEof \<Rightarrow> written (socks s t) @ eof_bytes = relayed d (received s f)
   | PumpLast \<Rightarrow> prefix (written (socks s t)) (relayed d (received s f)) \<and>
       (written (socks s t) = relayed d (received s f) \<or> unusable (socks s t))
   | PumpEnded \<Rightarrow> prefix (written (socks s t)) (relayed d (received s f) @ eof_bytes))"

definition slot_ok :: "server \<Rightarrow> string \<Rightarrow> char \<Rightarrow> nat option \<Rightarrow> bool" where
  "slot_ok s tid role k \<longleftrightarrow> (case k of None \<Rightarrow> True | Some k \<Rightarrow>
     peers s k = Some (tid, role) \<and> regs s k \<in> {RegReadyB tid, RegReadyC tid, RegEnded})"

definition silent :: "server \<Rightarrow> string \<Rightarrow> bool" where
  "silent s tid \<longleftrightarrow> pumps s tid True = NoPump \<and> pumps s tid False = NoPump"

definition untouched :: "server \<Rightarrow> nat option \<Rightarrow> bool" where
  "untouched s k \<longleftrightarrow> (case k of None \<Rightarrow> True | Some k \<Rightarrow> written (socks s k) = [] \<and> received s k = [])"

definition pair_ok :: "server \<Rightarrow> string \<Rightarrow> Match \<Rightarrow> bool" where
  "pair_ok s tid m \<longleftrightarrow> slot_ok s tid CHR ''B'' (mb m) \<and> slot_ok s tid CHR ''C'' (mc m) \<and>
     (case (mb m, mc m) of
        (Some b, Some c) \<Rightarrow>
          (regs s b = RegEnded \<or> regs s c = RegEnded) \<and>
          (if RegReadyB tid \<in> {regs s b, regs s c}
           then silent s tid \<and> untouched s (Some b) \<and> untouched s (Some c)
           else if RegReadyC tid \<in> {regs s b, regs s c}
           then silent s tid \<and> written (socks s b) = ready_bytes \<and> received s b = [] \<and> untouched s (Some c)
           else pumping s tid True b c \<and> pumping s tid False c b)
      | _ \<Rightarrow> silent s tid \<and> untouched s (mb m) \<and> untouched s (mc m) \<and>
          (\<forall>k. mb m = Some k \<or> mc m = Some k \<longrightarrow> regs s k = RegEnded))"

definition full_slot :: "server \<Rightarrow> string \<Rightarrow> nat \<Rightarrow> bool" where
  "full_slot s i k \<longleftrightarrow> (\<exists>m. pairs s i = Some m \<and> mb m \<noteq> None \<and> mc m \<noteq> None \<and> (mb m = Some k \<or> mc m = Some k))"

definition server_inv :: "server \<Rightarrow> bool" where
  "server_inv s \<longleftrightarrow>
     (\<forall>tid m. pairs s tid = Some m \<longrightarrow> pair_ok s tid m) \<and>
     (\<forall>tid. pairs s tid = None \<longrightarrow> silent s tid) \<and>
     (\<forall>k. regs s k \<in> {NotAccepted, RegReading} \<longrightarrow> peers s k = None \<and> untouched s (Some k)) \<and>
     (\<forall>k tid. regs s k \<in> {RegReadyB tid, RegReadyC tid} \<longrightarrow> full_slot s tid k)"

lemma server_inv_start: "server_inv server_start"
  by (simp add: server_inv_def server_start_def silent_def untouched_def)

text \<open>A pair looks at its own pumps and at the connections in its slots.\<close>

definition same_slot :: "server \<Rightarrow> server \<Rightarrow> nat \<Rightarrow> bool" where
  "same_slot s t k \<longleftrightarrow> peers s k = peers t k \<and> regs s k = regs t k \<and> socks s k = socks t k \<and>
     received s k = received t k"

lemma pair_ok_cong:
  assumes "\<And>k. mb m = Some k \<or> mc m = Some k \<Longrightarrow> same_slot s t k" "pumps s tid = pumps t tid"
  shows "pair_ok s tid m = pair_ok t tid m"
proof -
  have slot: "slot_ok s tid r k = slot_ok t tid r k" "untouched s k = untouched t k" if "k \<in> {mb m, mc m}" for r k
    using assms(1) that by (auto simp: slot_ok_def untouched_def same_slot_def split: option.split)
  have regs: "regs s k = regs t k" "received s k = received t k" "socks s k = socks t k"
    if "mb m = Some k \<or> mc m = Some k" for k
    using assms(1) that by (auto simp: same_slot_def)
  have "silent s tid = silent t tid" by (simp add: silent_def assms(2))
  moreover have "pumping s tid d f k = pumping t tid d f k"
    if "mb m = Some f \<or> mc m = Some f" "mb m = Some k \<or> mc m = Some k" for d f k
    unfolding pumping_def assms(2) regs(2) [OF that(1)] regs(3) [OF that(2)] ..
  ultimately show ?thesis
    unfolding pair_ok_def using slot regs by (simp split: option.split)
qed

lemma inv_pair: "server_inv s \<Longrightarrow> pairs s tid = Some m \<Longrightarrow> pair_ok s tid m"
  by (simp add: server_inv_def)

lemma slot_peers:
  assumes "server_inv s" "pairs s tid = Some m" "mb m = Some k \<or> mc m = Some k"
  shows "\<exists>role. peers s k = Some (tid, role)" "regs s k \<in> {RegReadyB tid, RegReadyC tid, RegEnded}"
  using inv_pair [OF assms(1,2)] assms(3) by (auto simp: pair_ok_def slot_ok_def)

lemma slots_disjoint:
  assumes "server_inv s" "pairs s tid = Some m" "mb m = Some k \<or> mc m = Some k"
    "pairs s tid' = Some m'" "mb m' = Some k \<or> mc m' = Some k"
  shows "tid' = tid"
  using slot_peers(1) [OF assms(1-3)] slot_peers(1) [OF assms(1,4,5)] by auto

subsection \<open>One pair at a time\<close>

text \<open>
  A step changes one id and a few connections, which are in no slot of another id. What the
  other pairs need is untouched, so the invariant is shown for that id alone.
\<close>

definition only :: "string \<Rightarrow> nat set \<Rightarrow> server \<Rightarrow> server \<Rightarrow> bool" where
  "only tid K s t \<longleftrightarrow> (\<forall>i. i \<noteq> tid \<longrightarrow> pairs t i = pairs s i \<and> pumps t i = pumps s i) \<and>
     (\<forall>k. k \<notin> K \<longrightarrow> same_slot s t k)"

definition in_slot :: "server \<Rightarrow> string \<Rightarrow> nat \<Rightarrow> bool" where
  "in_slot s tid k \<longleftrightarrow> (\<exists>m. pairs s tid = Some m \<and> (mb m = Some k \<or> mc m = Some k))"

lemma in_slot_unique: "server_inv s \<Longrightarrow> in_slot s tid k \<Longrightarrow> in_slot s i k \<Longrightarrow> i = tid"
  by (auto simp: in_slot_def dest: slots_disjoint)

lemma not_in_slot:
  "server_inv s \<Longrightarrow> regs s k \<in> {NotAccepted, RegReading, RegRejecting} \<Longrightarrow> \<not> in_slot s tid k"
  by (auto simp: in_slot_def dest: slot_peers(2))

lemma server_inv_local:
  assumes inv: "server_inv s" and only: "only tid K s t"
    and own: "\<And>k i. k \<in> K \<Longrightarrow> in_slot s i k \<Longrightarrow> i = tid"
    and pair: "\<And>m. pairs t tid = Some m \<Longrightarrow> pair_ok t tid m" "pairs t tid = None \<Longrightarrow> silent t tid"
    and slots: "\<And>k. k \<notin> K \<Longrightarrow> full_slot s tid k \<Longrightarrow> full_slot t tid k"
    and conns: "\<And>k. k \<in> K \<Longrightarrow> regs t k \<in> {NotAccepted, RegReading} \<Longrightarrow> peers t k = None \<and> untouched t (Some k)"
      "\<And>k i. k \<in> K \<Longrightarrow> regs t k \<in> {RegReadyB i, RegReadyC i} \<Longrightarrow> full_slot t i k"
  shows "server_inv t"
proof -
  have other: "pairs t i = pairs s i" "pumps t i = pumps s i" if "i \<noteq> tid" for i
    using only that by (auto simp: only_def)
  have same: "same_slot s t k" if "k \<notin> K" for k using only that by (auto simp: only_def)
  have "pair_ok t i m" if "pairs t i = Some m" for i m
  proof (cases "i = tid")
    case False
    with that other have m: "pairs s i = Some m" by simp
    have "same_slot s t k" if "mb m = Some k \<or> mc m = Some k" for k
      using same own [of k i] False m that by (auto simp: in_slot_def)
    from pair_ok_cong [of m, OF this other(2) [OF False, symmetric]] inv m show ?thesis
      by (simp add: server_inv_def)
  qed (use pair that in simp)
  moreover have "silent t i" if "pairs t i = None" for i
    using pair(2) other [of i] inv that by (cases "i = tid") (auto simp: server_inv_def silent_def)
  moreover have "peers t k = None \<and> untouched t (Some k)" if "regs t k \<in> {NotAccepted, RegReading}" for k
    using conns(1) [of k] same [of k] inv that
    by (cases "k \<in> K") (auto simp: server_inv_def same_slot_def untouched_def)
  moreover have "full_slot t i k" if r: "regs t k \<in> {RegReadyB i, RegReadyC i}" for k i
  proof (cases "k \<in> K")
    case False
    with same r have "regs s k \<in> {RegReadyB i, RegReadyC i}" by (simp add: same_slot_def)
    with inv have "full_slot s i k" unfolding server_inv_def by blast
    with slots [OF False] other [of i] show ?thesis by (cases "i = tid") (auto simp: full_slot_def)
  qed (use conns(2) r in blast)
  ultimately show ?thesis unfolding server_inv_def by blast
qed

text \<open>A connection outside every slot.\<close>

lemma server_inv_outside:
  assumes inv: "server_inv s" and out: "\<And>i. \<not> in_slot s i k"
    and only: "pairs t = pairs s" "pumps t = pumps s" "\<And>j. j \<noteq> k \<Longrightarrow> same_slot s t j"
    and conn: "regs t k \<in> {NotAccepted, RegReading} \<Longrightarrow> peers t k = None \<and> untouched t (Some k)"
      "\<And>i. regs t k \<notin> {RegReadyB i, RegReadyC i}"
  shows "server_inv t"
proof (rule server_inv_local [where tid = undefined and K = "{k}", OF inv])
  show "only undefined {k} s t" using only by (simp add: only_def)
  fix m assume "pairs t undefined = Some m"
  with only have m: "pairs s undefined = Some m" by simp
  have "same_slot s t j" if "mb m = Some j \<or> mc m = Some j" for j
    using only(3) [of j] out [of undefined] m that by (auto simp: in_slot_def)
  from pair_ok_cong [of m, OF this] only(2) inv_pair [OF inv m] show "pair_ok t undefined m" by simp
qed (use assms in \<open>auto simp: server_inv_def silent_def full_slot_def\<close>)

subsection \<open>The operations keep the invariant\<close>

lemmas server_set_defs = set_pump_def set_reg_def upd_sock_def same_slot_def

lemma reg_drop_keeps:
  assumes inv: "server_inv s" and k: "regs s k \<in> {NotAccepted, RegReading, RegRejecting}"
  shows "server_inv (reg_drop s k)"
  by (rule server_inv_outside [OF inv not_in_slot [OF inv k]])
    (simp_all add: reg_drop_def server_set_defs)

lemma reg_start_keeps:
  assumes inv: "server_inv s" and k: "regs s k = NotAccepted"
  shows "server_inv (set_reg s k RegReading)"
  by (rule server_inv_outside [where k = k, OF inv not_in_slot [OF inv]])
    (use assms in \<open>auto simp: server_set_defs server_inv_def untouched_def\<close>)

lemma pair_ok_new: "silent s tid \<Longrightarrow> pair_ok s tid new_match"
  by (simp add: pair_ok_def new_match_def slot_ok_def untouched_def)

text \<open>A pair with a free slot is silent and its other connection has been left alone.\<close>

lemma free_slot:
  assumes "pair_ok s tid m" "mb m = None \<or> mc m = None"
  shows "silent s tid" "mb m = Some j \<or> mc m = Some j \<Longrightarrow> regs s j = RegEnded \<and> untouched s (Some j)"
  using assms by (auto simp: pair_ok_def untouched_def split: option.splits)

lemma register_keeps:
  assumes inv: "server_inv s" and k: "regs s k = RegReading" and role: "role \<in> {CHR ''B'', CHR ''C''}"
  shows "server_inv (register s k tid role)" (is "server_inv ?t")
proof -
  define m where "m = (case pairs s tid of None \<Rightarrow> new_match | Some m \<Rightarrow> m)"
  have out: "\<not> in_slot s i k" for i using not_in_slot [OF inv] k by simp
  have ok: "pair_ok s tid m"
    using inv inv_pair [OF inv] by (auto simp: m_def server_inv_def intro: pair_ok_new split: option.split)
  have notk: "j \<noteq> k" if "mb m = Some j \<or> mc m = Some j" for j
    using that out [of tid] by (auto simp: m_def in_slot_def new_match_def split: option.splits)
  have slot: "m' = m" if "pairs s tid = Some m'" for m' using that by (simp add: m_def)
  have fresh: "untouched s (Some k)" using inv k by (auto simp: server_inv_def)
  note t = register_def Let_def m_def [symmetric]
  show ?thesis
  proof (cases "(role = CHR ''B'' \<and> mb m \<noteq> None) \<or> (role = CHR ''C'' \<and> mc m \<noteq> None)")
    case True
    have "same_slot s ?t j" if "mb m = Some j \<or> mc m = Some j" for j
      using notk [OF that] True by (simp add: t server_set_defs)
    from pair_ok_cong [of m, OF this] ok True have "pair_ok ?t tid m" by (simp add: t server_set_defs)
    with True show ?thesis
      by (intro server_inv_local [where tid = tid and K = "{k}", OF inv])
        (auto simp: only_def t server_set_defs out full_slot_def dest: slot)
  next
    case False
    have free: "mb m = None \<or> mc m = None" using False role by auto
    have "pair_ok ?t tid (if role = CHR ''B'' then m\<lparr>mb := Some k\<rparr> else m\<lparr>mc := Some k\<rparr>)"
      using False role notk free_slot [OF ok free] ok fresh
      by (auto simp: t server_set_defs pair_ok_def slot_ok_def silent_def untouched_def split: option.splits)
    with False role free show ?thesis
      by (intro server_inv_local [where tid = tid and K = "{k}", OF inv])
        (auto simp: only_def t server_set_defs out full_slot_def dest: slot)
  qed
qed

lemma parse_register_role: "parse_register b = Some (tid, role) \<Longrightarrow> role \<in> {CHR ''B'', CHR ''C''}"
  by (auto simp: parse_register_def Let_def split: option.splits if_splits)

lemma reg_frame_keeps:
  assumes "server_inv s" "regs s k = RegReading"
  shows "server_inv (reg_frame s k r)"
  using assms by (auto simp: reg_frame_def split: frame_read.split option.split
      intro!: reg_drop_keeps register_keeps dest!: parse_register_role)

text \<open>A pair whose READYs are being written, and one whose pumps run.\<close>

lemma ready_pair:
  assumes inv: "server_inv s" and k: "regs s k \<in> {RegReadyB tid, RegReadyC tid}"
  obtains m b c where "pairs s tid = Some m" "mb m = Some b" "mc m = Some c" "k \<in> {b, c}" "pair_ok s tid m"
proof -
  from inv k have "full_slot s tid k" unfolding server_inv_def by blast
  then obtain m b c where m: "pairs s tid = Some m" "mb m = Some b" "mc m = Some c" "k \<in> {b, c}"
    by (auto simp: full_slot_def)
  with that inv_pair [OF inv m(1)] show ?thesis by blast
qed

lemma pair_ok_full:
  assumes "mb m = Some b" "mc m = Some c"
  shows "pair_ok s tid m \<longleftrightarrow> slot_ok s tid CHR ''B'' (Some b) \<and> slot_ok s tid CHR ''C'' (Some c) \<and>
    (regs s b = RegEnded \<or> regs s c = RegEnded) \<and>
    (if RegReadyB tid \<in> {regs s b, regs s c}
     then silent s tid \<and> untouched s (Some b) \<and> untouched s (Some c)
     else if RegReadyC tid \<in> {regs s b, regs s c}
     then silent s tid \<and> written (socks s b) = ready_bytes \<and> received s b = [] \<and> untouched s (Some c)
     else pumping s tid True b c \<and> pumping s tid False c b)"
  using assms by (simp add: pair_ok_def)

lemma slots_differ: "slot_ok s tid CHR ''B'' (Some b) \<Longrightarrow> slot_ok s tid CHR ''C'' (Some c) \<Longrightarrow> b \<noteq> c"
  by (auto simp: slot_ok_def)

lemma ready_local:
  assumes inv: "server_inv s" and m: "pairs s tid = Some m" "mb m = Some b" "mc m = Some c"
    and t: "only tid {b, c} s t" "pairs t = pairs s" "pair_ok t tid m"
    and regs: "{regs t b, regs t c} \<subseteq> {RegReadyB tid, RegReadyC tid, RegEnded}"
  shows "server_inv t"
proof (rule server_inv_local [OF inv t(1)])
  show "i = tid" if "k \<in> {b, c}" "in_slot s i k" for k i
    using in_slot_unique [OF inv _ that(2), of tid] that(1) m by (auto simp: in_slot_def)
qed (use m t regs in \<open>auto simp: full_slot_def\<close>)

lemma reg_written_B_keeps:
  assumes inv: "server_inv s" and k: "regs s k = RegReadyB tid" and t: "reg_target s k = Some t"
  shows "server_inv (reg_written s k t r)" (is "server_inv ?t")
proof -
  from k have "regs s k \<in> {RegReadyB tid, RegReadyC tid}" by simp
  from ready_pair [OF inv this] obtain m b c where
    m: "pairs s tid = Some m" "mb m = Some b" "mc m = Some c" and kbc: "k \<in> {b, c}" and ok: "pair_ok s tid m" .
  note ok = ok [unfolded pair_ok_full [OF m(2,3)]]
  have ne: "b \<noteq> c" using ok slots_differ by blast
  have t: "t = b" using t k m by (simp add: reg_target_def)
  have "regs s b = RegReadyB tid \<or> regs s c = RegReadyB tid" using k kbc by auto
  with ok have fresh: "silent s tid" "untouched s (Some b)" "untouched s (Some c)"
    and others: "regs s b = RegEnded \<or> regs s c = RegEnded" by (auto split: if_splits)
  have slots: "peers s b = Some (tid, CHR ''B'')" "peers s c = Some (tid, CHR ''C'')"
    using ok by (simp_all add: slot_ok_def)
  show ?thesis
  proof (rule ready_local [OF inv m])
    show "pair_ok ?t tid m"
      unfolding pair_ok_full [OF m(2,3)] using kbc k ne fresh slots others
      by (cases r) (auto simp: t reg_written_def Let_def slot_ok_def silent_def untouched_def
        pumping_def server_set_defs wrote_def take_is_prefix)
  qed (use kbc k ne others in \<open>auto simp: t only_def reg_written_def Let_def server_set_defs\<close>)
qed

lemma reg_written_C_keeps:
  assumes inv: "server_inv s" and k: "regs s k = RegReadyC tid" and t: "reg_target s k = Some t"
  shows "server_inv (reg_written s k t r)" (is "server_inv ?t")
proof -
  from k have "regs s k \<in> {RegReadyB tid, RegReadyC tid}" by simp
  from ready_pair [OF inv this] obtain m b c where
    m: "pairs s tid = Some m" "mb m = Some b" "mc m = Some c" and kbc: "k \<in> {b, c}" and ok: "pair_ok s tid m" .
  note ok = ok [unfolded pair_ok_full [OF m(2,3)]]
  have ne: "b \<noteq> c" using ok slots_differ by blast
  have t: "t = c" using t k m by (simp add: reg_target_def)
  have "RegReadyC tid \<in> {regs s b, regs s c}" "RegReadyB tid \<notin> {regs s b, regs s c}" using ok k kbc by auto
  with ok have fresh: "silent s tid" "written (socks s b) = ready_bytes" "received s b = []" "untouched s (Some c)"
    and others: "regs s b = RegEnded \<or> regs s c = RegEnded" by (simp_all split: if_splits)
  have slots: "peers s b = Some (tid, CHR ''B'')" "peers s c = Some (tid, CHR ''C'')"
    using ok by (simp_all add: slot_ok_def)
  show ?thesis
  proof (rule ready_local [OF inv m])
    show "pair_ok ?t tid m"
      unfolding pair_ok_full [OF m(2,3)] using kbc k ne fresh slots others
      by (cases r) (auto simp: t reg_written_def Let_def slot_ok_def silent_def untouched_def
        pumping_def server_set_defs wrote_def take_is_prefix relayed_def)
  qed (use kbc k ne others in \<open>auto simp: t only_def reg_written_def Let_def server_set_defs\<close>)
qed

lemma reg_written_reject_keeps:
  assumes inv: "server_inv s" and k: "regs s k = RegRejecting" and t: "reg_target s k = Some t"
  shows "server_inv (reg_written s k t r)"
  by (rule server_inv_outside [where k = k, OF inv not_in_slot [OF inv]])
    (use k t in \<open>auto simp: reg_target_def reg_written_def reg_drop_def server_set_defs\<close>)

lemma reg_written_keeps:
  assumes "server_inv s" "reg_target s k = Some t"
  shows "server_inv (reg_written s k t r)"
  using assms by (cases "regs s k")
    (auto simp: reg_target_def intro: reg_written_reject_keeps reg_written_B_keeps reg_written_C_keeps)

text \<open>A pump that has started: both pumps of its id have, and the registrations are over.\<close>

lemma live_pump:
  assumes inv: "server_inv s" and p: "pumps s tid d \<noteq> NoPump" "pump_from s tid d = Some f" "pump_to s tid d = Some t"
  obtains m where "pairs s tid = Some m" "{mb m, mc m} = {Some f, Some t}" "mb m = Some (if d then f else t)"
    "mc m = Some (if d then t else f)" "f \<noteq> t" "pumping s tid d f t" "pumping s tid (\<not> d) t f"
    "regs s f = RegEnded" "regs s t = RegEnded" "peers s f = Some (tid, if d then CHR ''B'' else CHR ''C'')"
    "peers s t = Some (tid, if d then CHR ''C'' else CHR ''B'')"
proof -
  let ?b = "if d then f else t" and ?c = "if d then t else f"
  obtain m where m: "pairs s tid = Some m" "mb m = Some ?b" "mc m = Some ?c"
    using p by (cases d) (auto simp: pump_from_def pump_to_def split: bind_splits)
  note ok = inv_pair [OF inv m(1), unfolded pair_ok_full [OF m(2,3)]]
  have "\<not> silent s tid" using p by (cases d) (auto simp: silent_def)
  with ok have "RegReadyB tid \<notin> {regs s ?b, regs s ?c}" "RegReadyC tid \<notin> {regs s ?b, regs s ?c}"
    "pumping s tid True ?b ?c" "pumping s tid False ?c ?b" by (simp_all split: if_splits)
  moreover with ok have "regs s ?b = RegEnded" "regs s ?c = RegEnded"
    "peers s ?b = Some (tid, CHR ''B'')" "peers s ?c = Some (tid, CHR ''C'')" by (auto simp: slot_ok_def)
  moreover from this have "f \<noteq> t" by auto
  ultimately show ?thesis using m by (intro that [of m]) (cases d; auto)+
qed

lemma pump_local:
  assumes inv: "server_inv s" and p: "pumps s tid d \<noteq> NoPump" "pump_from s tid d = Some f" "pump_to s tid d = Some t"
    and s': "only tid {f, t} s s'" "regs s' = regs s" "peers s' = peers s"
      "pairs s' tid = pairs s tid \<or> (\<exists>m. pairs s tid = Some m \<and> pairs s' tid = Some (m\<lparr>dead := True\<rparr>))"
    and ok: "pumping s' tid d f t" "pumping s' tid (\<not> d) t f"
  shows "server_inv s'"
proof -
  obtain m where m: "pairs s tid = Some m" "{mb m, mc m} = {Some f, Some t}" "mb m = Some (if d then f else t)"
    "mc m = Some (if d then t else f)" "f \<noteq> t" "pumping s tid d f t" "pumping s tid (\<not> d) t f"
    "regs s f = RegEnded" "regs s t = RegEnded" "peers s f = Some (tid, if d then CHR ''B'' else CHR ''C'')"
    "peers s t = Some (tid, if d then CHR ''C'' else CHR ''B'')"
    using live_pump [OF inv p] by blast
  show ?thesis
  proof (rule server_inv_local [OF inv s'(1)])
    show "i = tid" if "k \<in> {f, t}" "in_slot s i k" for k i
      using in_slot_unique [OF inv _ that(2), of tid] that(1) m by (cases d) (auto simp: in_slot_def)
    show "pair_ok s' tid m'" if "pairs s' tid = Some m'" for m'
    proof -
      have "mb m' = mb m" "mc m' = mc m" using that s'(4) m(1) by auto
      with m have m': "mb m' = Some (if d then f else t)" "mc m' = Some (if d then t else f)" by simp_all
      show ?thesis unfolding pair_ok_full [OF m'] using m ok s'(2,3) by (cases d) (simp_all add: slot_ok_def)
    qed
    show "full_slot s' tid k" if "full_slot s tid k" for k
      using that s'(4) by (auto simp: full_slot_def)
    show "silent s' tid" if "pairs s' tid = None" using that s'(4) m(1) by auto
    have "regs s' k = RegEnded" if "k \<in> {f, t}" for k using that m(8,9) s'(2) by auto
    then show "k \<in> {f, t} \<Longrightarrow> regs s' k \<in> {NotAccepted, RegReading} \<Longrightarrow> peers s' k = None \<and> untouched s' (Some k)"
      "k \<in> {f, t} \<Longrightarrow> regs s' k \<in> {RegReadyB i, RegReadyC i} \<Longrightarrow> full_slot s' i k" for k i
      by fastforce+
  qed
qed

lemma pumping_cong:
  "pumps t tid d = pumps s tid d \<Longrightarrow> received t f = received s f \<Longrightarrow> written (socks t k) = written (socks s k) \<Longrightarrow>
    (unusable (socks s k) \<longrightarrow> unusable (socks t k)) \<Longrightarrow> pumping s tid d f k \<Longrightarrow> pumping t tid d f k"
  by (auto simp: pumping_def split: pump_pc.splits)

lemma pump_break_simps [simp]:
  "socks (pump_break s tid d) = socks s" "received (pump_break s tid d) = received s"
  "regs (pump_break s tid d) = regs s" "peers (pump_break s tid d) = peers s"
  "i \<noteq> tid \<Longrightarrow> pairs (pump_break s tid d) i = pairs s i"
  "i \<noteq> tid \<or> e \<noteq> d \<Longrightarrow> pumps (pump_break s tid d) i e = pumps s i e"
  by (auto simp: pump_break_def set_pump_def Let_def split: option.split)

lemma pump_break_pc:
  "pairs s tid = Some m \<Longrightarrow> pumps (pump_break s tid d) tid d = (if dead m then PumpEnded else PumpLast)"
  "pairs s tid = Some m \<Longrightarrow> pairs (pump_break s tid d) tid = Some (m\<lparr>dead := True\<rparr>)"
  by (simp_all add: pump_break_def set_pump_def Let_def)

lemma set_pump_simps [simp]:
  "socks (set_pump s tid d p) = socks s" "received (set_pump s tid d p) = received s"
  "regs (set_pump s tid d p) = regs s" "peers (set_pump s tid d p) = peers s"
  "pairs (set_pump s tid d p) = pairs s" "pumps (set_pump s tid d p) tid d = p"
  "i \<noteq> tid \<or> e \<noteq> d \<Longrightarrow> pumps (set_pump s tid d p) i e = pumps s i e"
  by (auto simp: set_pump_def)

lemma upd_sock_simps [simp]:
  "received (upd_sock s k g) = received s" "regs (upd_sock s k g) = regs s" "peers (upd_sock s k g) = peers s"
  "pairs (upd_sock s k g) = pairs s" "pumps (upd_sock s k g) = pumps s" "socks (upd_sock s k g) k = g (socks s k)"
  "j \<noteq> k \<Longrightarrow> socks (upd_sock s k g) j = socks s j"
  by (auto simp: upd_sock_def)

text \<open>
  After a break the pump holds if everything written is the relayed bytes, or if it is a
  part of them and the socket is unusable.
\<close>

lemma pumping_break:
  assumes "pairs s tid = Some m" "prefix (written (socks s t)) (relayed d (received s f))"
    "written (socks s t) = relayed d (received s f) \<or> unusable (socks s t)"
  shows "pumping (pump_break s tid d) tid d f t"
  using assms by (auto simp: pumping_def pump_break_pc prefix_def)

lemma only_pump:
  assumes "\<And>i. i \<noteq> tid \<Longrightarrow> pairs s' i = pairs s i"
    "\<And>i e. i \<noteq> tid \<Longrightarrow> pumps s' i e = pumps s i e"
    "\<And>k. k \<notin> K \<Longrightarrow> peers s' k = peers s k \<and> regs s' k = regs s k \<and> socks s' k = socks s k \<and> received s' k = received s k"
  shows "only tid K s s'"
  using assms by (auto simp: only_def same_slot_def fun_eq_iff)

lemma pump_frame_keeps:
  assumes inv: "server_inv s" and p: "pumps s tid d = PumpReading" "pump_from s tid d = Some f" "pump_to s tid d = Some t"
  shows "server_inv (pump_frame s tid d f r)"
proof -
  have np: "pumps s tid d \<noteq> NoPump" using p by simp
  obtain m where m: "pairs s tid = Some m" "f \<noteq> t" "pumping s tid d f t" "pumping s tid (\<not> d) t f"
    "peers s f = Some (tid, if d then CHR ''B'' else CHR ''C'')"
    using live_pump [OF inv np p(2,3)] by metis
  have w: "written (socks s t) = relayed d (received s f)" using m(3) p(1) by (simp add: pumping_def)
  note local = pump_local [OF inv np p(2,3)]
  have brk: "server_inv (pump_break s tid d)"
    by (rule local) (use m w in \<open>auto intro!: only_pump pumping_break intro: pumping_cong simp: pump_break_pc(2)\<close>)
  show ?thesis
  proof (cases r)
    case (GotFrame fr rest)
    have "server_inv (pump_frame s tid d f r)"
    proof (rule local)
      show "pumping (pump_frame s tid d f r) tid d f t"
        using w m(5) by (simp add: GotFrame pump_frame_def Let_def pumping_def relayed_snoc relay_one_def)
      show "pumping (pump_frame s tid d f r) tid (\<not> d) t f"
        by (rule pumping_cong [OF _ _ _ _ m(4)]) (use m(2) in \<open>simp_all add: GotFrame pump_frame_def Let_def\<close>)
    qed (auto simp: GotFrame pump_frame_def Let_def intro!: only_pump)
    then show ?thesis .
  qed (use brk inv in \<open>simp_all add: pump_frame_def\<close>)
qed

text \<open>The write of a frame or of the EOF that ends the loop.\<close>

lemma pump_write_keeps:
  assumes inv: "server_inv s" and np: "pumps s tid d \<noteq> NoPump" and p: "pump_from s tid d = Some f" "pump_to s tid d = Some t"
    and x: "written (socks s t) @ x = relayed d (received s f)"
  shows "server_inv (set_pump (upd_sock s t (wrote WriteOk x)) tid d PumpReading)"
    "server_inv (pump_break (upd_sock (upd_sock s t (wrote WriteOk x)) t sock_close) tid d)"
    "server_inv (pump_break (upd_sock s t (wrote (WriteFailed n) x)) tid d)"
proof -
  obtain m where m: "pairs s tid = Some m" "f \<noteq> t" "pumping s tid (\<not> d) t f"
    using live_pump [OF inv np p] by metis
  note local = pump_local [OF inv np p]
  note other = pumping_cong [OF _ _ _ _ m(3)]
  have pre: "prefix (written (socks s t) @ take n x) (relayed d (received s f))"
    by (metis x append_assoc append_take_drop_id prefixI)
  show "server_inv (set_pump (upd_sock s t (wrote WriteOk x)) tid d PumpReading)"
  proof (rule local)
    show "pumping (set_pump (upd_sock s t (wrote WriteOk x)) tid d PumpReading) tid d f t"
      using x by (simp add: pumping_def wrote_simps)
  qed (use m in \<open>auto intro!: only_pump other\<close>)
  show "server_inv (pump_break (upd_sock (upd_sock s t (wrote WriteOk x)) t sock_close) tid d)"
    by (rule local) (use m x in \<open>auto intro!: only_pump pumping_break other simp: pump_break_pc(2) wrote_simps\<close>)
  show "server_inv (pump_break (upd_sock s t (wrote (WriteFailed n) x)) tid d)"
    by (rule local) (use m pre in \<open>auto intro!: only_pump pumping_break other simp: pump_break_pc(2) wrote_simps\<close>)
qed

text \<open>The write after the loop.\<close>

lemma pump_last_keeps:
  assumes inv: "server_inv s" and np: "pumps s tid d = PumpLast" and p: "pump_from s tid d = Some f" "pump_to s tid d = Some t"
    and r: "can_write True (socks s t) r"
  shows "server_inv (pump_written s tid d f t r)" (is "server_inv ?s")
proof -
  have np': "pumps s tid d \<noteq> NoPump" using np by simp
  obtain m where m: "pairs s tid = Some m" "f \<noteq> t" "pumping s tid d f t" "pumping s tid (\<not> d) t f"
    using live_pump [OF inv np' p] by metis
  have w: "prefix (written (socks s t)) (relayed d (received s f))"
    "written (socks s t) = relayed d (received s f) \<or> unusable (socks s t)"
    using m(3) np by (simp_all add: pumping_def)
  show ?thesis
  proof (rule pump_local [OF inv np' p])
    have "prefix (written (socks ?s t)) (relayed d (received s f) @ eof_bytes)"
    proof (cases "unusable (socks s t)")
      case True
      with r have "r = WriteFailed 0" by (simp add: can_write_def)
      with w(1) np show ?thesis by (simp add: pump_written_def Let_def wrote_simps)
    next
      case False
      with w(2) np m(2) show ?thesis
        by (cases r) (simp_all add: pump_written_def Let_def wrote_simps take_is_prefix)
    qed
    then show "pumping ?s tid d f t"
      using np by (cases r) (simp_all add: pump_written_def Let_def pumping_def)
    show "pumping ?s tid (\<not> d) t f"
      by (rule pumping_cong [OF _ _ _ _ m(4)]) (use m(2) np in \<open>cases r; simp add: pump_written_def Let_def\<close>)+
  qed (use np in \<open>cases r; auto simp: pump_written_def Let_def intro!: only_pump\<close>)+
qed

lemma pump_written_keeps:
  assumes inv: "server_inv s" and np: "pumps s tid d \<notin> {NoPump, PumpReading, PumpEnded}"
    and p: "pump_from s tid d = Some f" "pump_to s tid d = Some t"
    and r: "can_write (pumps s tid d = PumpLast) (socks s t) r"
  shows "server_inv (pump_written s tid d f t r)"
proof -
  have np': "pumps s tid d \<noteq> NoPump" using np by simp
  have ok: "pumping s tid d f t" using live_pump [OF inv np' p] by metis
  note wr = pump_write_keeps [OF inv np' p]
  show ?thesis
  proof (cases "pumps s tid d")
    case (PumpForwarding x)
    with ok wr(1,3) [of x] show ?thesis
      by (cases r) (simp_all add: pump_written_def pumping_def Let_def)
  next
    case PumpEof
    with ok wr(2,3) [of eof_bytes] show ?thesis
      by (cases r) (simp_all add: pump_written_def pumping_def Let_def)
  next
    case PumpLast
    with pump_last_keeps [OF inv PumpLast p] r show ?thesis by simp
  qed (use np in auto)
qed

lemma pump_ends:
  assumes inv: "server_inv s" and p: "pumps s tid d \<noteq> NoPump"
  shows "\<exists>f t. pump_from s tid d = Some f \<and> pump_to s tid d = Some t"
proof -
  have loud: "\<not> silent s tid" using p by (cases d) (auto simp: silent_def)
  have "pairs s tid = None \<longrightarrow> silent s tid" using inv by (simp add: server_inv_def)
  with loud obtain m where m: "pairs s tid = Some m" by blast
  have "\<not> (mb m = None \<or> mc m = None)"
    using loud by (rule contrapos_nn) (rule free_slot(1) [OF inv_pair [OF inv m]])
  with m show ?thesis by (auto simp: pump_from_def pump_to_def)
qed

lemma server_step_keeps: "server_step s t \<Longrightarrow> server_inv s \<Longrightarrow> server_inv t"
proof (erule server_stepE)
  fix e assume "server_move s e = Some t" and inv: "server_inv s"
  then show "server_inv t"
  proof (cases e)
    case (PumpFrame tid d r)
    with \<open>server_move s e = Some t\<close> obtain f where "pump_from s tid d = Some f" "pumps s tid d = PumpReading"
      and t: "t = pump_frame s tid d f r" by (auto split: option.splits if_splits)
    moreover from this(2) pump_ends [OF inv, of tid d] obtain t' where "pump_to s tid d = Some t'" by auto
    ultimately show ?thesis using pump_frame_keeps [OF inv] by auto
  qed (auto intro: reg_start_keeps reg_frame_keeps reg_written_keeps pump_written_keeps split: option.splits if_splits)
qed

interpretation server: kept_invariant server_step server_inv
  by unfold_locales (rule server_step_keeps)

lemma server_reach_inv: "reach server_step server_start s \<Longrightarrow> server_inv s"
  by (rule server.reach_ok [OF _ server_inv_start])

subsection \<open>Slots are kept\<close>

definition slots_kept :: "server \<Rightarrow> server \<Rightarrow> bool" where
  "slots_kept s t \<longleftrightarrow> (\<forall>tid m. pairs s tid = Some m \<longrightarrow> (\<exists>m'. pairs t tid = Some m' \<and>
     (mb m \<noteq> None \<longrightarrow> mb m' = mb m) \<and> (mc m \<noteq> None \<longrightarrow> mc m' = mc m)))"

lemma slots_kept_same: "pairs t = pairs s \<Longrightarrow> slots_kept s t"
  by (simp add: slots_kept_def)

lemma slots_kept_break: "pairs t = pairs s \<Longrightarrow> slots_kept s (pump_break t tid d)"
  by (auto simp: slots_kept_def pump_break_def Let_def split: option.splits)

lemma slots_kept_register: "role \<in> {CHR ''B'', CHR ''C''} \<Longrightarrow> slots_kept s (register s k tid role)"
  by (auto simp: slots_kept_def register_def Let_def set_reg_def split: option.splits)

lemma reg_drop_pairs [simp]: "pairs (reg_drop s k) = pairs s"
  by (simp add: reg_drop_def set_reg_def)

lemma set_reg_pairs [simp]: "pairs (set_reg s k p) = pairs s"
  by (simp add: set_reg_def)

lemma slots_kept_reg_frame: "slots_kept s (reg_frame s k r)"
  by (auto simp: reg_frame_def split: frame_read.split option.split
      intro!: slots_kept_same slots_kept_register dest!: parse_register_role)

lemma slots_kept_reg_written: "slots_kept s (reg_written s k t r)"
  by (rule slots_kept_same) (simp add: reg_written_def Let_def split: reg_pc.split)

lemma slots_kept_pump_frame: "slots_kept s (pump_frame s tid d f r)"
  by (auto simp: pump_frame_def Let_def split: frame_read.split intro!: slots_kept_same slots_kept_break)

lemma slots_kept_pump_written: "slots_kept s (pump_written s tid d f t r)"
  by (auto simp: pump_written_def Let_def split: pump_pc.split intro!: slots_kept_same slots_kept_break)

lemma server_step_slots: "server_step s t \<Longrightarrow> slots_kept s t"
proof (erule server_stepE)
  fix e assume "server_move s e = Some t"
  then show "slots_kept s t"
    by (cases e) (auto split: option.splits if_splits intro: slots_kept_same slots_kept_reg_frame
      slots_kept_reg_written slots_kept_pump_frame slots_kept_pump_written)
qed

lemma server_reach_slots: "reach server_step s t \<Longrightarrow> slots_kept s t"
proof (induction rule: reach.induct)
  case (reach_step t u)
  with server_step_slots [of t u] show ?case by (fastforce simp: slots_kept_def)
qed (simp add: slots_kept_same)

end
