(* ===== verification/Relay_Node.thy ===== *)
theory Relay_Node
  imports Relay_Server
begin

section \<open>Starting a node\<close>

text \<open>
  \<^verbatim>\<open>run_node\<close>, common to the visitor (B) and the provider (C): it connects to the server,
  sends REGISTER, waits for READY and hands the connection over. What both roles share
  follows: \<^verbatim>\<open>aconn_write\<close>, the address argument, and the results of a read.
\<close>

subsection \<open>The handshake\<close>

definition register_text :: "string \<Rightarrow> char \<Rightarrow> string" where
  "register_text tid role = tid @ '' '' @ [role]"

definition register_bytes :: "string \<Rightarrow> char \<Rightarrow> ByteVector" where
  "register_bytes tid role = build_frame_bytes REGISTER (bytes_of_string (register_text tid role))"

text \<open>
  The synchronous wait for READY on the bytes delivered so far. Unlike \<^verbatim>\<open>read_frame\<close> it
  accepts a length of 0, as an empty payload, which is a rejection.
\<close>

datatype ready_read = IsReady ByteVector | NotReady | ReadyThrows | ReadyWaits

definition read_ready :: "bool \<Rightarrow> ByteVector \<Rightarrow> ready_read" where
  "read_ready ended bs =
     (if length bs < 4 then (if ended then ReadyThrows else ReadyWaits)
      else let len = of_be32 (bs ! 0) (bs ! 1) (bs ! 2) (bs ! 3)
           in if length bs - 4 < unat len then (if ended then ReadyThrows else ReadyWaits)
              else let payload = take (unat len) (drop 4 bs)
                   in if payload = [] \<or> payload ! 0 \<noteq> READY then NotReady
                      else IsReady (drop (4 + unat len) bs))"

text \<open>
  \<^verbatim>\<open>make_address\<close>, the connection and the network are outside: \<open>connects\<close> says whether an
  endpoint accepts, \<open>writes\<close> whether the REGISTER frame can be written, and the answer is
  the bytes the server delivers. The last result starts the role's coroutine with the
  bytes that came behind READY.
\<close>

datatype node_result =
  BadRole
| BadAddress
| ConnectFailed
| NodeThrows
| Rejected
| Blocked
| Starts char ByteVector

definition run_node :: "(string \<Rightarrow> 'a option) \<Rightarrow> ('a \<times> u16 \<Rightarrow> bool) \<Rightarrow> (ByteVector \<Rightarrow> bool) \<Rightarrow> bool \<times> ByteVector
    \<Rightarrow> string \<Rightarrow> u16 \<Rightarrow> string \<Rightarrow> char \<Rightarrow> node_result" where
  "run_node make_address connects writes answer server_addr server_port tid role =
     (if role \<noteq> CHR ''B'' \<and> role \<noteq> CHR ''C'' then BadRole
      else case make_address server_addr of
        None \<Rightarrow> BadAddress
      | Some a \<Rightarrow>
          if \<not> connects (a, server_port) then ConnectFailed
          else if \<not> writes (register_bytes tid role) then NodeThrows
          else case read_ready (fst answer) (snd answer) of
                 ReadyThrows \<Rightarrow> NodeThrows
               | ReadyWaits \<Rightarrow> Blocked
               | NotReady \<Rightarrow> Rejected
               | IsReady rest \<Rightarrow> Starts role rest)"

subsection \<open>What the two roles share\<close>

text \<open>
  \<^verbatim>\<open>rfind(':')\<close>, then \<^verbatim>\<open>stoul\<close> cut to 16 bits. \<open>Ret None\<close> is the logged refusal of an
  argument with no colon.
\<close>

definition node_address :: "string \<Rightarrow> (string \<times> u16) option outcome" where
  "node_address addr = (case rfind_char CHR '':'' addr of
     None \<Rightarrow> Ret None
   | Some colon \<Rightarrow> obind (stoull (drop (colon + 1) addr))
       (\<lambda>port. Ret (Some (take colon addr, ucast port))))"

text \<open>
  A role's coroutine from its start to its first suspension. It is detached: an exception that
  leaves it is dropped, and the program ends as if nothing had happened.
\<close>

datatype 'a role_start = Refused | Swallowed | Runs 'a

definition role_begin :: "(string \<Rightarrow> 'a option) \<Rightarrow> string \<Rightarrow> ('a \<times> u16 \<Rightarrow> 'b role_start) \<Rightarrow> 'b role_start" where
  "role_begin make_address addr k = (case node_address addr of
     Ret None \<Rightarrow> Refused
   | Ret (Some (ip, port)) \<Rightarrow> (case make_address ip of None \<Rightarrow> Swallowed | Some a \<Rightarrow> k (a, port))
   | _ \<Rightarrow> Swallowed)"

text \<open>
  The call of \<^verbatim>\<open>aconn_write\<close>, up to its first suspension: it posts a handler to the strand of the connection with the
  server. The list holds the frames in the order of the posts, each with a mark of the
  session it is about. How the handlers build the frames and write their bytes in pieces
  is in \<open>Relay_Aconn\<close>.
\<close>

definition aconn_write :: "('k \<times> Frame) list \<Rightarrow> 'k \<Rightarrow> Method \<Rightarrow> ByteVector \<Rightarrow> ('k \<times> Frame) list" where
  "aconn_write out k m body = out @ [(k, mk_frame m body)]"

declare aconn_write_def [simp]

text \<open>The error code of \<^verbatim>\<open>async_read_some\<close>; with one of the errors no bytes are delivered.\<close>

datatype read_ec = ReadFine | ReadIsEof | ReadIsError

definition read_delivers :: "sock \<Rightarrow> read_ec \<Rightarrow> ByteVector \<Rightarrow> bool" where
  "read_delivers k ec x \<longleftrightarrow> length x \<le> 65536 \<and> (ec = ReadFine \<longleftrightarrow> x \<noteq> []) \<and> (\<not> is_open k \<longrightarrow> ec = ReadIsError)"

subsection \<open>Properties\<close>

lemma string_of_bytes_of_string [simp]: "string_of_bytes (bytes_of_string s) = s"
proof -
  have "unat (of_char c :: Byte) = of_char c" for c
    using unat_of_nat [of "of_char c :: nat", where 'a = 8] by (simp only: of_nat_of_char) (simp add: of_char_mod_256)
  then show ?thesis by (simp add: string_of_bytes_def bytes_of_string_def comp_def)
qed

lemma parse_register_text:
  assumes "CHR '' '' \<notin> set a"
  shows "parse_register (bytes_of_string (a @ '' '' @ r # rest)) =
    (if r = CHR ''B'' \<or> r = CHR ''C'' then Some (a, r) else None)"
proof -
  have "bytes_of_string (a @ '' '' @ r # rest) \<noteq> []" by (simp add: bytes_of_string_def)
  moreover have "find_char CHR '' '' (a @ '' '' @ r # rest) = Some (length a)"
    using find_char_append [OF assms, of "r # rest"] by simp
  ultimately show ?thesis by (simp add: parse_register_def Let_def nth_append)
qed

text \<open>
  Registration and its answer. Without a space in the id the server recovers from a
  node's REGISTER frame exactly the id and role the node was started with. With a space it
  does not: it takes the part before the first space as the id and the next character as
  the role. The node goes on exactly when the answer is a READY frame, keeping
  the bytes behind it, and gives up on the EOF that the server sends to a duplicate.
\<close>

theorem node_registers:
  assumes "CHR '' '' \<notin> set tid" "role = CHR ''B'' \<or> role = CHR ''C''" "fits_frame (bytes_of_string (register_text tid role))"
    and "make_address ip = Some a" "connects (a, port)" "writes (register_bytes tid role)"
  shows "(\<exists>body. read_frame False (register_bytes tid role) = GotFrame (mk_frame REGISTER body) [] \<and>
      parse_register body = Some (tid, role)) \<and>
    parse_register (bytes_of_string (register_text (tid @ '' '' @ r # more_text) role)) =
      (if r = CHR ''B'' \<or> r = CHR ''C'' then Some (tid, r) else None) \<and>
    run_node make_address connects writes (ended, write_frame READY [] @ rest) ip port tid role = Starts role rest \<and>
    run_node make_address connects writes (ended, write_frame FRAME_EOF [] @ rest) ip port tid role = Rejected"
proof -
  have "register_text tid role = tid @ '' '' @ role # []" by (simp add: register_text_def)
  then have "parse_register (bytes_of_string (register_text tid role)) = Some (tid, role)"
    using parse_register_text [OF assms(1), of role "[]"] assms(2) by simp
  moreover have "read_frame False (register_bytes tid role) =
      GotFrame (mk_frame REGISTER (bytes_of_string (register_text tid role))) []"
    using read_frame_written [OF assms(3), of False REGISTER "[]"] by (simp add: register_bytes_def build_frame_bytes_write_frame)
  moreover have "parse_register (bytes_of_string (register_text (tid @ '' '' @ r # more_text) role)) =
      (if r = CHR ''B'' \<or> r = CHR ''C'' then Some (tid, r) else None)"
    using parse_register_text [OF assms(1), of r "more_text @ '' '' @ [role]"] by (simp add: register_text_def)
  moreover have "read_ready ended (write_frame READY [] @ rest) = IsReady rest"
    "read_ready ended (write_frame FRAME_EOF [] @ rest) = NotReady"
    by (simp_all add: read_ready_def write_frame_def of_be32_def method_defs)
  ultimately show ?thesis using assms(2,4-6) by (auto simp: run_node_def)
qed

theorem node_registers_witness:
  "parse_register (bytes_of_string (register_text ''x'' CHR ''C'')) = Some (''x'', CHR ''C'') \<and>
   parse_register (bytes_of_string (register_text ''x Boss'' CHR ''C'')) = Some (''x'', CHR ''B'') \<and>
   run_node (\<lambda>_. Some ()) (\<lambda>_. True) (\<lambda>_. True) (False, write_frame READY []) ''h'' 1 ''x'' CHR ''C'' = Starts CHR ''C'' []"
proof -
  have "fits_frame (bytes_of_string (register_text ''x'' CHR ''C''))"
    by (simp add: fits_frame_def register_text_def bytes_of_string_def)
  from node_registers [where tid = "''x''" and role = "CHR ''C''" and make_address = "\<lambda>_. Some ()" and connects = "\<lambda>_. True"
      and writes = "\<lambda>_. True" and r = "CHR ''B''" and more_text = "''oss''" and ended = False and rest = "[]", OF _ _ this]
  have "run_node (\<lambda>_. Some ()) (\<lambda>_. True) (\<lambda>_. True) (False, write_frame READY []) ''h'' 1 ''x'' CHR ''C'' = Starts CHR ''C'' []"
    "parse_register (bytes_of_string (register_text ''x Boss'' CHR ''C'')) = Some (''x'', CHR ''B'')" by simp_all
  moreover have "parse_register (bytes_of_string (register_text ''x'' CHR ''C'')) = Some (''x'', CHR ''C'')" by code_simp
  ultimately show ?thesis by simp
qed

text \<open>
  The address of a role: without a colon it is refused with a message, otherwise the port is cut to
  16 bits, and a port that is no number ends the role without a message.
\<close>

lemma role_begin_cases:
  "CHR '':'' \<notin> set addr \<Longrightarrow> role_begin make_address addr k = Refused"
  "role_begin make_address ''h:65616'' k = (case make_address ''h'' of None \<Rightarrow> Swallowed | Some a \<Rightarrow> k (a, 80))"
  "role_begin make_address ''h:x'' k = Swallowed"
proof -
  have p: "stoull ''65616'' = Ret 65616" "stoull ''x'' = Throw (InvalidArgument ''stoull'')"
    by (simp_all add: stoull_def is_space_def digit_value_def)
  have c: "node_address ''h:65616'' = Ret (Some (''h'', 80))" "node_address ''h:x'' = Throw (InvalidArgument ''stoull'')"
    using p by (simp_all add: node_address_def)
  show "role_begin make_address ''h:65616'' k = (case make_address ''h'' of None \<Rightarrow> Swallowed | Some a \<Rightarrow> k (a, 80))"
    "role_begin make_address ''h:x'' k = Swallowed"
    using c by (simp_all add: role_begin_def)
  show "role_begin make_address addr k = Refused" if "CHR '':'' \<notin> set addr"
    using that unfolding rfind_char_None [symmetric] by (simp add: role_begin_def node_address_def)
qed

end
