(* ===== verification/Relay_Visitor.thy ===== *)
theory Relay_Visitor
  imports Relay_Node
begin

section \<open>The visitor\<close>

text \<open>
  Role B: \<^verbatim>\<open>run_visitor\<close> of \<^verbatim>\<open>relay.cpp\<close>. Clients are numbered in the order of their
  accepts and the number stands for the \<^verbatim>\<open>shared_ptr<ClientSession>\<close>; \<open>sessions\<close> is the
  map from uuids to them. There is one coroutine that reads the frames of the server, one
  that accepts, and one per client that reads it, each with the point where it is
  suspended. \<open>sent\<close> is what was handed to \<^verbatim>\<open>aconn_write\<close>, with the client it is about;
  \<open>seen\<close>, \<open>since\<close> and \<open>taken\<close> record the frames read from the server, how many of them had
  been read when a client was accepted, and the bytes read from each client.
  \<open>dangling\<close> says that the reader has used a reference into a map node that was erased.
\<close>

subsection \<open>State\<close>

record ClientSession =
  uuid :: string
  client :: sock
  half_close_recv :: bool
  half_close_send :: bool
  closed :: bool

definition new_client :: "string \<Rightarrow> ClientSession" where
  "new_client u = \<lparr>uuid = u, client = fresh_sock, half_close_recv = False, half_close_send = False, closed = False\<rparr>"

datatype reader_pc = ReaderReading | ReaderWriting string nat ByteVector | ReaderClosing string nat | ReaderEnded

datatype accept_pc = Accepting | Announcing nat | AcceptEnded

datatype client_pc = NoPump | PumpSpawned | PumpReading | PumpSentEof | PumpSentClose | PumpSentData | PumpEnded

record visitor =
  rng :: mt19937_64
  made :: nat
  objects :: "nat \<Rightarrow> ClientSession"
  sessions :: "string \<rightharpoonup> nat"
  reader :: reader_pc
  acceptor :: accept_pc
  pumps :: "nat \<Rightarrow> client_pc"
  sent :: "(nat \<times> Frame) list"
  seen :: "Frame list"
  since :: "nat \<Rightarrow> nat"
  taken :: "nat \<Rightarrow> ByteVector"
  dangling :: bool

definition visitor_start :: "mt19937_64 \<Rightarrow> visitor" where
  "visitor_start g = \<lparr>rng = g, made = 0, objects = \<lambda>_. new_client [], sessions = Map.empty,
     reader = ReaderReading, acceptor = Accepting, pumps = \<lambda>_. NoPump, sent = [], seen = [],
     since = \<lambda>_. 0, taken = \<lambda>_. [], dangling = False\<rparr>"

text \<open>\<^verbatim>\<open>run_visitor\<close> up to its loops; \<open>bind_ok\<close> says whether the acceptor can be opened on an endpoint.\<close>

definition run_visitor :: "(string \<Rightarrow> 'a option) \<Rightarrow> ('a \<times> u16 \<Rightarrow> bool) \<Rightarrow> mt19937_64 \<Rightarrow> string \<Rightarrow> (('a \<times> u16) \<times> visitor) role_start" where
  "run_visitor make_address bind_ok g listen_addr =
     role_begin make_address listen_addr (\<lambda>ep. if bind_ok ep then Runs (ep, visitor_start g) else Swallowed)"

definition upd_client :: "visitor \<Rightarrow> nat \<Rightarrow> (ClientSession \<Rightarrow> ClientSession) \<Rightarrow> visitor" where
  "upd_client v k f = v\<lparr>objects := (objects v)(k := f (objects v k))\<rparr>"

definition set_client_pc :: "visitor \<Rightarrow> nat \<Rightarrow> client_pc \<Rightarrow> visitor" where
  "set_client_pc v k p = v\<lparr>pumps := (pumps v)(k := p)\<rparr>"

definition send_frame :: "visitor \<Rightarrow> nat \<Rightarrow> Method \<Rightarrow> ByteVector \<Rightarrow> visitor" where
  "send_frame v k m body = v\<lparr>sent := aconn_write (sent v) k m body\<rparr>"

definition close_client :: "ClientSession \<Rightarrow> ClientSession" where
  "close_client s = s\<lparr>client := sock_close (client s)\<rparr>"

text \<open>
  A client is held by the map, by its pump while that runs, and by the accept loop until
  the pump is started. The last owner to let go destroys it, which closes its socket.
\<close>

definition held :: "visitor \<Rightarrow> nat \<Rightarrow> bool" where
  "held v k \<longleftrightarrow> sessions v (uuid (objects v k)) = Some k \<or> pumps v k \<notin> {NoPump, PumpEnded} \<or>
     acceptor v = Announcing k"

definition release :: "visitor \<Rightarrow> nat \<Rightarrow> visitor" where
  "release v k = (if held v k then v else upd_client v k close_client)"

definition erase :: "visitor \<Rightarrow> string \<Rightarrow> visitor" where
  "erase v u = (case sessions v u of
     None \<Rightarrow> v
   | Some k \<Rightarrow> release (v\<lparr>sessions := (sessions v)(u := None)\<rparr>) k)"

text \<open>The two loops over the map that close every client and then clear it.\<close>

definition close_clients :: "visitor \<Rightarrow> visitor" where
  "close_clients v = v\<lparr>objects := \<lambda>k. let s = objects v k
       in if sessions v (uuid s) = Some k then close_client s else s, sessions := Map.empty\<rparr>"

subsection \<open>The reader\<close>

text \<open>One frame, from the end of \<^verbatim>\<open>read_frame\<close> to the next suspension.\<close>

definition reader_end :: "visitor \<Rightarrow> visitor" where
  "reader_end v = (close_clients v)\<lparr>reader := ReaderEnded\<rparr>"

definition reader_frame :: "visitor \<Rightarrow> Frame \<Rightarrow> visitor" where
  "reader_frame v f =
     (if frame_method f = FRAME_EOF then reader_end v
      else if length (frame_body f) < UUID_BYTES then v
      else let u = string_of_bytes (take UUID_BYTES (frame_body f))
           in case sessions v u of
                None \<Rightarrow> v
              | Some k \<Rightarrow>
                  if frame_method f = SESSION_OK then v
                  else if frame_method f = SESSION_ERR then
                    erase (upd_client v k (\<lambda>s. close_client (s\<lparr>closed := True\<rparr>))) u
                  else if frame_method f = DATA then
                    (let data_len = length (frame_body f) - UUID_BYTES
                     in if data_len > 0 then v\<lparr>reader := ReaderWriting u k (drop UUID_BYTES (frame_body f))\<rparr> else v)
                  else if frame_method f = DATA_EOF then
                    (let v = upd_client v k (\<lambda>s. s\<lparr>half_close_recv := True, client := sock_shutdown_send (client s)\<rparr>)
                     in if half_close_send (objects v k) then erase (upd_client v k (\<lambda>s. s\<lparr>closed := True\<rparr>)) u else v)
                  else if frame_method f = SESSION_CLOSE then
                    erase (upd_client v k (\<lambda>s. close_client (s\<lparr>closed := True\<rparr>))) u
                  else v)"

definition reader_gets :: "visitor \<Rightarrow> frame_read \<Rightarrow> visitor" where
  "reader_gets v r = (case r of
     GotFrame f rest \<Rightarrow> reader_frame (v\<lparr>seen := seen v @ [f]\<rparr>) f
   | NoFrame \<Rightarrow> reader_end v
   | ReadThrows \<Rightarrow> reader_end v
   | Waiting \<Rightarrow> v)"

text \<open>
  The write of the data to the client; after an error SESSION_CLOSE, and then the session
  is reached again through \<^verbatim>\<open>s\<close> and \<^verbatim>\<open>it\<close>, which are good only while the map has the node. A
  second client with the same random uuid would take the node over; this, too, is counted
  as the loss of the session.
\<close>

definition reader_wrote :: "visitor \<Rightarrow> write_result \<Rightarrow> visitor" where
  "reader_wrote v r = (case reader v of
     ReaderWriting u k x \<Rightarrow>
       (let v = upd_client v k (\<lambda>s. s\<lparr>client := wrote r x (client s)\<rparr>)
        in if r = WriteOk then v\<lparr>reader := ReaderReading\<rparr>
           else (send_frame v k SESSION_CLOSE (build_uuid_body u))\<lparr>reader := ReaderClosing u k\<rparr>)
   | _ \<Rightarrow> v)"

definition reader_closed :: "visitor \<Rightarrow> visitor" where
  "reader_closed v = (case reader v of
     ReaderClosing u k \<Rightarrow>
       if sessions v u \<noteq> Some k then v\<lparr>dangling := True, reader := ReaderEnded\<rparr>
       else erase (upd_client (v\<lparr>reader := ReaderReading\<rparr>) k (\<lambda>s. close_client (s\<lparr>closed := True\<rparr>))) u
   | _ \<Rightarrow> v)"

subsection \<open>The accept loop\<close>

definition client_accepted :: "visitor \<Rightarrow> visitor" where
  "client_accepted v =
     (let (u, g) = generate_uuid (rng v); k = made v; old = sessions v u;
          v = v\<lparr>rng := g, made := k + 1, objects := (objects v)(k := new_client u),
                sessions := (sessions v)(u \<mapsto> k), since := (since v)(k := length (seen v))\<rparr>;
          v = (case old of None \<Rightarrow> v | Some j \<Rightarrow> release v j)
      in (send_frame v k NEW_SESSION (build_uuid_body u))\<lparr>acceptor := Announcing k\<rparr>)"

definition client_announced :: "visitor \<Rightarrow> nat \<Rightarrow> visitor" where
  "client_announced v k = (set_client_pc v k PumpSpawned)\<lparr>acceptor := Accepting\<rparr>"

definition accept_failed :: "visitor \<Rightarrow> visitor" where
  "accept_failed v = (close_clients v)\<lparr>acceptor := AcceptEnded\<rparr>"

subsection \<open>The pump of a client\<close>

text \<open>The loop's test, the end of the coroutine, a read, and the completion of a write.\<close>

definition pump_finish :: "visitor \<Rightarrow> nat \<Rightarrow> visitor" where
  "pump_finish v k =
     (let v = set_client_pc v k PumpEnded; s = objects v k
      in release (if closed s then erase v (uuid s) else v) k)"

definition pump_loop :: "visitor \<Rightarrow> nat \<Rightarrow> visitor" where
  "pump_loop v k = (if \<not> closed (objects v k) then set_client_pc v k PumpReading else pump_finish v k)"

definition pump_read :: "visitor \<Rightarrow> nat \<Rightarrow> read_ec \<Rightarrow> ByteVector \<Rightarrow> visitor" where
  "pump_read v k ec x =
     (let u = uuid (objects v k); v = v\<lparr>taken := (taken v)(k := taken v k @ x)\<rparr>
      in if ec = ReadIsEof \<or> length x = 0 then
           set_client_pc (send_frame (upd_client v k (\<lambda>s. s\<lparr>half_close_send := True\<rparr>)) k DATA_EOF (build_uuid_body u)) k PumpSentEof
         else if ec \<noteq> ReadFine then set_client_pc (send_frame v k SESSION_CLOSE (build_uuid_body u)) k PumpSentClose
         else set_client_pc (send_frame v k DATA (build_uuid_data_body u x)) k PumpSentData)"

definition pump_sent :: "visitor \<Rightarrow> nat \<Rightarrow> visitor" where
  "pump_sent v k = (case pumps v k of
     PumpSentEof \<Rightarrow>
       pump_finish (if half_close_recv (objects v k) then upd_client v k (\<lambda>s. s\<lparr>closed := True\<rparr>) else v) k
   | PumpSentClose \<Rightarrow> pump_finish (upd_client v k (\<lambda>s. s\<lparr>closed := True\<rparr>)) k
   | PumpSentData \<Rightarrow> pump_loop v k
   | _ \<Rightarrow> v)"

subsection \<open>Steps\<close>

datatype visitor_event =
  ReaderGets frame_read
| ReaderWrote write_result
| ReaderClosed
| ClientAccepted
| AcceptFailed
| ClientAnnounced
| PumpStarts nat
| PumpReads nat read_ec ByteVector
| PumpSent nat

fun visitor_turn :: "visitor \<Rightarrow> visitor_event \<Rightarrow> visitor option" where
  "visitor_turn v (ReaderGets r) =
     (if reader v = ReaderReading \<and> r \<noteq> Waiting then Some (reader_gets v r) else None)"
| "visitor_turn v (ReaderWrote r) = (case reader v of
     ReaderWriting u k x \<Rightarrow>
       if unusable (client (objects v k)) \<longrightarrow> r \<noteq> WriteOk then Some (reader_wrote v r) else None
   | _ \<Rightarrow> None)"
| "visitor_turn v ReaderClosed = (case reader v of ReaderClosing u k \<Rightarrow> Some (reader_closed v) | _ \<Rightarrow> None)"
| "visitor_turn v ClientAccepted = (if acceptor v = Accepting then Some (client_accepted v) else None)"
| "visitor_turn v AcceptFailed = (if acceptor v = Accepting then Some (accept_failed v) else None)"
| "visitor_turn v ClientAnnounced = (case acceptor v of
     Announcing k \<Rightarrow> Some (client_announced v k) | _ \<Rightarrow> None)"
| "visitor_turn v (PumpStarts k) = (if pumps v k = PumpSpawned then Some (pump_loop v k) else None)"
| "visitor_turn v (PumpReads k ec x) =
     (if pumps v k = PumpReading \<and> read_delivers (client (objects v k)) ec x then Some (pump_read v k ec x) else None)"
| "visitor_turn v (PumpSent k) =
     (if pumps v k \<in> {PumpSentEof, PumpSentClose, PumpSentData} then Some (pump_sent v k) else None)"

text \<open>After a dangling reference has been used the C++ standard promises nothing: no step is modelled.\<close>

definition visitor_move :: "visitor \<Rightarrow> visitor_event \<Rightarrow> visitor option" where
  "visitor_move v e = (if dangling v then None else visitor_turn v e)"

inductive visitor_step :: "visitor \<Rightarrow> visitor \<Rightarrow> bool" where
  visitor_moves: "visitor_move v e = Some w \<Longrightarrow> visitor_step v w"

inductive_cases visitor_stepE: "visitor_step v w"

interpretation visitor: played_moves visitor_step visitor_move
  by unfold_locales (rule visitor_moves)

end
