(* ===== verification/Relay_Provider.thy ===== *)
theory Relay_Provider
  imports Relay_Node
begin

section \<open>The provider\<close>

text \<open>
  Role C: \<^verbatim>\<open>run_provider\<close> of \<^verbatim>\<open>relay.cpp\<close>. Sessions are numbered in the order of the
  FORWARD_SESSION frames and the number stands for the \<^verbatim>\<open>shared_ptr<SessionState>\<close>. One
  coroutine reads the frames of the server; each session has one that connects to the
  target, drains the arrival buffer and then reads the target. The frame reader and the
  drain can be writing to the same socket at once, so a write makes progress in pieces:
  a pc holds what is left of the buffer. \<open>sent\<close>, \<open>seen\<close>, \<open>since\<close> and \<open>taken\<close> are as in the
  visitor.
\<close>

subsection \<open>State\<close>

record SessionState =
  uuid :: string
  remote :: "sock option"
  arrival_buffer :: "ByteVector list"
  remote_connected :: bool
  connecting :: bool
  half_close_recv :: bool
  half_close_send :: bool
  closed :: bool

definition new_state :: "string \<Rightarrow> SessionState" where
  "new_state u = \<lparr>uuid = u, remote = None, arrival_buffer = [], remote_connected = False, connecting = False,
     half_close_recv = False, half_close_send = False, closed = False\<rparr>"

datatype frames_pc = FramesReading | FramesWriting nat ByteVector | FramesEnded

datatype session_pc = NoSession | Connecting | SentErr | SentOk | Draining nat ByteVector | RemoteReading
  | SentEof | SentClose | SentData | SessionEnded

record provider =
  made :: nat
  states :: "nat \<Rightarrow> SessionState"
  sessions :: "string \<rightharpoonup> nat"
  frames :: frames_pc
  procs :: "nat \<Rightarrow> session_pc"
  sent :: "(nat \<times> Frame) list"
  seen :: "Frame list"
  since :: "nat \<Rightarrow> nat"
  taken :: "nat \<Rightarrow> ByteVector"

definition provider_start :: provider where
  "provider_start = \<lparr>made = 0, states = \<lambda>_. new_state [], sessions = Map.empty, frames = FramesReading,
     procs = \<lambda>_. NoSession, sent = [], seen = [], since = \<lambda>_. 0, taken = \<lambda>_. []\<rparr>"

text \<open>\<^verbatim>\<open>run_provider\<close> up to the first frame, with the endpoint that every session connects to.\<close>

definition run_provider :: "(string \<Rightarrow> 'a option) \<Rightarrow> string \<Rightarrow> (('a \<times> u16) \<times> provider) role_start" where
  "run_provider make_address target_addr = role_begin make_address target_addr (\<lambda>target_ep. Runs (target_ep, provider_start))"

definition upd_state :: "provider \<Rightarrow> nat \<Rightarrow> (SessionState \<Rightarrow> SessionState) \<Rightarrow> provider" where
  "upd_state p k f = p\<lparr>states := (states p)(k := f (states p k))\<rparr>"

definition set_proc :: "provider \<Rightarrow> nat \<Rightarrow> session_pc \<Rightarrow> provider" where
  "set_proc p k pc = p\<lparr>procs := (procs p)(k := pc)\<rparr>"

definition send_for :: "provider \<Rightarrow> nat \<Rightarrow> Method \<Rightarrow> ByteVector \<Rightarrow> provider" where
  "send_for p k m body = p\<lparr>sent := aconn_write (sent p) k m body\<rparr>"

definition on_remote :: "(sock \<Rightarrow> sock) \<Rightarrow> SessionState \<Rightarrow> SessionState" where
  "on_remote f s = s\<lparr>remote := map_option f (remote s)\<rparr>"

text \<open>The map and the session's coroutine own the state, which owns the socket.\<close>

definition kept :: "provider \<Rightarrow> nat \<Rightarrow> bool" where
  "kept p k \<longleftrightarrow> sessions p (uuid (states p k)) = Some k \<or> procs p k \<notin> {NoSession, SessionEnded}"

definition let_go :: "provider \<Rightarrow> nat \<Rightarrow> provider" where
  "let_go p k = (if kept p k then p else upd_state p k (on_remote sock_close))"

definition erase_session :: "provider \<Rightarrow> string \<Rightarrow> provider" where
  "erase_session p u = (case sessions p u of
     None \<Rightarrow> p
   | Some k \<Rightarrow> let_go (p\<lparr>sessions := (sessions p)(u := None)\<rparr>) k)"

subsection \<open>The frames of the server\<close>

definition provider_end :: "provider \<Rightarrow> provider" where
  "provider_end p = p\<lparr>states := \<lambda>k. let s = states p k
       in if sessions p (uuid s) = Some k then on_remote sock_close s else s,
     sessions := Map.empty, frames := FramesEnded\<rparr>"

definition forward_session :: "provider \<Rightarrow> ByteVector \<Rightarrow> provider" where
  "forward_session p body =
     (let u = string_of_bytes body; k = made p; old = sessions p u;
          p = p\<lparr>made := k + 1, states := (states p)(k := (new_state u)\<lparr>connecting := True\<rparr>),
                sessions := (sessions p)(u \<mapsto> k), procs := (procs p)(k := Connecting),
                since := (since p)(k := length (seen p))\<rparr>
      in case old of None \<Rightarrow> p | Some j \<Rightarrow> let_go p j)"

definition frame_data :: "provider \<Rightarrow> ByteVector \<Rightarrow> provider" where
  "frame_data p body =
     (if length body < UUID_BYTES then p
      else case sessions p (string_of_bytes (take UUID_BYTES body)) of
             None \<Rightarrow> p
           | Some k \<Rightarrow>
               (let s = states p k
                in if closed s then p
                   else if remote_connected s then p\<lparr>frames := FramesWriting k (drop UUID_BYTES body)\<rparr>
                   else if connecting s then
                     upd_state p k (\<lambda>s. s\<lparr>arrival_buffer := arrival_buffer s @ [drop UUID_BYTES body]\<rparr>)
                   else p))"

definition frame_data_eof :: "provider \<Rightarrow> ByteVector \<Rightarrow> provider" where
  "frame_data_eof p body = (case sessions p (string_of_bytes body) of
     None \<Rightarrow> p
   | Some k \<Rightarrow>
       (let p = upd_state p k (\<lambda>s. s\<lparr>half_close_recv := True\<rparr>);
            p = (if remote_connected (states p k) then upd_state p k (on_remote sock_shutdown_send) else p)
        in if half_close_send (states p k)
           then erase_session (upd_state p k (\<lambda>s. s\<lparr>closed := True\<rparr>)) (string_of_bytes body) else p))"

definition frame_session_close :: "provider \<Rightarrow> ByteVector \<Rightarrow> provider" where
  "frame_session_close p body = (case sessions p (string_of_bytes body) of
     None \<Rightarrow> p
   | Some k \<Rightarrow> erase_session (upd_state p k (\<lambda>s. on_remote sock_close (s\<lparr>closed := True\<rparr>))) (string_of_bytes body))"

definition provider_frame :: "provider \<Rightarrow> Frame \<Rightarrow> provider" where
  "provider_frame p f =
     (let m = frame_method f
      in if m = FRAME_EOF then provider_end p
         else if m = FORWARD_SESSION then forward_session p (frame_body f)
         else if m = DATA then frame_data p (frame_body f)
         else if m = DATA_EOF then frame_data_eof p (frame_body f)
         else if m = SESSION_CLOSE then frame_session_close p (frame_body f)
         else p)"

definition provider_gets :: "provider \<Rightarrow> frame_read \<Rightarrow> provider" where
  "provider_gets p r = (case r of
     GotFrame f rest \<Rightarrow> provider_frame (p\<lparr>seen := seen p @ [f]\<rparr>) f
   | NoFrame \<Rightarrow> provider_end p
   | ReadThrows \<Rightarrow> provider_end p
   | Waiting \<Rightarrow> p)"

text \<open>
  The write of a DATA frame to the target. It throws on an error, and only the handler
  around the whole loop catches that.
\<close>

definition frame_written :: "provider \<Rightarrow> write_result \<Rightarrow> provider" where
  "frame_written p r = (case frames p of
     FramesWriting k x \<Rightarrow>
       (let p = upd_state p k (on_remote (wrote r x))
        in if r = WriteOk then p\<lparr>frames := FramesReading\<rparr> else provider_end p)
   | _ \<Rightarrow> p)"

definition frame_written_some :: "provider \<Rightarrow> nat \<Rightarrow> provider" where
  "frame_written_some p n = (case frames p of
     FramesWriting k x \<Rightarrow>
       (upd_state p k (on_remote (\<lambda>s. sock_write s (take n x))))\<lparr>frames := FramesWriting k (drop n x)\<rparr>
   | _ \<Rightarrow> p)"

subsection \<open>The coroutine of a session\<close>

text \<open>The end of the coroutine takes the uuid off the map, whoever has it now.\<close>

definition session_finish :: "provider \<Rightarrow> nat \<Rightarrow> provider" where
  "session_finish p k = let_go (erase_session (set_proc p k SessionEnded) (uuid (states p k))) k"

definition session_loop :: "provider \<Rightarrow> nat \<Rightarrow> provider" where
  "session_loop p k = (if \<not> closed (states p k) then set_proc p k RemoteReading else session_finish p k)"

definition session_connected :: "provider \<Rightarrow> nat \<Rightarrow> bool \<Rightarrow> provider" where
  "session_connected p k ok =
     (let u = uuid (states p k)
      in if \<not> ok then set_proc (send_for p k SESSION_ERR (build_uuid_body u)) k SentErr
         else set_proc (send_for (upd_state p k (\<lambda>s. s\<lparr>remote := Some fresh_sock, remote_connected := True, connecting := False\<rparr>))
                k SESSION_OK (build_uuid_body u)) k SentOk)"

definition drain_next :: "provider \<Rightarrow> nat \<Rightarrow> nat \<Rightarrow> provider" where
  "drain_next p k i =
     (if i < length (arrival_buffer (states p k)) then set_proc p k (Draining i (arrival_buffer (states p k) ! i))
      else let p = upd_state p k (\<lambda>s. s\<lparr>arrival_buffer := []\<rparr>);
               p = (if half_close_recv (states p k) then upd_state p k (on_remote sock_shutdown_send) else p)
           in session_loop p k)"

text \<open>
  A write of the drain completes. Its exception leaves the coroutine, since the handler
  is only around the loop that follows: the session stays on the map.
\<close>

definition drain_written :: "provider \<Rightarrow> nat \<Rightarrow> write_result \<Rightarrow> provider" where
  "drain_written p k r = (case procs p k of
     Draining i x \<Rightarrow>
       (let p = upd_state p k (on_remote (wrote r x))
        in if r = WriteOk then drain_next p k (i + 1) else let_go (set_proc p k SessionEnded) k)
   | _ \<Rightarrow> p)"

definition drain_written_some :: "provider \<Rightarrow> nat \<Rightarrow> nat \<Rightarrow> provider" where
  "drain_written_some p k n = (case procs p k of
     Draining i x \<Rightarrow> set_proc (upd_state p k (on_remote (\<lambda>s. sock_write s (take n x)))) k (Draining i (drop n x))
   | _ \<Rightarrow> p)"

definition target_read :: "provider \<Rightarrow> nat \<Rightarrow> read_ec \<Rightarrow> ByteVector \<Rightarrow> provider" where
  "target_read p k ec x =
     (let u = uuid (states p k); p = p\<lparr>taken := (taken p)(k := taken p k @ x)\<rparr>
      in if ec = ReadIsEof \<or> length x = 0 then
           set_proc (send_for (upd_state p k (\<lambda>s. s\<lparr>half_close_send := True\<rparr>)) k DATA_EOF (build_uuid_body u)) k SentEof
         else if ec \<noteq> ReadFine then set_proc (send_for p k SESSION_CLOSE (build_uuid_body u)) k SentClose
         else set_proc (send_for p k DATA (build_uuid_data_body u x)) k SentData)"

definition session_sent :: "provider \<Rightarrow> nat \<Rightarrow> provider" where
  "session_sent p k = (case procs p k of
     SentErr \<Rightarrow> session_finish (upd_state p k (\<lambda>s. s\<lparr>closed := True\<rparr>)) k
   | SentOk \<Rightarrow> drain_next p k 0
   | SentEof \<Rightarrow>
       session_finish (if half_close_recv (states p k) then upd_state p k (\<lambda>s. s\<lparr>closed := True\<rparr>) else p) k
   | SentClose \<Rightarrow> session_finish (upd_state p k (\<lambda>s. s\<lparr>closed := True\<rparr>)) k
   | SentData \<Rightarrow> session_loop p k
   | _ \<Rightarrow> p)"

subsection \<open>Steps\<close>

datatype provider_event =
  FrameRead frame_read
| FrameWritten write_result
| FrameWrittenSome nat
| Connected nat bool
| DrainWritten nat write_result
| DrainWrittenSome nat nat
| RemoteRead nat read_ec ByteVector
| Sent nat

definition remote_of :: "provider \<Rightarrow> nat \<Rightarrow> sock" where
  "remote_of p k = (case remote (states p k) of Some s \<Rightarrow> s | None \<Rightarrow> sock_close fresh_sock)"

fun provider_move :: "provider \<Rightarrow> provider_event \<Rightarrow> provider option" where
  "provider_move p (FrameRead r) =
     (if frames p = FramesReading \<and> r \<noteq> Waiting then Some (provider_gets p r) else None)"
| "provider_move p (FrameWritten r) = (case frames p of
     FramesWriting k x \<Rightarrow> if x \<noteq> [] \<and> unusable (remote_of p k) \<longrightarrow> r \<noteq> WriteOk then Some (frame_written p r) else None
   | _ \<Rightarrow> None)"
| "provider_move p (FrameWrittenSome n) = (case frames p of
     FramesWriting k x \<Rightarrow>
       if n < length x \<and> \<not> unusable (remote_of p k) then Some (frame_written_some p n) else None
   | _ \<Rightarrow> None)"
| "provider_move p (Connected k ok) = (if procs p k = Connecting then Some (session_connected p k ok) else None)"
| "provider_move p (DrainWritten k r) = (case procs p k of
     Draining i x \<Rightarrow> if x \<noteq> [] \<and> unusable (remote_of p k) \<longrightarrow> r \<noteq> WriteOk then Some (drain_written p k r) else None
   | _ \<Rightarrow> None)"
| "provider_move p (DrainWrittenSome k n) = (case procs p k of
     Draining i x \<Rightarrow>
       if n < length x \<and> \<not> unusable (remote_of p k) then Some (drain_written_some p k n) else None
   | _ \<Rightarrow> None)"
| "provider_move p (RemoteRead k ec x) =
     (if procs p k = RemoteReading \<and> read_delivers (remote_of p k) ec x then Some (target_read p k ec x) else None)"
| "provider_move p (Sent k) =
     (if procs p k \<in> {SentErr, SentOk, SentEof, SentClose, SentData} then Some (session_sent p k) else None)"

inductive provider_step :: "provider \<Rightarrow> provider \<Rightarrow> bool" where
  provider_moves: "provider_move p e = Some q \<Longrightarrow> provider_step p q"

inductive_cases provider_stepE: "provider_step p q"

interpretation provider: played_moves provider_step provider_move
  by unfold_locales (rule provider_moves)

end
