(* ===== verification/Cli.thy ===== *)
theory Cli
  imports Tunnel_Accept Udp Relay_Visitor Relay_Provider
begin

section \<open>The command line\<close>

text \<open>
  \<^verbatim>\<open>main.cpp\<close> around CLI11: the overrides of its help formatter, whose base class is a
  parameter, and what happens after the arguments have been parsed: which subcommand was given
  and the values of its options (the record \<open>cli\<close>), and what the program then runs and
  how it ends. The parser itself is third-party.
\<close>

subsection \<open>Help\<close>

text \<open>The functions of CLI11 that \<^verbatim>\<open>LinuxFormatter\<close> builds on, on an application \<open>'a\<close> and its options \<open>'o\<close>.\<close>

datatype AppFormatMode = Normal | All | Sub

record ('a, 'o) formatter =
  base_make_usage :: "'a \<Rightarrow> string \<Rightarrow> string"
  base_make_group :: "string \<Rightarrow> bool \<Rightarrow> 'o list \<Rightarrow> string"
  make_expanded :: "'a \<Rightarrow> AppFormatMode \<Rightarrow> string"
  get_description :: "'a \<Rightarrow> string"
  make_positionals :: "'a \<Rightarrow> string"
  make_groups :: "'a \<Rightarrow> AppFormatMode \<Rightarrow> string"
  make_subcommands :: "'a \<Rightarrow> AppFormatMode \<Rightarrow> string"
  make_footer :: "'a \<Rightarrow> string"

abbreviation newline :: char where
  "newline \<equiv> CHR 0x0A"

fun find_first_not_of :: "char \<Rightarrow> string \<Rightarrow> nat option" where
  "find_first_not_of c [] = None"
| "find_first_not_of c (x # xs) = (if x \<noteq> c then Some 0 else map_option Suc (find_first_not_of c xs))"

fun find_last_not_of :: "char \<Rightarrow> string \<Rightarrow> nat option" where
  "find_last_not_of c [] = None"
| "find_last_not_of c (x # xs) = (case find_last_not_of c xs of
     Some i \<Rightarrow> Some (Suc i)
   | None \<Rightarrow> if x \<noteq> c then Some 0 else None)"

definition make_usage :: "('a, 'o) formatter \<Rightarrow> 'a \<Rightarrow> string \<Rightarrow> string" where
  "make_usage F app name =
     (let u = base_make_usage F app name
      in case (find_first_not_of newline u, find_last_not_of newline u) of
           (Some start, Some end_) \<Rightarrow> ''Usage: '' @ take (end_ - start + 1) (drop start u) @ [newline]
         | _ \<Rightarrow> ''Usage: '' @ name @ [newline])"

definition make_group :: "('a, 'o) formatter \<Rightarrow> string \<Rightarrow> bool \<Rightarrow> 'o list \<Rightarrow> string" where
  "make_group F grp pos opts = base_make_group F (if grp = ''OPTIONS'' then ''Options'' else grp) pos opts"

definition make_help :: "('a, 'o) formatter \<Rightarrow> 'a \<Rightarrow> string \<Rightarrow> AppFormatMode \<Rightarrow> string" where
  "make_help F app name mode =
     (if mode = Sub then make_expanded F app mode
      else let desc = get_description F app
           in make_usage F app name @ (if desc \<noteq> [] then desc @ [newline] else []) @ make_positionals F app @
              make_groups F app mode @ make_subcommands F app mode @ make_footer F app)"

text \<open>The usage is one block: what is kept has no newline at either end, and one follows it.\<close>

lemma find_first_takes: "find_first_not_of c s = Some i \<Longrightarrow> drop i s = dropWhile (\<lambda>x. x = c) s"
  by (induction s arbitrary: i) (auto split: if_splits)

lemma find_first_None: "find_first_not_of c s = None \<longleftrightarrow> set s \<subseteq> {c}"
  by (induction s) auto

lemma find_last_None: "find_last_not_of c s = None \<longleftrightarrow> set s \<subseteq> {c}"
  by (induction s) (auto split: option.splits)

lemma find_last_Some: "find_last_not_of c s = Some i \<Longrightarrow> i < length s \<and> s ! i \<noteq> c \<and> set (drop (i + 1) s) \<subseteq> {c}"
  by (induction s arbitrary: i) (auto simp: find_last_None split: option.splits if_splits)

lemma find_first_Some: "find_first_not_of c s = Some i \<Longrightarrow> i < length s \<and> s ! i \<noteq> c \<and> set (take i s) \<subseteq> {c}"
  by (induction s arbitrary: i) (auto split: if_splits)

lemma make_usage_block:
  "\<exists>t. make_usage F app name = ''Usage: '' @ t @ [newline] \<and>
    (\<not> set (base_make_usage F app name) \<subseteq> {newline} \<longrightarrow> t \<noteq> [] \<and> hd t \<noteq> newline \<and> List.last t \<noteq> newline)"
proof (cases "set (base_make_usage F app name) \<subseteq> {newline}")
  case True
  then show ?thesis by (simp add: make_usage_def Let_def find_first_None [THEN iffD2])
next
  case False
  let ?u = "base_make_usage F app name"
  obtain i j where ij: "find_first_not_of newline ?u = Some i" "find_last_not_of newline ?u = Some j"
    using False find_first_None [of newline ?u] find_last_None [of newline ?u] by (metis option.exhaust)
  note i = find_first_Some [OF ij(1)] and j = find_last_Some [OF ij(2)]
  have "i \<le> j"
  proof (rule ccontr)
    assume "\<not> i \<le> j"
    then have "?u ! i \<in> set (drop (j + 1) ?u)" using i by (metis Cons_nth_drop_Suc add.commute drop_drop in_set_dropD le_add_diff_inverse
        list.set_intros(1) not_less_eq_eq plus_1_eq_Suc)
    with i j show False by auto
  qed
  let ?t = "take (j - i + 1) (drop i ?u)"
  have "length ?t = j - i + 1" using \<open>i \<le> j\<close> j by (simp add: min_def) linarith
  then have "?t \<noteq> []" "hd ?t = ?u ! i" "List.last ?t = ?u ! j"
    using i j \<open>i \<le> j\<close> by (auto simp: hd_conv_nth last_conv_nth)
  then show ?thesis using i j by (simp add: make_usage_def ij Let_def)
qed

subsection \<open>Options and dispatch\<close>

definition version :: string where
  "version = ''0.1.0''"

text \<open>\<^verbatim>\<open>--about\<close>; the version of Boost comes from its header.\<close>

definition cmd_about :: "string \<Rightarrow> string \<times> nat" where
  "cmd_about BOOST_LIB_VERSION =
     (''msg801 version: '' @ version @ [newline] @ ''Boost version: '' @ BOOST_LIB_VERSION @ [newline], 0)"

record cli =
  show_about :: bool
  relay_parsed :: bool
  tunnel_parsed :: bool
  send_parsed :: bool
  serve_parsed :: bool
  tunnel_listen :: string
  tunnel_remote :: string
  tunnel_processors :: "string list"
  tunnel_reverse :: bool
  relay_server :: string
  relay_server_port :: u16
  relay_id :: string
  relay_listen :: string
  relay_target :: string
  relay_is_server :: bool
  relay_is_visitor :: bool
  relay_is_provider :: bool
  send_ip :: string
  send_port :: u16
  send_message :: string
  serve_port :: u16

datatype action =
  CmdAbout
| RunServer u16
| RunNode string u16 string char string
| RunTunnel string string "string list" bool
| SendUdp string u16 string
| ServeUdp u16
| ShowHelp
| UsageError string

definition main_dispatch :: "cli \<Rightarrow> action" where
  "main_dispatch c =
     (if show_about c then CmdAbout
      else if relay_parsed c then
        if relay_is_server c then RunServer (relay_server_port c)
        else if relay_is_visitor c \<and> relay_listen c = []
        then UsageError ''Error: --listen is required for visitor''
        else if \<not> relay_is_visitor c \<and> relay_is_provider c \<and> relay_target c = []
        then UsageError ''Error: --target is required for provider''
        else if \<not> relay_is_visitor c \<and> \<not> relay_is_provider c
        then UsageError ''Error: specify --visitor (B) or --provider (C)''
        else
          let role = (if relay_is_visitor c then CHR ''B'' else CHR ''C'')
          in if relay_server c = [] then UsageError ''Error: --connect is required for node mode''
             else RunNode (relay_server c) (relay_server_port c) (relay_id c) role
                    (if role = CHR ''B'' then relay_listen c else relay_target c)
      else if tunnel_parsed c
      then RunTunnel (tunnel_listen c) (tunnel_remote c) (tunnel_processors c) (tunnel_reverse c)
      else if send_parsed c then SendUdp (send_ip c) (send_port c) (send_message c)
      else if serve_parsed c then ServeUdp (serve_port c)
      else ShowHelp)"

text \<open>
  How the process ends: with an exit code, by an exception that nobody catches, or not by
  itself, since an event loop or a blocking read goes on. The network is a parameter: addresses, whether an
  endpoint can be bound (\<open>binds_any\<close> is for a port on all addresses) or connected to, what
  the relay server answers, and the UDP side. An event loop that runs out of work returns,
  and \<^verbatim>\<open>main\<close> returns success.
\<close>

datatype ending = Exits nat | Aborts | Runs_on

record 'a network =
  resolve :: "string \<Rightarrow> 'a option"
  binds :: "'a \<times> u16 \<Rightarrow> bool"
  binds_any :: "u16 \<Rightarrow> bool"
  reaches :: "'a \<times> u16 \<Rightarrow> bool"
  takes :: "ByteVector \<Rightarrow> bool"
  answers :: "bool \<times> ByteVector"
  udp :: "'a udp_net"
  udp_bind :: "string option"
  datagrams :: "(string + string \<times> u16 \<times> string) list"

definition EXIT_SUCCESS :: nat where "EXIT_SUCCESS = 0"
definition EXIT_FAILURE :: nat where "EXIT_FAILURE = 1"

text \<open>The role of a node that the server has accepted; when its coroutine ends at once, so does the event loop.\<close>

definition role_ending :: "'r role_start \<Rightarrow> ending" where
  "role_ending r = (case r of Refused \<Rightarrow> Exits EXIT_SUCCESS | Swallowed \<Rightarrow> Exits EXIT_SUCCESS | Runs x \<Rightarrow> Runs_on)"

definition node_ending :: "'a network \<Rightarrow> mt19937_64 \<Rightarrow> string \<Rightarrow> u16 \<Rightarrow> string \<Rightarrow> char \<Rightarrow> string \<Rightarrow> ending" where
  "node_ending N g server port nid role extra =
     (case run_node (resolve N) (reaches N) (takes N) (answers N) server port nid role of
        BadRole \<Rightarrow> Exits EXIT_SUCCESS
      | BadAddress \<Rightarrow> Aborts
      | ConnectFailed \<Rightarrow> Exits EXIT_SUCCESS
      | NodeThrows \<Rightarrow> Aborts
      | Rejected \<Rightarrow> Exits EXIT_SUCCESS
      | Blocked \<Rightarrow> Runs_on
      | Starts role rest \<Rightarrow>
          if role = CHR ''B'' then role_ending (run_visitor (resolve N) (binds N) g extra)
          else role_ending (run_provider (resolve N) extra))"

definition tunnel_ending :: "'a tunnel_setup \<Rightarrow> ending" where
  "tunnel_ending t = (case t of Listening l r \<Rightarrow> Runs_on | SetupThrows \<Rightarrow> Aborts | _ \<Rightarrow> Exits EXIT_SUCCESS)"

definition main_exit :: "'w ext \<Rightarrow> 'w \<Rightarrow> mt19937_64 \<Rightarrow> 'a network \<Rightarrow> cli \<Rightarrow> ending" where
  "main_exit E w g N c = (case main_dispatch c of
     CmdAbout \<Rightarrow> Exits EXIT_SUCCESS
   | RunServer port \<Rightarrow> if binds_any N port then Runs_on else Aborts
   | RunNode server port nid role extra \<Rightarrow> node_ending N g server port nid role extra
   | RunTunnel laddr raddr specs rv \<Rightarrow> tunnel_ending (run_tunnel E w (resolve N) (binds N) laddr raddr specs rv)
   | SendUdp ip port msg \<Rightarrow> Exits (if success (send_udp (udp N) ip port msg) then EXIT_SUCCESS else EXIT_FAILURE)
   | ServeUdp port \<Rightarrow> (case snd (serve_udp port (udp_bind N) (datagrams N)) of None \<Rightarrow> Runs_on | Some code \<Rightarrow> Exits code)
   | ShowHelp \<Rightarrow> Exits EXIT_SUCCESS
   | UsageError e \<Rightarrow> Exits EXIT_FAILURE)"

subsection \<open>Properties\<close>

text \<open>
  A relay node is only run with a usable role: the server address and the
  address the role needs are given, the role is B or C, so that the role check of the node
  never fails, and the extra address is the listen address of a visitor and the target
  of a provider.
\<close>

theorem node_arguments_complete:
  assumes "main_dispatch c = RunNode srv port nid role extra"
  shows "srv \<noteq> [] \<and> extra \<noteq> [] \<and>
    (role = CHR ''B'' \<and> relay_is_visitor c \<and> extra = relay_listen c \<or>
     role = CHR ''C'' \<and> relay_is_provider c \<and> extra = relay_target c)"
  using assms by (auto simp: main_dispatch_def Let_def split: if_splits)

definition demo_cli :: cli where
  "demo_cli = \<lparr>show_about = False, relay_parsed = True, tunnel_parsed = False, send_parsed = False,
     serve_parsed = False, tunnel_listen = [], tunnel_remote = [], tunnel_processors = [],
     tunnel_reverse = False, relay_server = ''10.0.0.1'', relay_server_port = 9000, relay_id = ''x'',
     relay_listen = ''0.0.0.0:80'', relay_target = [], relay_is_server = False, relay_is_visitor = True,
     relay_is_provider = False, send_ip = [], send_port = 0, send_message = [], serve_port = 0\<rparr>"

theorem node_arguments_complete_witness:
  "main_dispatch demo_cli = RunNode ''10.0.0.1'' 9000 ''x'' (CHR ''B'') ''0.0.0.0:80'' \<and>
   ''0.0.0.0:80'' = relay_listen demo_cli"
proof -
  have d: "main_dispatch demo_cli = RunNode ''10.0.0.1'' 9000 ''x'' (CHR ''B'') ''0.0.0.0:80''"
    by (simp add: main_dispatch_def demo_cli_def)
  from node_arguments_complete [OF d] d show ?thesis by (simp add: demo_cli_def)
qed

text \<open>
  The failure code comes from a usage error of the relay, a message that could not be sent, or
  the end of the UDP server. A tunnel or a node whose arguments are refused or whose
  server cannot be reached reports it in the log only.
\<close>

lemma exit_failures:
  "main_exit E w g N c = Exits EXIT_FAILURE \<longleftrightarrow>
    (\<exists>e. main_dispatch c = UsageError e) \<or>
    (\<exists>ip port msg. main_dispatch c = SendUdp ip port msg \<and> \<not> success (send_udp (udp N) ip port msg)) \<or>
    (\<exists>port. main_dispatch c = ServeUdp port \<and> snd (serve_udp port (udp_bind N) (datagrams N)) \<noteq> None)"
proof -
  have served: "snd (serve_udp port b rs) = Some code \<Longrightarrow> code = EXIT_FAILURE" for port b rs code
    by (auto simp: serve_udp_def EXIT_FAILURE_def split: prod.splits option.splits)
  have "node_ending N g server port nid role extra \<noteq> Exits EXIT_FAILURE" for server port nid role extra
    by (simp add: node_ending_def role_ending_def EXIT_SUCCESS_def EXIT_FAILURE_def split: node_result.split role_start.split)
  moreover have "tunnel_ending t \<noteq> Exits EXIT_FAILURE" for t :: "'b tunnel_setup"
    by (simp add: tunnel_ending_def EXIT_SUCCESS_def EXIT_FAILURE_def split: tunnel_setup.split)
  moreover have "EXIT_SUCCESS \<noteq> EXIT_FAILURE" by (simp add: EXIT_SUCCESS_def EXIT_FAILURE_def)
  ultimately show ?thesis
    by (cases "main_dispatch c") (auto simp: main_exit_def served split: option.split)
qed

end
