(* ===== verification/Relay_Streams.thy ===== *)
theory Relay_Streams
  imports Relay_Node
begin

section \<open>The streams of a session in the frames of a node\<close>

text \<open>
  Shared by the visitor and the provider: the data that a list of frames carries for a
  uuid, and what a well-formed list of frames sent for one session is.
\<close>

subsection \<open>Received\<close>

definition is_data :: "string \<Rightarrow> Frame \<Rightarrow> bool" where
  "is_data u f \<longleftrightarrow> frame_method f = DATA \<and> UUID_BYTES \<le> length (frame_body f) \<and>
     string_of_bytes (take UUID_BYTES (frame_body f)) = u"

definition data_for :: "string \<Rightarrow> Frame list \<Rightarrow> ByteVector" where
  "data_for u fs = concat (map (\<lambda>f. drop UUID_BYTES (frame_body f)) (filter (is_data u) fs))"

definition data_of :: "string \<Rightarrow> Frame \<Rightarrow> ByteVector" where
  "data_of u f = (if is_data u f then drop UUID_BYTES (frame_body f) else [])"

lemma data_for_snoc: "data_for u (fs @ [f]) = data_for u fs @ data_of u f"
  by (simp add: data_for_def data_of_def)

lemma data_for_Nil [simp]: "data_for u [] = []"
  by (simp add: data_for_def)

subsection \<open>Sent\<close>

definition sent_for :: "(nat \<times> Frame) list \<Rightarrow> nat \<Rightarrow> Frame list" where
  "sent_for out k = map snd (filter (\<lambda>p. fst p = k) out)"

lemma sent_for_snoc [simp]: "sent_for (out @ [(j, f)]) k = sent_for out k @ (if j = k then [f] else [])"
  by (simp add: sent_for_def)

definition payload :: "Frame list \<Rightarrow> ByteVector" where
  "payload fs = concat (map (\<lambda>f. drop UUID_BYTES (frame_body f)) (filter (\<lambda>f. frame_method f = DATA) fs))"

definition data_before_eof :: "Frame list \<Rightarrow> bool" where
  "data_before_eof fs \<longleftrightarrow> (\<forall>f\<in>set (dropWhile (\<lambda>f. frame_method f \<noteq> DATA_EOF) fs). frame_method f \<noteq> DATA)"

definition about :: "string \<Rightarrow> Frame \<Rightarrow> bool" where
  "about u f \<longleftrightarrow> frame_method f \<in> {DATA, DATA_EOF, SESSION_CLOSE} \<and> prefix (build_uuid_body u) (frame_body f)"

text \<open>
  The frames of a session carry its uuid and the bytes \<open>x\<close>, and a DATA_EOF among them is
  the end of the data; \<open>ended\<close> says that one may have been sent.
\<close>

definition stream_ok :: "string \<Rightarrow> ByteVector \<Rightarrow> bool \<Rightarrow> Frame list \<Rightarrow> bool" where
  "stream_ok u x ended fs \<longleftrightarrow> (\<forall>f\<in>set fs. about u f) \<and> payload fs = x \<and> data_before_eof fs \<and>
     ((\<exists>f\<in>set fs. frame_method f = DATA_EOF) \<longrightarrow> ended)"

lemma stream_ok_Nil [simp]: "stream_ok u [] ended []"
  by (simp add: stream_ok_def payload_def data_before_eof_def)

lemma data_before_eof_snoc:
  assumes "data_before_eof fs" "frame_method f = DATA \<longrightarrow> (\<forall>g\<in>set fs. frame_method g \<noteq> DATA_EOF)"
  shows "data_before_eof (fs @ [f])"
proof (cases "\<exists>g\<in>set fs. frame_method g = DATA_EOF")
  case True
  then obtain g where "g \<in> set fs" "frame_method g = DATA_EOF" by blast
  then have "dropWhile (\<lambda>f. frame_method f \<noteq> DATA_EOF) (fs @ [f]) = dropWhile (\<lambda>f. frame_method f \<noteq> DATA_EOF) fs @ [f]"
    by (simp add: dropWhile_append1)
  moreover have "frame_method f \<noteq> DATA" using assms(2) True by blast
  ultimately show ?thesis using assms(1) by (simp add: data_before_eof_def)
qed (simp add: data_before_eof_def dropWhile_append2 DATA_def DATA_EOF_def)

lemma stream_ok_snoc:
  assumes "stream_ok u x ended fs" "about u f" "ended \<longrightarrow> frame_method f \<noteq> DATA \<and> ended'"
    "frame_method f = DATA_EOF \<longrightarrow> ended'" "y = (if frame_method f = DATA then drop UUID_BYTES (frame_body f) else [])"
  shows "stream_ok u (x @ y) ended' (fs @ [f])"
proof -
  have "data_before_eof (fs @ [f])" using assms by (intro data_before_eof_snoc) (auto simp: stream_ok_def)
  then show ?thesis using assms by (auto simp: stream_ok_def payload_def)
qed

lemma stream_ok_mono: "stream_ok u x ended fs \<Longrightarrow> ended \<longrightarrow> ended' \<Longrightarrow> stream_ok u x ended' fs"
  by (auto simp: stream_ok_def)

lemma length_uuid_body [simp]: "length (build_uuid_body u) = length u"
  by (simp add: build_uuid_body_def bytes_of_string_def)

lemma uuid_data_body: "build_uuid_data_body u x = build_uuid_body u @ x"
  by (simp add: build_uuid_data_body_def build_uuid_body_def Let_def)

lemma about_frames:
  "about u (mk_frame DATA (build_uuid_data_body u x))" "about u (mk_frame DATA_EOF (build_uuid_body u))"
  "about u (mk_frame SESSION_CLOSE (build_uuid_body u))"
  by (simp_all add: about_def mk_frame_def uuid_data_body)

lemma drop_uuid_data: "length u = UUID_BYTES \<Longrightarrow> drop UUID_BYTES (build_uuid_data_body u x) = x"
  by (simp add: uuid_data_body)

lemma string_of_uuid_body [simp]: "string_of_bytes (build_uuid_body u) = u"
  by (simp add: build_uuid_body_def)

lemma uuid_data_fields:
  assumes "length u = UUID_BYTES"
  shows "string_of_bytes (take UUID_BYTES (build_uuid_data_body u x)) = u"
    "drop UUID_BYTES (build_uuid_data_body u x) = x" "length (build_uuid_data_body u x) = UUID_BYTES + length x"
  using assms by (simp_all add: uuid_data_body)

end
