(* ===== verification/Relay_Clients.thy ===== *)
theory Relay_Clients
  imports Relay_Visitor Relay_Streams
begin

section \<open>References and upstream of the visitor\<close>

text \<open>
  Two invariants of role B: every number that is kept is that of an accepted client, and
  what is handed to the server's connection for a client is its own stream.
\<close>

subsection \<open>Projections\<close>

lemma release_simps [simp]:
  "made (release v k) = made v" "sessions (release v k) = sessions v" "reader (release v k) = reader v"
  "acceptor (release v k) = acceptor v" "pumps (release v k) = pumps v" "sent (release v k) = sent v"
  "seen (release v k) = seen v" "since (release v k) = since v" "taken (release v k) = taken v"
  "uuid (objects (release v k) j) = uuid (objects v j)"
  "half_close_recv (objects (release v k) j) = half_close_recv (objects v j)"
  "half_close_send (objects (release v k) j) = half_close_send (objects v j)"
  "closed (objects (release v k) j) = closed (objects v j)"
  "written (client (objects (release v k) j)) = written (client (objects v j))"
  "is_open (client (objects (release v k) j)) \<longleftrightarrow> is_open (client (objects v j)) \<and> (j = k \<longrightarrow> held v k)"
  by (auto simp: release_def upd_client_def close_client_def sock_defs)

lemma erase_simps [simp]:
  "made (erase v u) = made v" "sessions (erase v u) = (sessions v)(u := None)" "reader (erase v u) = reader v"
  "acceptor (erase v u) = acceptor v" "pumps (erase v u) = pumps v" "sent (erase v u) = sent v"
  "seen (erase v u) = seen v" "since (erase v u) = since v" "taken (erase v u) = taken v"
  "uuid (objects (erase v u) j) = uuid (objects v j)"
  "half_close_recv (objects (erase v u) j) = half_close_recv (objects v j)"
  "half_close_send (objects (erase v u) j) = half_close_send (objects v j)"
  "closed (objects (erase v u) j) = closed (objects v j)"
  "written (client (objects (erase v u) j)) = written (client (objects v j))"
  by (auto simp: erase_def fun_upd_idem split: option.split)

lemma close_clients_simps [simp]:
  "made (close_clients v) = made v" "sessions (close_clients v) = Map.empty" "reader (close_clients v) = reader v"
  "acceptor (close_clients v) = acceptor v" "pumps (close_clients v) = pumps v" "sent (close_clients v) = sent v"
  "seen (close_clients v) = seen v" "since (close_clients v) = since v" "taken (close_clients v) = taken v"
  "uuid (objects (close_clients v) j) = uuid (objects v j)"
  "half_close_recv (objects (close_clients v) j) = half_close_recv (objects v j)"
  "half_close_send (objects (close_clients v) j) = half_close_send (objects v j)"
  "closed (objects (close_clients v) j) = closed (objects v j)"
  "written (client (objects (close_clients v) j)) = written (client (objects v j))"
  "is_open (client (objects (close_clients v) j)) \<longleftrightarrow> is_open (client (objects v j)) \<and> sessions v (uuid (objects v j)) \<noteq> Some j"
  by (auto simp: close_clients_def close_client_def Let_def sock_defs)

lemmas client_ops = upd_client_def set_client_pc_def send_frame_def close_client_def

lemmas visitor_ops = reader_end_def reader_frame_def reader_gets_def reader_wrote_def reader_closed_def
  client_accepted_def client_announced_def accept_failed_def pump_finish_def pump_loop_def pump_read_def pump_sent_def

subsection \<open>References\<close>

text \<open>Every number that is kept somewhere is that of an accepted client, under its own uuid.\<close>

definition refs_inv :: "visitor \<Rightarrow> bool" where
  "refs_inv v \<longleftrightarrow> (\<forall>u k. sessions v u = Some k \<longrightarrow> k < made v \<and> uuid (objects v k) = u) \<and>
     (\<forall>u k x. reader v = ReaderWriting u k x \<or> reader v = ReaderClosing u k \<longrightarrow> k < made v \<and> uuid (objects v k) = u) \<and>
     (\<forall>k. acceptor v = Announcing k \<longrightarrow> k < made v \<and> pumps v k = NoPump) \<and>
     (\<forall>k. pumps v k \<noteq> NoPump \<longrightarrow> k < made v)"

lemma refs_session: "refs_inv v \<Longrightarrow> sessions v u = Some k \<Longrightarrow> k < made v \<and> uuid (objects v k) = u"
  by (simp add: refs_inv_def)

text \<open>A step that keeps the clients, moves no pump and at most forgets sessions.\<close>

lemma refs_mono:
  assumes "refs_inv v" "made w = made v" "acceptor w = acceptor v \<or> acceptor w = AcceptEnded" "pumps w = pumps v"
    "\<And>k. uuid (objects w k) = uuid (objects v k)" "sessions w \<subseteq>\<^sub>m sessions v"
    "\<And>u k x. reader w = ReaderWriting u k x \<Longrightarrow> reader v = ReaderWriting u k x \<or> sessions v u = Some k"
    "\<And>u k. reader w = ReaderClosing u k \<Longrightarrow> reader v = ReaderClosing u k \<or> (\<exists>x. reader v = ReaderWriting u k x)"
  shows "refs_inv w"
  unfolding refs_inv_def
proof (intro conjI allI impI)
  fix u k assume "sessions w u = Some k"
  then have "sessions v u = Some k" using assms(6) by (metis map_le_def domI)
  with refs_session [OF assms(1) this] show "k < made w" "uuid (objects w k) = u" by (simp_all add: assms(2,5))
next
  fix u k x assume "reader w = ReaderWriting u k x \<or> reader w = ReaderClosing u k"
  then have "reader v = ReaderWriting u k x \<or> reader v = ReaderClosing u k \<or> sessions v u = Some k \<or> (\<exists>x. reader v = ReaderWriting u k x)"
    using assms(7,8) by blast
  then have "k < made v \<and> uuid (objects v k) = u" using assms(1) unfolding refs_inv_def by blast
  then show "k < made w" "uuid (objects w k) = u" by (simp_all add: assms(2,5))
qed (use assms(1-4) in \<open>auto simp: refs_inv_def\<close>)

lemma reader_frame_keeps_clients:
  "made (reader_frame v f) = made v" "acceptor (reader_frame v f) = acceptor v" "pumps (reader_frame v f) = pumps v"
  "sent (reader_frame v f) = sent v" "taken (reader_frame v f) = taken v" "since (reader_frame v f) = since v"
  "seen (reader_frame v f) = seen v" "uuid (objects (reader_frame v f) k) = uuid (objects v k)"
  "half_close_send (objects (reader_frame v f) k) = half_close_send (objects v k)"
  "written (client (objects (reader_frame v f) k)) = written (client (objects v k))"
  by (auto simp: reader_frame_def reader_end_def Let_def client_ops sock_defs split: option.split)

lemma map_le_upd_None: "m(u := None) \<subseteq>\<^sub>m m"
  by (simp add: map_le_def)

lemma reader_frame_refs: "refs_inv v \<Longrightarrow> reader v = ReaderReading \<Longrightarrow> refs_inv (reader_frame v f)"
  by (rule refs_mono [of v])
    (auto simp: reader_frame_keeps_clients, auto simp: reader_frame_def reader_end_def Let_def client_ops
      map_le_upd_None split: option.splits if_splits)

lemma reader_gets_refs: "refs_inv v \<Longrightarrow> reader v = ReaderReading \<Longrightarrow> refs_inv (reader_gets v r)"
proof (cases r)
  case (GotFrame f rest)
  assume inv: "refs_inv v" "reader v = ReaderReading"
  have "refs_inv (v\<lparr>seen := seen v @ [f]\<rparr>)" by (rule refs_mono [OF inv(1)]) auto
  with reader_frame_refs [OF this] inv show ?thesis by (simp add: reader_gets_def GotFrame)
qed (auto simp: reader_gets_def reader_end_def intro: refs_mono)

lemma reader_wrote_refs: "refs_inv v \<Longrightarrow> refs_inv (reader_wrote v r)"
  by (rule refs_mono [of v]) (cases r; auto simp: reader_wrote_def Let_def client_ops split: reader_pc.splits)+

lemma reader_closed_refs: "refs_inv v \<Longrightarrow> refs_inv (reader_closed v)"
  by (rule refs_mono [of v])
    (auto simp: reader_closed_def Let_def client_ops map_le_upd_None split: reader_pc.splits if_splits)

lemma accept_failed_refs: "refs_inv v \<Longrightarrow> refs_inv (accept_failed v)"
  by (rule refs_mono [of v]) (auto simp: accept_failed_def)

lemma client_accepted_simps:
  assumes "generate_uuid (rng v) = (u, g)"
  shows "made (client_accepted v) = Suc (made v)" "acceptor (client_accepted v) = Announcing (made v)"
    "sessions (client_accepted v) = (sessions v)(u \<mapsto> made v)" "reader (client_accepted v) = reader v"
    "pumps (client_accepted v) = pumps v" "seen (client_accepted v) = seen v" "taken (client_accepted v) = taken v"
    "since (client_accepted v) = (since v)(made v := length (seen v))"
    "sent (client_accepted v) = sent v @ [(made v, mk_frame NEW_SESSION (build_uuid_body u))]"
    "uuid (objects (client_accepted v) k) = (if k = made v then u else uuid (objects v k))"
    "half_close_recv (objects (client_accepted v) k) = (k \<noteq> made v \<and> half_close_recv (objects v k))"
    "half_close_send (objects (client_accepted v) k) = (k \<noteq> made v \<and> half_close_send (objects v k))"
    "closed (objects (client_accepted v) k) = (k \<noteq> made v \<and> closed (objects v k))"
    "written (client (objects (client_accepted v) k)) = (if k = made v then [] else written (client (objects v k)))"
  using assms by (auto simp: client_accepted_def Let_def send_frame_def new_client_def split: option.split)

lemma client_accepted_refs:
  assumes inv: "refs_inv v"
  shows "refs_inv (client_accepted v)"
proof -
  obtain u g where g: "generate_uuid (rng v) = (u, g)" by (rule prod.exhaust)
  show ?thesis
    using inv unfolding refs_inv_def client_accepted_simps [OF g] by (auto simp: less_Suc_eq)
qed

lemma client_announced_refs:
  assumes inv: "refs_inv v" and k: "acceptor v = Announcing k"
  shows "refs_inv (client_announced v k)"
  using inv k by (auto simp: refs_inv_def client_announced_def client_ops)

text \<open>A step of a pump: the sessions can lose an entry.\<close>

lemma refs_pump:
  assumes inv: "refs_inv v" and k: "pumps v k \<noteq> NoPump"
    and w: "made w = made v" "acceptor w = acceptor v" "reader w = reader v" "pumps w = (pumps v)(k := p)"
      "\<And>k. uuid (objects w k) = uuid (objects v k)" "sessions w \<subseteq>\<^sub>m sessions v"
  shows "refs_inv w"
proof -
  have "refs_inv (v\<lparr>pumps := (pumps v)(k := p)\<rparr>)" using inv k by (auto simp: refs_inv_def)
  then show ?thesis by (rule refs_mono) (simp_all add: w)
qed

lemma pump_finish_simps [simp]:
  "made (pump_finish v k) = made v" "reader (pump_finish v k) = reader v" "acceptor (pump_finish v k) = acceptor v"
  "pumps (pump_finish v k) = (pumps v)(k := PumpEnded)" "sent (pump_finish v k) = sent v" "seen (pump_finish v k) = seen v"
  "since (pump_finish v k) = since v" "taken (pump_finish v k) = taken v"
  "sessions (pump_finish v k) = (if closed (objects v k) then (sessions v)(uuid (objects v k) := None) else sessions v)"
  "uuid (objects (pump_finish v k) j) = uuid (objects v j)"
  "half_close_recv (objects (pump_finish v k) j) = half_close_recv (objects v j)"
  "half_close_send (objects (pump_finish v k) j) = half_close_send (objects v j)"
  "closed (objects (pump_finish v k) j) = closed (objects v j)"
  "written (client (objects (pump_finish v k) j)) = written (client (objects v j))"
  by (simp_all add: pump_finish_def Let_def set_client_pc_def)

text \<open>Where the pump is after its step, and what the step leaves alone.\<close>

definition loop_pc :: "visitor \<Rightarrow> nat \<Rightarrow> client_pc" where
  "loop_pc v k = (if closed (objects v k) then PumpEnded else PumpReading)"

lemma pump_loop_simps [simp]:
  "made (pump_loop v k) = made v" "reader (pump_loop v k) = reader v" "acceptor (pump_loop v k) = acceptor v"
  "pumps (pump_loop v k) = (pumps v)(k := loop_pc v k)" "sent (pump_loop v k) = sent v" "seen (pump_loop v k) = seen v"
  "since (pump_loop v k) = since v" "taken (pump_loop v k) = taken v"
  "sessions (pump_loop v k) = (if closed (objects v k) then (sessions v)(uuid (objects v k) := None) else sessions v)"
  "uuid (objects (pump_loop v k) j) = uuid (objects v j)"
  "half_close_recv (objects (pump_loop v k) j) = half_close_recv (objects v j)"
  "half_close_send (objects (pump_loop v k) j) = half_close_send (objects v j)"
  "closed (objects (pump_loop v k) j) = closed (objects v j)"
  "written (client (objects (pump_loop v k) j)) = written (client (objects v j))"
  by (simp_all add: pump_loop_def loop_pc_def set_client_pc_def)

lemma pump_loop_refs: "refs_inv v \<Longrightarrow> pumps v k \<noteq> NoPump \<Longrightarrow> refs_inv (pump_loop v k)"
  by (rule refs_pump [of v k]) (auto simp: map_le_upd_None)

lemma pump_read_refs: "refs_inv v \<Longrightarrow> pumps v k \<noteq> NoPump \<Longrightarrow>
    refs_inv (pump_read v k ec x)"
  by (rule refs_pump [of v k _ "pumps (pump_read v k ec x) k"]) (auto simp: pump_read_def Let_def client_ops)

lemma pump_sent_refs: "refs_inv v \<Longrightarrow> pumps v k \<noteq> NoPump \<Longrightarrow> refs_inv (pump_sent v k)"
  by (rule refs_pump [of v k _ "pumps (pump_sent v k) k"])
    (auto simp: pump_sent_def client_ops map_le_upd_None split: client_pc.split)

lemmas refs_steps = reader_gets_refs reader_wrote_refs reader_closed_refs accept_failed_refs client_accepted_refs
  client_announced_refs pump_loop_refs pump_read_refs pump_sent_refs

lemma visitor_step_refs: "visitor_step v w \<Longrightarrow> refs_inv v \<Longrightarrow> refs_inv w"
proof (erule visitor_stepE)
  fix e assume "visitor_move v e = Some w" and inv: "refs_inv v"
  then show "refs_inv w"
    by (cases e) (auto simp: visitor_move_def split: if_splits reader_pc.splits accept_pc.splits intro: refs_steps)
qed

interpretation visitor_refs: kept_invariant visitor_step refs_inv
  by unfold_locales (rule visitor_step_refs)

lemma refs_start: "refs_inv (visitor_start g)"
  by (simp add: refs_inv_def visitor_start_def)

subsection \<open>Upstream: what is sent for a client\<close>

definition sent_by :: "visitor \<Rightarrow> nat \<Rightarrow> Frame list" where
  "sent_by v k = sent_for (sent v) k"

definition eof_sent :: "client_pc \<Rightarrow> bool" where
  "eof_sent p \<longleftrightarrow> p \<in> {PumpSentEof, PumpEnded}"

definition upstream_ok :: "visitor \<Rightarrow> nat \<Rightarrow> bool" where
  "upstream_ok v k \<longleftrightarrow> (\<exists>fs. sent_by v k = mk_frame NEW_SESSION (build_uuid_body (uuid (objects v k))) # fs \<and>
     stream_ok (uuid (objects v k)) (taken v k) (eof_sent (pumps v k)) fs)"

definition upstream_client :: "visitor \<Rightarrow> nat \<Rightarrow> bool" where
  "upstream_client v k \<longleftrightarrow> (if k < made v then length (uuid (objects v k)) = UUID_BYTES \<and> upstream_ok v k
     else sent_by v k = [] \<and> taken v k = [] \<and> pumps v k = NoPump)"

definition upstream_inv :: "visitor \<Rightarrow> bool" where
  "upstream_inv v \<longleftrightarrow> (\<forall>k. upstream_client v k)"

lemma upstream_client_cong:
  assumes "sent_by w k = sent_by v k" "taken w k = taken v k" "pumps w k = pumps v k" "k < made w \<longleftrightarrow> k < made v"
    "uuid (objects w k) = uuid (objects v k)"
  shows "upstream_client w k = upstream_client v k"
  using assms by (simp add: upstream_client_def upstream_ok_def)

lemma upstream_cong:
  assumes "sent w = sent v" "taken w = taken v" "pumps w = pumps v" "made w = made v"
    "\<And>k. uuid (objects w k) = uuid (objects v k)"
  shows "upstream_inv w = upstream_inv v"
  unfolding upstream_inv_def using assms by (intro iff_allI upstream_client_cong) (simp_all only: sent_by_def)

lemma upstream_send:
  assumes inv: "upstream_inv v" and k: "k < made v" and f: "about (uuid (objects v k)) f"
    and w: "sent w = sent v @ [(k, f)]" "taken w = (taken v)(k := taken v k @ x)" "pumps w = (pumps v)(k := p)"
      "made w = made v" "\<And>j. uuid (objects w j) = uuid (objects v j)"
    and x: "x = (if frame_method f = DATA then drop UUID_BYTES (frame_body f) else [])"
    and pc: "eof_sent (pumps v k) \<longrightarrow> frame_method f \<noteq> DATA \<and> eof_sent p" "frame_method f = DATA_EOF \<longrightarrow> eof_sent p"
  shows "upstream_inv w"
proof -
  have up: "upstream_client v k" using inv by (simp add: upstream_inv_def)
  with k have "upstream_ok v k" by (simp add: upstream_client_def)
  then obtain fs where fs: "sent_by v k = mk_frame NEW_SESSION (build_uuid_body (uuid (objects v k))) # fs"
    "stream_ok (uuid (objects v k)) (taken v k) (eof_sent (pumps v k)) fs"
    unfolding upstream_ok_def by blast
  have "sent_by w k = mk_frame NEW_SESSION (build_uuid_body (uuid (objects w k))) # fs @ [f]"
    using fs(1) by (simp add: sent_by_def w)
  moreover have "stream_ok (uuid (objects w k)) (taken w k) (eof_sent (pumps w k)) (fs @ [f])"
    unfolding w fun_upd_same by (rule stream_ok_snoc [OF fs(2) f pc(1) pc(2) x])
  ultimately have "upstream_ok w k" unfolding upstream_ok_def by blast
  then have "upstream_client w k" using up k w(4,5) by (simp add: upstream_client_def)
  moreover have "upstream_client w j = upstream_client v j" if "j \<noteq> k" for j
    using that by (intro upstream_client_cong) (simp_all add: sent_by_def w)
  ultimately show ?thesis using inv unfolding upstream_inv_def by metis
qed

lemma upstream_pc:
  assumes inv: "upstream_inv v" and k: "pumps v k \<noteq> NoPump \<or> k < made v"
    and w: "sent w = sent v" "taken w = taken v" "pumps w = (pumps v)(k := p)" "made w = made v"
      "\<And>j. uuid (objects w j) = uuid (objects v j)"
    and pc: "eof_sent (pumps v k) \<longrightarrow> eof_sent p"
  shows "upstream_inv w"
proof -
  have up: "upstream_client v j" for j using inv by (simp add: upstream_inv_def)
  from this [of k] have made: "k < made v" using k by (auto simp: upstream_client_def split: if_splits)
  have same: "sent_by w j = sent_by v j" for j by (simp add: sent_by_def w)
  have "upstream_ok v k" using up [of k] made by (simp add: upstream_client_def)
  then have "upstream_ok w k"
    unfolding upstream_ok_def same w using pc by (auto intro: stream_ok_mono)
  then have "upstream_client w k" using up [of k] made by (simp add: upstream_client_def w same)
  moreover have "upstream_client w j = upstream_client v j" if "j \<noteq> k" for j
    using that by (intro upstream_client_cong) (simp_all add: same w)
  ultimately show ?thesis using up unfolding upstream_inv_def by metis
qed

lemma upstream_start: "upstream_inv (visitor_start g)"
  by (simp add: upstream_inv_def upstream_client_def visitor_start_def sent_by_def sent_for_def)

lemma uuid_length: "upstream_inv v \<Longrightarrow> k < made v \<Longrightarrow> length (uuid (objects v k)) = UUID_BYTES"
  by (simp add: upstream_inv_def upstream_client_def)

lemma reader_wrote_upstream:
  assumes refs: "refs_inv v" and inv: "upstream_inv v"
  shows "upstream_inv (reader_wrote v r)"
proof (cases "reader v")
  case (ReaderWriting u k x)
  with refs have k: "k < made v" "uuid (objects v k) = u" by (auto simp: refs_inv_def)
  show ?thesis
  proof (cases r)
    case WriteOk
    then show ?thesis
      by (subst upstream_cong [of _ v]) (auto simp: reader_wrote_def ReaderWriting Let_def client_ops inv)
  next
    case (WriteFailed n)
    have "about (uuid (objects v k)) (mk_frame SESSION_CLOSE (build_uuid_body u))"
      using about_frames(3) k(2) by simp
    then show ?thesis
      by (rule upstream_send [OF inv k(1), where x = "[]" and p = "pumps v k"])
        (auto simp: reader_wrote_def ReaderWriting WriteFailed Let_def client_ops mk_frame_def method_defs)
  qed
qed (simp_all add: reader_wrote_def inv)

lemma client_accepted_upstream:
  assumes refs: "refs_inv v" and inv: "upstream_inv v"
  shows "upstream_inv (client_accepted v)"
proof -
  obtain u g where g: "generate_uuid (rng v) = (u, g)" by (rule prod.exhaust)
  note w = client_accepted_simps [OF g]
  have up: "upstream_client v k" for k using inv by (simp add: upstream_inv_def)
  from up [of "made v"] have new: "sent_by v (made v) = []" "taken v (made v) = []" "pumps v (made v) = NoPump"
    by (simp_all add: upstream_client_def)
  have "length u = UUID_BYTES" using generate_uuid_shape(1) [OF g] .
  then have "upstream_client (client_accepted v) (made v)"
    using new by (simp add: upstream_client_def upstream_ok_def w sent_by_def)
  moreover have "upstream_client (client_accepted v) k = upstream_client v k" if "k \<noteq> made v" for k
    using that by (intro upstream_client_cong) (auto simp: w sent_by_def)
  ultimately show ?thesis using up unfolding upstream_inv_def by metis
qed

lemma pump_read_upstream:
  assumes refs: "refs_inv v" and inv: "upstream_inv v" and k: "pumps v k = PumpReading" and x: "ec = ReadFine \<longleftrightarrow> x \<noteq> []"
  shows "upstream_inv (pump_read v k ec x)"
proof -
  have made: "k < made v" using refs k by (auto simp: refs_inv_def)
  note about = about_frames and drop = drop_uuid_data [OF uuid_length [OF inv made]]
  show ?thesis
  proof (cases "ec = ReadFine")
    case True
    with x drop show ?thesis
      by (intro upstream_send [OF inv made about(1) [where x = x], where x = x and p = PumpSentData])
        (auto simp: pump_read_def Let_def client_ops mk_frame_def method_defs k eof_sent_def)
  next
    case False
    with x show ?thesis
      by (intro upstream_send [OF inv made about(2), where x = "[]" and p = PumpSentEof])
        (auto simp: pump_read_def Let_def client_ops mk_frame_def method_defs k eof_sent_def)
  qed
qed

lemma pump_loop_upstream:
  "upstream_inv v \<Longrightarrow> pumps v k \<in> {PumpSpawned, PumpSentData} \<Longrightarrow> upstream_inv (pump_loop v k)"
  by (rule upstream_pc [of v k]) (auto simp: eof_sent_def)

lemma pump_sent_upstream:
  "upstream_inv v \<Longrightarrow> pumps v k \<in> {PumpSentEof, PumpSentClose, PumpSentData} \<Longrightarrow> upstream_inv (pump_sent v k)"
  by (rule upstream_pc [of v k _ "pumps (pump_sent v k) k"])
    (auto simp: eof_sent_def pump_sent_def client_ops)

lemma client_announced_upstream:
  "refs_inv v \<Longrightarrow> upstream_inv v \<Longrightarrow> acceptor v = Announcing k \<Longrightarrow> upstream_inv (client_announced v k)"
  by (rule upstream_pc [of v k _ PumpSpawned]) (auto simp: client_announced_def client_ops refs_inv_def eof_sent_def)

lemma reader_gets_upstream: "upstream_inv v \<Longrightarrow> upstream_inv (reader_gets v r)"
  by (subst upstream_cong [of _ v]) (auto simp: reader_gets_def reader_frame_keeps_clients reader_end_def split: frame_read.split)

lemma reader_closed_upstream: "upstream_inv v \<Longrightarrow> upstream_inv (reader_closed v)"
  by (subst upstream_cong [of _ v]) (auto simp: reader_closed_def client_ops split: reader_pc.split)

lemma accept_failed_upstream: "upstream_inv v \<Longrightarrow> upstream_inv (accept_failed v)"
  by (subst upstream_cong [of _ v]) (auto simp: accept_failed_def)

lemmas upstream_steps = reader_gets_upstream reader_wrote_upstream reader_closed_upstream accept_failed_upstream
  client_accepted_upstream client_announced_upstream pump_loop_upstream pump_sent_upstream

lemma visitor_step_upstream: "visitor_step v w \<Longrightarrow> refs_inv v \<and> upstream_inv v \<Longrightarrow> refs_inv w \<and> upstream_inv w"
proof (intro conjI)
  assume s: "visitor_step v w" and inv: "refs_inv v \<and> upstream_inv v"
  show "refs_inv w" using visitor_step_refs [OF s] inv by blast
  from s obtain e where "visitor_move v e = Some w" by (auto elim: visitor_stepE)
  with inv show "upstream_inv w"
    by (cases e) (auto simp: visitor_move_def read_delivers_def split: if_splits reader_pc.splits accept_pc.splits
      intro: upstream_steps pump_read_upstream)
qed

interpretation visitor_upstream: kept_invariant visitor_step "\<lambda>v. refs_inv v \<and> upstream_inv v"
  by unfold_locales (rule visitor_step_upstream)

end
