(* ===== verification/Relay_Sessions.thy ===== *)
theory Relay_Sessions
  imports Relay_Provider Relay_Streams "HOL-Library.Multiset"
begin

section \<open>What the provider does for its sessions\<close>

text \<open>
  The invariant of role C: where the bytes that the server has sent for a session are
  (written to the target, in the arrival buffer, or in a write in progress), and what has
  been sent back for it. Because the frame reader and the drain write to the same socket
  without an order between them, the bytes are compared as multisets.
\<close>

subsection \<open>Views\<close>

definition written_to :: "provider \<Rightarrow> nat \<Rightarrow> ByteVector" where
  "written_to p k = (case remote (states p k) of Some s \<Rightarrow> written s | None \<Rightarrow> [])"

definition undrained :: "provider \<Rightarrow> nat \<Rightarrow> ByteVector" where
  "undrained p k = (let buf = arrival_buffer (states p k) in case procs p k of
     Connecting \<Rightarrow> concat buf
   | SentErr \<Rightarrow> concat buf
   | SentOk \<Rightarrow> concat buf
   | Draining i x \<Rightarrow> x @ concat (drop (i + 1) buf)
   | _ \<Rightarrow> [])"

definition direct :: "provider \<Rightarrow> nat \<Rightarrow> ByteVector" where
  "direct p k = (case frames p of FramesWriting j x \<Rightarrow> if j = k then x else [] | _ \<Rightarrow> [])"

definition on_map :: "provider \<Rightarrow> nat \<Rightarrow> bool" where
  "on_map p k \<longleftrightarrow> sessions p (uuid (states p k)) = Some k"

definition came_for :: "provider \<Rightarrow> nat \<Rightarrow> ByteVector" where
  "came_for p k = data_for (uuid (states p k)) (drop (since p k) (seen p))"

definition held_bytes :: "provider \<Rightarrow> nat \<Rightarrow> Byte multiset" where
  "held_bytes p k = mset (written_to p k) + mset (undrained p k) + mset (direct p k)"

definition replies_ok :: "provider \<Rightarrow> nat \<Rightarrow> bool" where
  "replies_ok p k \<longleftrightarrow> (let u = uuid (states p k); fs = sent_for (sent p) k; pc = procs p k;
       refused = [mk_frame SESSION_ERR (build_uuid_body u)]
     in if pc = Connecting then fs = [] \<and> taken p k = []
        else if pc = SentErr then fs = refused \<and> taken p k = []
        else pc = SessionEnded \<and> fs = refused \<and> taken p k = [] \<or>
          (\<exists>gs. fs = mk_frame SESSION_OK (build_uuid_body u) # gs \<and>
            (length u = UUID_BYTES \<longrightarrow> stream_ok u (taken p k) (pc \<in> {SentEof, SessionEnded}) gs)))"

text \<open>What holds of every session, and what holds in addition of one that is on the map.\<close>

definition base_ok :: "provider \<Rightarrow> nat \<Rightarrow> bool" where
  "base_ok p k \<longleftrightarrow> (let s = states p k in
     since p k \<le> length (seen p) \<and>
     (remote_connected s \<longleftrightarrow> remote s \<noteq> None) \<and>
     (procs p k \<in> {Connecting, SentErr} \<longrightarrow> remote s = None) \<and>
     (procs p k \<notin> {Connecting, SentErr, SessionEnded} \<longrightarrow> remote s \<noteq> None) \<and>
     (half_close_send s \<longrightarrow> procs p k \<in> {SentEof, SessionEnded}) \<and>
     held_bytes p k \<subseteq># mset (came_for p k) \<and> replies_ok p k)"

definition map_ok :: "provider \<Rightarrow> nat \<Rightarrow> bool" where
  "map_ok p k \<longleftrightarrow> (let s = states p k in
     \<not> closed s \<and> (remote s = None \<longrightarrow> connecting s \<and> procs p k \<in> {Connecting, SentErr}) \<and>
     \<not> (half_close_send s \<and> procs p k = SessionEnded) \<and>
     (procs p k \<noteq> SessionEnded \<longrightarrow> held_bytes p k = mset (came_for p k)) \<and>
     (procs p k = Connecting \<longrightarrow> concat (arrival_buffer s) = came_for p k))"

definition session_ok :: "provider \<Rightarrow> nat \<Rightarrow> bool" where
  "session_ok p k \<longleftrightarrow> base_ok p k \<and> (on_map p k \<longrightarrow> map_ok p k)"

definition provider_inv :: "provider \<Rightarrow> bool" where
  "provider_inv p \<longleftrightarrow> (\<forall>u k. sessions p u = Some k \<longrightarrow> k < made p \<and> uuid (states p k) = u) \<and>
     (\<forall>k x. frames p = FramesWriting k x \<longrightarrow> k < made p \<and> remote (states p k) \<noteq> None) \<and>
     (\<forall>k. procs p k \<noteq> NoSession \<longleftrightarrow> k < made p) \<and>
     (\<forall>k. made p \<le> k \<longrightarrow> sent_for (sent p) k = [] \<and> taken p k = []) \<and>
     (\<forall>k<made p. session_ok p k)"

lemma provider_inv_start: "provider_inv provider_start"
  by (simp add: provider_inv_def provider_start_def sent_for_def)

text \<open>What a session looks like to the invariant; it may be taken off the map.\<close>

definition same_session :: "provider \<Rightarrow> provider \<Rightarrow> nat \<Rightarrow> bool" where
  "same_session p q k \<longleftrightarrow> uuid (states q k) = uuid (states p k) \<and> (remote (states q k) = None \<longleftrightarrow> remote (states p k) = None) \<and>
     held_bytes q k = held_bytes p k \<and> arrival_buffer (states q k) = arrival_buffer (states p k) \<and>
     remote_connected (states q k) = remote_connected (states p k) \<and> connecting (states q k) = connecting (states p k) \<and>
     half_close_send (states q k) = half_close_send (states p k) \<and> closed (states q k) = closed (states p k) \<and>
     procs q k = procs p k \<and> sent_for (sent q) k = sent_for (sent p) k \<and> since q k = since p k \<and> taken q k = taken p k"

lemma same_session_views:
  assumes "same_session p q k" "seen q = seen p"
  shows "base_ok q k = base_ok p k" "map_ok q k = map_ok p k"
proof -
  have same: "uuid (states q k) = uuid (states p k)" "(remote (states q k) = None) = (remote (states p k) = None)"
    "arrival_buffer (states q k) = arrival_buffer (states p k)" "remote_connected (states q k) = remote_connected (states p k)"
    "connecting (states q k) = connecting (states p k)" "half_close_send (states q k) = half_close_send (states p k)"
    "closed (states q k) = closed (states p k)" "procs q k = procs p k" "since q k = since p k" "held_bytes q k = held_bytes p k"
    using assms(1) by (auto simp: same_session_def)
  have bytes: "came_for q k = came_for p k" "replies_ok q k = replies_ok p k"
    using assms by (simp_all add: came_for_def replies_ok_def same_session_def)
  show "base_ok q k = base_ok p k" "map_ok q k = map_ok p k"
    by (simp_all only: base_ok_def map_ok_def Let_def same bytes assms(2))
qed

lemma session_ok_mono:
  assumes "session_ok p k" "same_session p q k" "seen q = seen p" "on_map q k \<longrightarrow> on_map p k"
  shows "session_ok q k"
  using assms same_session_views [OF assms(2,3)] by (simp add: session_ok_def)

lemma off_map_ok: "base_ok p k \<Longrightarrow> same_session p q k \<Longrightarrow> seen q = seen p \<Longrightarrow> \<not> on_map q k \<Longrightarrow> session_ok q k"
  by (simp add: session_ok_def same_session_views)

lemma same_session_trans: "same_session p q k \<Longrightarrow> same_session q r k \<Longrightarrow> same_session p r k"
  by (simp add: same_session_def)

text \<open>A step that works on one session and may take it, or one of the same uuid, off the map.\<close>

lemma provider_inv_step:
  assumes inv: "provider_inv p"
    and q: "made q = made p" "sessions q \<subseteq>\<^sub>m sessions p" "seen q = seen p"
      "\<And>j. j \<noteq> k \<Longrightarrow> same_session p q j"
      "\<And>j x. frames q = FramesWriting j x \<Longrightarrow> frames p = FramesWriting j x \<or> j = k \<and> k < made p"
      "uuid (states q k) = uuid (states p k)" "procs q k \<noteq> NoSession \<longleftrightarrow> procs p k \<noteq> NoSession"
      "\<And>x. frames q = FramesWriting k x \<Longrightarrow> remote (states q k) \<noteq> None"
    and k: "k < made p" and ok: "session_ok q k"
  shows "provider_inv q"
proof -
  have uuid: "uuid (states q j) = uuid (states p j)" for j using q(4) [of j] q(6) by (cases "j = k") (auto simp: same_session_def)
  have sub: "sessions p u = Some j" if "sessions q u = Some j" for u j using q(2) that by (metis domI map_le_def)
  have "session_ok q j" if "j < made p" for j
  proof (cases "j = k")
    case False
    have "session_ok p j" using inv that by (simp add: provider_inv_def)
    then show ?thesis
      by (rule session_ok_mono) (use False q sub uuid in \<open>auto simp: on_map_def\<close>)
  qed (use ok in simp)
  moreover have "procs q j \<noteq> NoSession \<longleftrightarrow> j < made p" for j
    using inv q(4) [of j] q(7) by (cases "j = k") (auto simp: provider_inv_def same_session_def)
  moreover have "j < made p \<and> remote (states q j) \<noteq> None" if f: "frames q = FramesWriting j x" for j x
  proof (cases "j = k")
    case True
    with q(8) f k show ?thesis by blast
  next
    case False
    with q(5) [OF f] have "frames p = FramesWriting j x" by blast
    with inv q(4) [OF False] show ?thesis by (auto simp: provider_inv_def same_session_def)
  qed
  moreover have "sent_for (sent q) j = [] \<and> taken q j = []" if "made p \<le> j" for j
  proof -
    have "j \<noteq> k" using k that by simp
    with q(4) [OF this] inv that show ?thesis by (auto simp: provider_inv_def same_session_def)
  qed
  moreover have "j < made p \<and> uuid (states q j) = u" if "sessions q u = Some j" for u j
    using inv sub [OF that] uuid by (auto simp: provider_inv_def)
  ultimately show ?thesis unfolding provider_inv_def q(1) by blast
qed

subsection \<open>Projections\<close>

lemmas session_ops = upd_state_def set_proc_def send_for_def on_remote_def

lemma let_go_simps [simp]:
  "made (let_go p k) = made p" "sessions (let_go p k) = sessions p" "frames (let_go p k) = frames p"
  "procs (let_go p k) = procs p" "sent (let_go p k) = sent p" "seen (let_go p k) = seen p" "since (let_go p k) = since p"
  "taken (let_go p k) = taken p" "uuid (states (let_go p k) j) = uuid (states p j)"
  by (auto simp: let_go_def session_ops)

lemma erase_session_simps [simp]:
  "made (erase_session p u) = made p" "sessions (erase_session p u) = (sessions p)(u := None)"
  "frames (erase_session p u) = frames p" "procs (erase_session p u) = procs p" "sent (erase_session p u) = sent p"
  "seen (erase_session p u) = seen p" "since (erase_session p u) = since p" "taken (erase_session p u) = taken p"
  "uuid (states (erase_session p u) j) = uuid (states p j)"
  by (auto simp: erase_session_def fun_upd_idem split: option.split)

text \<open>Closing a socket is nothing to the invariant.\<close>

lemma held_bytes_close:
  "held_bytes (upd_state p k (on_remote sock_close)) j = held_bytes p j"
  by (auto simp: held_bytes_def written_to_def undrained_def direct_def session_ops split: option.split)

lemma let_go_same: "same_session p (let_go p k) j"
  using held_bytes_close [of p k j] by (auto simp: let_go_def same_session_def session_ops)

lemma off_map_same: "same_session p (p\<lparr>sessions := m\<rparr>) j"
  by (simp add: same_session_def held_bytes_def written_to_def undrained_def direct_def)

lemma erase_session_same: "same_session p (erase_session p u) j"
  by (auto simp: erase_session_def intro: same_session_trans [OF off_map_same let_go_same] split: option.split)
    (simp add: same_session_def)

lemma map_le_erase: "m(u := None) \<subseteq>\<^sub>m m"
  by (simp add: map_le_def)

text \<open>The end of a coroutine.\<close>

lemma session_finish_same: "same_session (set_proc p k SessionEnded) (session_finish p k) j"
  unfolding session_finish_def by (rule same_session_trans [OF erase_session_same let_go_same])

lemma session_finish_simps [simp]:
  "made (session_finish p k) = made p" "sessions (session_finish p k) = (sessions p)(uuid (states p k) := None)"
  "frames (session_finish p k) = frames p" "procs (session_finish p k) = (procs p)(k := SessionEnded)"
  "seen (session_finish p k) = seen p" "uuid (states (session_finish p k) j) = uuid (states p j)"
  by (simp_all add: session_finish_def set_proc_def)

lemma set_proc_same: "j \<noteq> k \<Longrightarrow> same_session p (set_proc p k pc) j"
  by (simp add: same_session_def set_proc_def held_bytes_def written_to_def undrained_def direct_def)

lemma upd_state_same: "j \<noteq> k \<Longrightarrow> same_session p (upd_state p k g) j"
  by (simp add: same_session_def upd_state_def held_bytes_def written_to_def undrained_def direct_def)

lemma send_for_same: "j \<noteq> k \<Longrightarrow> same_session p (send_for p k m b) j"
  by (simp add: same_session_def send_for_def held_bytes_def written_to_def undrained_def direct_def)

text \<open>
  The coroutine of a session ends: it is off the map, so only what holds of every session
  has to be shown, for the state in which its last frame has been sent.
\<close>

lemma session_finish_keeps:
  assumes inv: "provider_inv p0" and k: "k < made p0"
    and p: "made p = made p0" "sessions p = sessions p0" "seen p = seen p0" "frames p = frames p0"
      "\<And>j. j \<noteq> k \<Longrightarrow> same_session p0 p j" "uuid (states p k) = uuid (states p0 k)"
      "remote (states p0 k) \<noteq> None \<longrightarrow> remote (states p k) \<noteq> None"
    and ok: "base_ok (set_proc p k SessionEnded) k"
  shows "provider_inv (session_finish p k)"
proof (rule provider_inv_step [OF inv])
  show "same_session p0 (session_finish p k) j" if "j \<noteq> k" for j
    by (rule same_session_trans [OF p(5) [OF that] same_session_trans [OF set_proc_same [OF that] session_finish_same]])
  have "\<not> on_map (session_finish p k) k" by (simp add: on_map_def)
  then show "session_ok (session_finish p k) k"
    by (intro off_map_ok [OF ok session_finish_same]) (simp_all add: set_proc_def)
  have "procs p0 k \<noteq> NoSession" using inv k by (simp add: provider_inv_def)
  then show "(procs (session_finish p k) k \<noteq> NoSession) = (procs p0 k \<noteq> NoSession)" by simp
  have "(remote (states (session_finish p k) k) = None) = (remote (states p k) = None)"
    using session_finish_same [of p k k] by (simp add: same_session_def set_proc_def)
  then show "remote (states (session_finish p k) k) \<noteq> None" if "frames (session_finish p k) = FramesWriting k x" for x
    using that inv p(4,7) by (auto simp: provider_inv_def)
qed (use p k in \<open>auto simp: map_le_erase\<close>)

subsection \<open>The steps of a session\<close>

lemma held_bytes_pc:
  "held_bytes (set_proc p k pc) k = mset (written_to p k) + mset (undrained (set_proc p k pc) k) + mset (direct p k)"
  by (simp add: held_bytes_def set_proc_def written_to_def direct_def)

text \<open>The point of suspension changes and nothing else.\<close>

lemma base_ok_pc:
  assumes ok: "base_ok p k" and pc: "procs p k \<notin> {Connecting, SentErr, SessionEnded}" "pc \<notin> {Connecting, SentErr}"
    "half_close_send (states p k) \<longrightarrow> pc \<in> {SentEof, SessionEnded}" "procs p k = SentEof \<longrightarrow> pc \<in> {SentEof, SessionEnded}"
    "mset (undrained (set_proc p k pc) k) \<subseteq># mset (undrained p k)"
  shows "base_ok (set_proc p k pc) k"
proof -
  have w: "states (set_proc p k pc) = states p" "procs (set_proc p k pc) k = pc" "seen (set_proc p k pc) = seen p"
    "since (set_proc p k pc) = since p" "sent (set_proc p k pc) = sent p" "taken (set_proc p k pc) = taken p"
    "came_for (set_proc p k pc) k = came_for p k"
    by (simp_all add: set_proc_def came_for_def)
  have "held_bytes (set_proc p k pc) k \<subseteq># held_bytes p k"
    unfolding held_bytes_pc held_bytes_def [of p] using pc(5) by simp
  then have "held_bytes (set_proc p k pc) k \<subseteq># mset (came_for p k)"
    using ok by (auto simp: base_ok_def Let_def)
  moreover have "replies_ok (set_proc p k pc) k"
  proof -
    obtain gs where gs: "sent_for (sent p) k = mk_frame SESSION_OK (build_uuid_body (uuid (states p k))) # gs"
      "length (uuid (states p k)) = UUID_BYTES \<longrightarrow>
        stream_ok (uuid (states p k)) (taken p k) (procs p k \<in> {SentEof, SessionEnded}) gs"
      using ok pc(1) by (auto simp: base_ok_def replies_ok_def Let_def)
    then have "length (uuid (states p k)) = UUID_BYTES \<longrightarrow> stream_ok (uuid (states p k)) (taken p k) (pc \<in> {SentEof, SessionEnded}) gs"
      using pc(1,4) by (auto intro: stream_ok_mono)
    with gs(1) pc(2) show ?thesis unfolding replies_ok_def Let_def w by auto
  qed
  ultimately show ?thesis using ok pc unfolding base_ok_def Let_def w by auto
qed

lemma map_ok_pc:
  assumes "map_ok p k" "procs p k \<notin> {Connecting, SentErr, SessionEnded}" "pc \<notin> {Connecting, SentErr, SessionEnded}"
    "mset (undrained (set_proc p k pc) k) = mset (undrained p k)"
  shows "map_ok (set_proc p k pc) k"
proof -
  have w: "states (set_proc p k pc) = states p" "procs (set_proc p k pc) k = pc"
    "came_for (set_proc p k pc) k = came_for p k" "held_bytes (set_proc p k pc) k = held_bytes p k"
    using assms(4) unfolding held_bytes_pc held_bytes_def [of p] by (simp_all add: set_proc_def came_for_def)
  show ?thesis using assms(1-3) unfolding map_ok_def Let_def w by auto
qed

lemma set_proc_keeps:
  assumes inv: "provider_inv p" and pc: "procs p k \<notin> {NoSession, Connecting, SentErr, SentEof, SessionEnded}"
    "pc \<notin> {NoSession, Connecting, SentErr, SessionEnded}" and u: "mset (undrained (set_proc p k pc) k) = mset (undrained p k)"
  shows "provider_inv (set_proc p k pc)"
proof (rule provider_inv_step [OF inv])
  have k: "k < made p" and ok: "session_ok p k" using inv pc by (auto simp: provider_inv_def)
  then show "k < made p" by simp
  have "\<not> half_close_send (states p k)" using ok pc by (auto simp: session_ok_def base_ok_def Let_def)
  then have "base_ok (set_proc p k pc) k" using ok pc u by (intro base_ok_pc) (auto simp: session_ok_def)
  moreover have "map_ok p k \<longrightarrow> map_ok (set_proc p k pc) k" using map_ok_pc [OF _ _ _ u] pc by blast
  ultimately show "session_ok (set_proc p k pc) k" using ok by (auto simp: session_ok_def on_map_def set_proc_def)
qed (use inv pc in \<open>auto simp: set_proc_same, auto simp: set_proc_def provider_inv_def\<close>)

lemma session_loop_keeps:
  assumes inv: "provider_inv p" and pc: "procs p k \<notin> {NoSession, Connecting, SentErr, SentEof, SessionEnded}"
    and u: "undrained p k = []"
  shows "provider_inv (session_loop p k)"
proof -
  have k: "k < made p" and ok: "session_ok p k" using inv pc by (auto simp: provider_inv_def)
  show ?thesis
  proof (cases "closed (states p k)")
    case True
    have "base_ok (set_proc p k SessionEnded) k"
      using ok pc u by (intro base_ok_pc) (auto simp: session_ok_def undrained_def set_proc_def)
    then have "provider_inv (session_finish p k)"
      by (intro session_finish_keeps [OF inv k]) (auto simp: same_session_def)
    with True show ?thesis by (simp add: session_loop_def)
  next
    case False
    have "provider_inv (set_proc p k RemoteReading)"
      using u by (intro set_proc_keeps [OF inv pc]) (auto simp: undrained_def set_proc_def)
    with False show ?thesis by (simp add: session_loop_def)
  qed
qed

text \<open>The record of one session changes and the step neither ends it nor moves it.\<close>

lemma upd_state_keeps:
  assumes inv: "provider_inv p" and k: "k < made p" and g: "uuid (g (states p k)) = uuid (states p k)"
    "remote (g (states p k)) = None \<longleftrightarrow> remote (states p k) = None" and ok: "session_ok (upd_state p k g) k"
  shows "provider_inv (upd_state p k g)"
  by (rule provider_inv_step [OF inv _ _ _ _ _ _ _ _ k ok])
    (use inv g in \<open>auto simp: upd_state_same, auto simp: upd_state_def provider_inv_def\<close>)

lemma shutdown_keeps:
  assumes inv: "provider_inv p" and k: "k < made p"
  shows "provider_inv (upd_state p k (on_remote sock_shutdown_send))"
proof (rule upd_state_keeps [OF inv k])
  let ?q = "upd_state p k (on_remote sock_shutdown_send)"
  have "session_ok p k" using inv k by (simp add: provider_inv_def)
  moreover have "same_session p ?q k"
    by (auto simp: same_session_def session_ops held_bytes_def written_to_def undrained_def direct_def split: option.split)
  ultimately show "session_ok ?q k"
    by (rule session_ok_mono) (auto simp: session_ops on_map_def)
qed (auto simp: on_remote_def)

lemma clear_buffer_keeps:
  assumes inv: "provider_inv p" and pc: "procs p k \<notin> {NoSession, Connecting, SentErr}" and u: "undrained p k = []"
  shows "provider_inv (upd_state p k (\<lambda>s. s\<lparr>arrival_buffer := []\<rparr>))" "undrained (upd_state p k (\<lambda>s. s\<lparr>arrival_buffer := []\<rparr>)) k = []"
proof -
  let ?q = "upd_state p k (\<lambda>s. s\<lparr>arrival_buffer := []\<rparr>)"
  have k: "k < made p" and ok: "session_ok p k" using inv pc by (auto simp: provider_inv_def)
  show u': "undrained ?q k = []"
    using u by (auto simp: undrained_def upd_state_def Let_def split: session_pc.split)
  have w: "uuid (states ?q k) = uuid (states p k)" "remote (states ?q k) = remote (states p k)"
    "remote_connected (states ?q k) = remote_connected (states p k)" "connecting (states ?q k) = connecting (states p k)"
    "half_close_send (states ?q k) = half_close_send (states p k)" "closed (states ?q k) = closed (states p k)"
    "procs ?q = procs p" "since ?q = since p" "seen ?q = seen p" "sent ?q = sent p" "taken ?q = taken p"
    "written_to ?q k = written_to p k" "direct ?q k = direct p k"
    by (auto simp: upd_state_def written_to_def direct_def)
  have h: "held_bytes ?q k = held_bytes p k" "came_for ?q k = came_for p k" "replies_ok ?q k = replies_ok p k" "on_map ?q k = on_map p k"
    using u u' w by (simp_all add: held_bytes_def came_for_def replies_ok_def on_map_def upd_state_def)
  have "session_ok ?q k"
    using ok pc unfolding session_ok_def base_ok_def map_ok_def Let_def w h by auto
  then show "provider_inv ?q" by (intro upd_state_keeps [OF inv k]) auto
qed

lemma undrained_Draining: "undrained (set_proc p k (Draining i x)) k = x @ concat (drop (i + 1) (arrival_buffer (states p k)))"
  by (simp add: undrained_def set_proc_def Let_def)

lemma drain_next_keeps:
  assumes inv: "provider_inv p" and pc: "procs p k = SentOk \<and> i = 0 \<or> (\<exists>j. procs p k = Draining j [] \<and> i = j + 1)"
  shows "provider_inv (drain_next p k i)"
proof -
  let ?buf = "arrival_buffer (states p k)"
  have pc': "procs p k \<notin> {NoSession, Connecting, SentErr, SentEof, SessionEnded}" using pc by auto
  have k: "k < made p" using inv pc' by (auto simp: provider_inv_def)
  have u: "undrained p k = concat (drop i ?buf)" using pc by (auto simp: undrained_def Let_def)
  show ?thesis
  proof (cases "i < length ?buf")
    case True
    then have "drop i ?buf = ?buf ! i # drop (i + 1) ?buf" by (simp add: Cons_nth_drop_Suc)
    then have "undrained (set_proc p k (Draining i (?buf ! i))) k = undrained p k"
      unfolding undrained_Draining u by simp
    then have "provider_inv (set_proc p k (Draining i (?buf ! i)))"
      by (intro set_proc_keeps [OF inv pc']) auto
    with True show ?thesis by (simp add: drain_next_def)
  next
    case False
    then have u0: "undrained p k = []" using u by simp
    let ?q = "upd_state p k (\<lambda>s. s\<lparr>arrival_buffer := []\<rparr>)"
    have q: "provider_inv ?q" "undrained ?q k = []" using clear_buffer_keeps [OF inv _ u0] pc' by auto
    have kq: "k < made ?q" "procs ?q = procs p" using k by (simp_all add: upd_state_def)
    let ?r = "upd_state ?q k (on_remote sock_shutdown_send)"
    have r: "provider_inv ?r" "undrained ?r k = []" "procs ?r = procs p"
      using shutdown_keeps [OF q(1) kq(1)] q(2) by (simp_all add: undrained_def session_ops)
    have "provider_inv (session_loop ?q k)" "provider_inv (session_loop ?r k)"
      using session_loop_keeps [OF q(1) _ q(2)] session_loop_keeps [OF r(1) _ r(2)] pc' kq r by simp_all
    with False show ?thesis by (simp add: drain_next_def Let_def)
  qed
qed

lemma drain_written_some_keeps:
  assumes inv: "provider_inv p" and pc: "procs p k = Draining i x"
  shows "provider_inv (drain_written_some p k n)"
proof (rule provider_inv_step [OF inv])
  let ?q = "drain_written_some p k n"
  have q: "?q = set_proc (upd_state p k (on_remote (\<lambda>s. sock_write s (take n x)))) k (Draining i (drop n x))"
    by (simp add: drain_written_some_def pc)
  have k: "k < made p" and ok: "session_ok p k" using inv pc by (auto simp: provider_inv_def)
  show "k < made p" by (rule k)
  from ok pc obtain s where s: "remote (states p k) = Some s" by (auto simp: session_ok_def base_ok_def Let_def)
  have w: "uuid (states ?q k) = uuid (states p k)" "(remote (states ?q k) = None) = (remote (states p k) = None)"
    "remote_connected (states ?q k) = remote_connected (states p k)" "connecting (states ?q k) = connecting (states p k)"
    "half_close_send (states ?q k) = half_close_send (states p k)" "closed (states ?q k) = closed (states p k)"
    "procs ?q k = Draining i (drop n x)" "since ?q = since p" "seen ?q = seen p" "sent ?q = sent p" "taken ?q = taken p"
    "written_to ?q k = written_to p k @ take n x" "direct ?q k = direct p k" "made ?q = made p" "sessions ?q = sessions p"
    "frames ?q = frames p" "arrival_buffer (states ?q k) = arrival_buffer (states p k)"
    unfolding q using s by (auto simp: session_ops written_to_def direct_def)
  have "mset (take n x) + mset (drop n x) = mset x" by (metis append_take_drop_id mset_append)
  then have h: "held_bytes ?q k = held_bytes p k"
    using w pc by (simp add: held_bytes_def undrained_def Let_def ac_simps)
  have r: "came_for ?q k = came_for p k" "replies_ok ?q k = replies_ok p k" "on_map ?q k = on_map p k"
    using w pc by (simp_all add: came_for_def replies_ok_def on_map_def)
  show "session_ok ?q k"
    using ok unfolding session_ok_def base_ok_def map_ok_def Let_def w h r pc by auto
  show "same_session p ?q j" if "j \<noteq> k" for j
    unfolding q by (rule same_session_trans [OF upd_state_same [OF that] set_proc_same [OF that]])
  show "(procs ?q k \<noteq> NoSession) = (procs p k \<noteq> NoSession)" using w pc by simp
  show "remote (states ?q k) \<noteq> None" using w s by simp
  show "uuid (states ?q k) = uuid (states p k)" "made ?q = made p" "seen ?q = seen p" "sessions ?q \<subseteq>\<^sub>m sessions p" using w by simp_all
qed (simp add: drain_written_some_def pc session_ops)

text \<open>The point of suspension is overwritten by whatever follows the drain's write.\<close>

lemma drain_next_forgets: "drain_next (set_proc p k pc) k i = drain_next p k i"
  by (simp add: drain_next_def session_loop_def session_finish_def session_ops Let_def)

lemma wrote_ok: "wrote WriteOk x = (\<lambda>s. sock_write s x)"
  by (simp add: wrote_def fun_eq_iff)

lemma drain_written_ok: "procs p k = Draining i x \<Longrightarrow> drain_written p k WriteOk = drain_next (drain_written_some p k (length x)) k (i + 1)"
  by (simp add: drain_written_def drain_written_some_def drain_next_forgets wrote_ok Let_def)

lemma drain_written_keeps:
  assumes inv: "provider_inv p" and pc: "procs p k = Draining i x"
  shows "provider_inv (drain_written p k r)"
proof (cases r)
  case WriteOk
  let ?q = "drain_written_some p k (length x)"
  have "procs ?q k = Draining i []" by (simp add: drain_written_some_def pc session_ops)
  with drain_next_keeps [OF drain_written_some_keeps [OF inv pc], of "length x" k "i + 1"] show ?thesis
    unfolding WriteOk drain_written_ok [of p k i x, OF pc] by blast
next
  case (WriteFailed n)
  let ?u = "set_proc (upd_state p k (on_remote (wrote (WriteFailed n) x))) k SessionEnded"
  have q: "drain_written p k r = let_go ?u k" by (simp add: drain_written_def pc WriteFailed Let_def)
  have k: "k < made p" and ok: "session_ok p k" using inv pc by (auto simp: provider_inv_def)
  from ok pc obtain s where s: "remote (states p k) = Some s" by (auto simp: session_ok_def base_ok_def Let_def)
  have w: "uuid (states ?u k) = uuid (states p k)" "(remote (states ?u k) = None) = (remote (states p k) = None)"
    "remote_connected (states ?u k) = remote_connected (states p k)" "connecting (states ?u k) = connecting (states p k)"
    "half_close_send (states ?u k) = half_close_send (states p k)" "closed (states ?u k) = closed (states p k)"
    "procs ?u k = SessionEnded" "since ?u = since p" "seen ?u = seen p" "sent ?u = sent p" "taken ?u = taken p"
    "written_to ?u k = written_to p k @ take n x" "direct ?u k = direct p k" "undrained ?u k = []"
    using s by (auto simp: session_ops written_to_def direct_def undrained_def wrote_simps)
  have sub: "mset (take n x) \<subseteq># mset x" by (metis append_take_drop_id mset_append mset_subset_eq_add_left)
  have "held_bytes ?u k \<subseteq># held_bytes p k"
    using w pc by (simp add: held_bytes_def undrained_def Let_def) (rule subset_mset.order_trans [OF sub], simp)
  moreover have r: "came_for ?u k = came_for p k" "on_map ?u k = on_map p k" by (simp_all add: came_for_def on_map_def w session_ops)
  ultimately have h: "held_bytes ?u k \<subseteq># mset (came_for ?u k)" using ok by (auto simp: session_ok_def base_ok_def Let_def)
  obtain gs where "sent_for (sent p) k = mk_frame SESSION_OK (build_uuid_body (uuid (states p k))) # gs"
      "length (uuid (states p k)) = UUID_BYTES \<longrightarrow> stream_ok (uuid (states p k)) (taken p k) False gs"
    using ok pc by (auto simp: session_ok_def base_ok_def replies_ok_def Let_def)
  then have "replies_ok ?u k" unfolding replies_ok_def Let_def w by (auto intro: stream_ok_mono)
  then have "session_ok ?u k"
    using ok pc h unfolding session_ok_def base_ok_def map_ok_def Let_def w r by auto
  then have "session_ok (let_go ?u k) k"
    by (rule session_ok_mono [OF _ let_go_same]) (simp_all add: on_map_def)
  then show ?thesis
    unfolding q
  proof (rule provider_inv_step [OF inv _ _ _ _ _ _ _ _ k, rotated -1])
    show "same_session p (let_go ?u k) j" if "j \<noteq> k" for j
      by (rule same_session_trans [OF same_session_trans [OF upd_state_same [OF that] set_proc_same [OF that]] let_go_same])
    have "(remote (states (let_go ?u k) k) = None) = (remote (states ?u k) = None)"
      using let_go_same [of ?u k k] by (simp add: same_session_def)
    then show "remote (states (let_go ?u k) k) \<noteq> None" using w s by simp
  qed (use pc in \<open>auto simp: session_ops\<close>)
qed

lemma session_connected_keeps:
  assumes inv: "provider_inv p" and pc: "procs p k = Connecting"
  shows "provider_inv (session_connected p k b)"
proof (rule provider_inv_step [OF inv])
  let ?q = "session_connected p k b"
  have k: "k < made p" and ok: "session_ok p k" using inv pc by (auto simp: provider_inv_def)
  show "k < made p" by (rule k)
  from ok pc have s: "remote (states p k) = None" "\<not> half_close_send (states p k)" "sent_for (sent p) k = []" "taken p k = []"
    by (auto simp: session_ok_def base_ok_def replies_ok_def Let_def)
  have w: "uuid (states ?q k) = uuid (states p k)" "(remote (states ?q k) = None) = (\<not> b)"
    "remote_connected (states ?q k) = (b \<or> remote_connected (states p k))" "connecting (states ?q k) = (\<not> b \<and> connecting (states p k))"
    "half_close_send (states ?q k) = half_close_send (states p k)" "closed (states ?q k) = closed (states p k)"
    "procs ?q k = (if b then SentOk else SentErr)" "since ?q = since p" "seen ?q = seen p" "taken ?q = taken p"
    "written_to ?q k = written_to p k" "direct ?q k = direct p k" "made ?q = made p" "sessions ?q = sessions p"
    "frames ?q = frames p" "undrained ?q k = undrained p k"
    "sent_for (sent ?q) k = [mk_frame (if b then SESSION_OK else SESSION_ERR) (build_uuid_body (uuid (states p k)))]"
    using s pc by (auto simp: session_connected_def session_ops written_to_def direct_def undrained_def fresh_sock_def Let_def)
  have h: "held_bytes ?q k = held_bytes p k" "came_for ?q k = came_for p k" "on_map ?q k = on_map p k"
    using w by (simp_all add: held_bytes_def came_for_def on_map_def)
  have "replies_ok ?q k" using w s by (simp add: replies_ok_def Let_def)
  then show "session_ok ?q k"
    using ok s pc unfolding session_ok_def base_ok_def map_ok_def Let_def w h by auto
  show "same_session p ?q j" if "j \<noteq> k" for j
    unfolding session_connected_def Let_def
    by (auto intro!: same_session_trans [OF send_for_same [OF that] set_proc_same [OF that]]
        same_session_trans [OF same_session_trans [OF upd_state_same [OF that] send_for_same [OF that]] set_proc_same [OF that]])
  show "remote (states ?q k) \<noteq> None" if "frames ?q = FramesWriting k x" for x
    using inv that s w by (auto simp: provider_inv_def)
  show "uuid (states ?q k) = uuid (states p k)" "made ?q = made p" "seen ?q = seen p" "sessions ?q \<subseteq>\<^sub>m sessions p"
    "(procs ?q k \<noteq> NoSession) = (procs p k \<noteq> NoSession)" using w pc by simp_all
  show "frames ?q = FramesWriting j x \<Longrightarrow> frames p = FramesWriting j x \<or> j = k \<and> k < made p" for j x using w by simp
qed

lemma target_read_keeps:
  assumes inv: "provider_inv p" and pc: "procs p k = RemoteReading" and x: "ec = ReadFine \<longleftrightarrow> x \<noteq> []"
  shows "provider_inv (target_read p k ec x)"
proof (rule provider_inv_step [OF inv])
  let ?q = "target_read p k ec x"
  let ?f = "if ec = ReadFine then mk_frame DATA (build_uuid_data_body (uuid (states p k)) x)
    else mk_frame DATA_EOF (build_uuid_body (uuid (states p k)))"
  have k: "k < made p" and ok: "session_ok p k" using inv pc by (auto simp: provider_inv_def)
  show "k < made p" by (rule k)
  have s: "remote (states p k) \<noteq> None" using ok pc by (auto simp: session_ok_def base_ok_def Let_def)
  have w: "uuid (states ?q k) = uuid (states p k)" "remote (states ?q k) = remote (states p k)"
    "remote_connected (states ?q k) = remote_connected (states p k)" "connecting (states ?q k) = connecting (states p k)"
    "half_close_send (states ?q k) = (half_close_send (states p k) \<or> ec \<noteq> ReadFine)" "closed (states ?q k) = closed (states p k)"
    "procs ?q k = (if ec = ReadFine then SentData else SentEof)" "since ?q = since p" "seen ?q = seen p"
    "taken ?q k = taken p k @ x" "written_to ?q k = written_to p k" "direct ?q k = direct p k" "made ?q = made p"
    "sessions ?q = sessions p" "frames ?q = frames p" "undrained ?q k = undrained p k"
    "sent_for (sent ?q) k = sent_for (sent p) k @ [?f]"
    using pc x by (auto simp: target_read_def session_ops written_to_def direct_def undrained_def Let_def)
  have h: "held_bytes ?q k = held_bytes p k" "came_for ?q k = came_for p k" "on_map ?q k = on_map p k"
    using w by (simp_all add: held_bytes_def came_for_def on_map_def)
  have "replies_ok ?q k"
  proof -
    let ?u = "uuid (states p k)"
    obtain gs where gs: "sent_for (sent p) k = mk_frame SESSION_OK (build_uuid_body ?u) # gs"
      "length ?u = UUID_BYTES \<longrightarrow> stream_ok ?u (taken p k) False gs"
      using ok pc by (auto simp: session_ok_def base_ok_def replies_ok_def Let_def)
    have "stream_ok ?u (taken p k @ x) (procs ?q k \<in> {SentEof, SessionEnded}) (gs @ [?f])" if u: "length ?u = UUID_BYTES"
    proof (rule stream_ok_snoc)
      show "stream_ok ?u (taken p k) False gs" using gs(2) u by blast
      show "about ?u ?f" using about_frames by simp
      show "frame_method ?f = DATA_EOF \<longrightarrow> procs ?q k \<in> {SentEof, SessionEnded}"
        using w(7) by (simp add: mk_frame_def method_defs)
      show "x = (if frame_method ?f = DATA then drop UUID_BYTES (frame_body ?f) else [])"
        using x drop_uuid_data [OF u] by (simp add: mk_frame_def method_defs)
    qed simp
    then show ?thesis unfolding replies_ok_def Let_def w(1,10,17) gs(1) using w(7) by auto
  qed
  then show "session_ok ?q k"
    using ok s pc unfolding session_ok_def base_ok_def map_ok_def Let_def w(1-9) h by auto
  show "same_session p ?q j" if "j \<noteq> k" for j
  proof -
    let ?t = "p\<lparr>taken := (taken p)(k := taken p k @ x)\<rparr>"
    have t: "same_session p ?t j"
      using that by (simp add: same_session_def held_bytes_def written_to_def direct_def undrained_def)
    note sent = same_session_trans [OF same_session_trans [OF t send_for_same [OF that]] set_proc_same [OF that]]
      same_session_trans [OF same_session_trans [OF same_session_trans [OF t upd_state_same [OF that]] send_for_same [OF that]]
        set_proc_same [OF that]]
    show ?thesis unfolding target_read_def Let_def by (simp add: sent)
  qed
  show "uuid (states ?q k) = uuid (states p k)" "made ?q = made p" "seen ?q = seen p" "sessions ?q \<subseteq>\<^sub>m sessions p"
    "(procs ?q k \<noteq> NoSession) = (procs p k \<noteq> NoSession)" using w pc by simp_all
  show "remote (states ?q k) \<noteq> None" using w s by simp
  show "frames ?q = FramesWriting j y \<Longrightarrow> frames p = FramesWriting j y \<or> j = k \<and> k < made p" for j y using w by simp
qed

lemma session_sent_keeps:
  assumes inv: "provider_inv p" and pc: "procs p k \<in> {SentErr, SentOk, SentEof, SentClose, SentData}"
  shows "provider_inv (session_sent p k)"
proof -
  have k: "k < made p" and ok: "session_ok p k" using inv pc by (auto simp: provider_inv_def)
  let ?c = "upd_state p k (\<lambda>s. s\<lparr>closed := True\<rparr>)"
  have c: "made ?c = made p" "sessions ?c = sessions p" "seen ?c = seen p" "frames ?c = frames p" "procs ?c = procs p"
    "remote (states ?c k) = remote (states p k)" "uuid (states ?c k) = uuid (states p k)" "taken ?c = taken p" "sent ?c = sent p"
    "half_close_send (states ?c k) = half_close_send (states p k)" "remote_connected (states ?c k) = remote_connected (states p k)"
    "since ?c = since p" "arrival_buffer (states ?c k) = arrival_buffer (states p k)" "direct ?c k = direct p k" "written_to ?c k = written_to p k"
    by (simp_all add: upd_state_def direct_def written_to_def)
  have base: "base_ok ?c k = base_ok p k"
    by (simp add: base_ok_def replies_ok_def held_bytes_def came_for_def undrained_def Let_def c)
  have finish: "provider_inv (session_finish p k)" "provider_inv (session_finish ?c k)"
    if "procs p k \<in> {SentEof, SentClose}"
  proof -
    have b: "base_ok p k" "base_ok ?c k" using ok base by (simp_all add: session_ok_def)
    have "base_ok (set_proc p k SessionEnded) k"
      by (rule base_ok_pc [OF b(1)]) (use that in \<open>auto simp: undrained_def set_proc_def\<close>)
    then show "provider_inv (session_finish p k)"
      by (intro session_finish_keeps [OF inv k]) (simp_all add: same_session_def)
    have "base_ok (set_proc ?c k SessionEnded) k"
      by (rule base_ok_pc [OF b(2)]) (use that c(5) in \<open>auto simp: undrained_def set_proc_def\<close>)
    then show "provider_inv (session_finish ?c k)"
      by (intro session_finish_keeps [OF inv k]) (simp_all add: c upd_state_same)
  qed
  have refused: "provider_inv (session_finish ?c k)" if e: "procs p k = SentErr"
  proof (rule session_finish_keeps [OF inv k])
    let ?e = "set_proc ?c k SessionEnded"
    have e: "remote (states ?e k) = remote (states p k)" "uuid (states ?e k) = uuid (states p k)" "taken ?e = taken p" "sent ?e = sent p"
      "half_close_send (states ?e k) = half_close_send (states p k)" "remote_connected (states ?e k) = remote_connected (states p k)"
      "since ?e = since p" "seen ?e = seen p" "procs ?e k = SessionEnded" "came_for ?e k = came_for p k"
      "held_bytes ?e k = mset (written_to p k) + mset (direct p k)"
      by (simp_all add: session_ops held_bytes_def came_for_def undrained_def direct_def written_to_def)
    have "mset (written_to p k) + mset (direct p k) \<subseteq># held_bytes p k" by (simp add: held_bytes_def)
    then show "base_ok ?e k"
      using ok that unfolding session_ok_def base_ok_def replies_ok_def Let_def e by auto
  qed (auto simp: c upd_state_same)
  show ?thesis
    using pc finish refused drain_next_keeps [OF inv, of k 0] session_loop_keeps [OF inv, of k]
    by (auto simp: session_sent_def undrained_def)
qed

subsection \<open>The steps of the frame reader\<close>

text \<open>Nothing that the invariant reads changes, but for sessions that leave the map.\<close>

lemma provider_inv_same:
  assumes inv: "provider_inv p" and q: "made q = made p" "sessions q \<subseteq>\<^sub>m sessions p" "seen q = seen p"
    "\<And>j. same_session p q j" "\<And>j x. frames q = FramesWriting j x \<Longrightarrow> frames p = FramesWriting j x"
  shows "provider_inv q"
proof -
  have sub: "sessions p u = Some j" if "sessions q u = Some j" for u j using q(2) that by (metis domI map_le_def)
  have same: "uuid (states q j) = uuid (states p j)" "(remote (states q j) = None) = (remote (states p j) = None)"
    "procs q j = procs p j" "sent_for (sent q) j = sent_for (sent p) j" "taken q j = taken p j" for j
    using q(4) [of j] by (auto simp: same_session_def)
  have "session_ok q j" if "j < made p" for j
  proof (rule session_ok_mono [OF _ q(4,3)])
    show "session_ok p j" using inv that by (simp add: provider_inv_def)
    show "on_map q j \<longrightarrow> on_map p j" using sub same by (auto simp: on_map_def)
  qed
  moreover have "j < made p \<and> uuid (states q j) = u" if "sessions q u = Some j" for u j
    using inv sub [OF that] by (simp add: provider_inv_def same)
  moreover have "j < made p \<and> remote (states q j) \<noteq> None" if "frames q = FramesWriting j x" for j x
    using inv q(5) [OF that] unfolding provider_inv_def same by blast
  ultimately show ?thesis using inv unfolding provider_inv_def q(1) same by blast
qed

lemma let_go_keeps: "provider_inv p \<Longrightarrow> provider_inv (let_go p k)"
  by (rule provider_inv_same) (simp_all add: let_go_same)

lemma close_keeps: "provider_inv p \<Longrightarrow> provider_inv (upd_state p k (on_remote sock_close))"
proof (rule provider_inv_same)
  show "same_session p (upd_state p k (on_remote sock_close)) j" for j
    using held_bytes_close [of p k j] by (auto simp: same_session_def session_ops)
qed (simp_all add: upd_state_def)

lemma half_close_keeps: "provider_inv p \<Longrightarrow> provider_inv (upd_state p k (\<lambda>s. s\<lparr>half_close_recv := True\<rparr>))"
  by (rule provider_inv_same)
    (auto simp: same_session_def upd_state_def held_bytes_def written_to_def undrained_def direct_def)

text \<open>A session is marked closed and taken off the map.\<close>

lemma closed_base_ok: "base_ok (upd_state p k (\<lambda>s. s\<lparr>closed := True\<rparr>)) k = base_ok p k"
proof -
  let ?c = "upd_state p k (\<lambda>s. s\<lparr>closed := True\<rparr>)"
  have c: "seen ?c = seen p" "procs ?c = procs p"
    "remote (states ?c k) = remote (states p k)" "uuid (states ?c k) = uuid (states p k)" "taken ?c = taken p" "sent ?c = sent p"
    "half_close_send (states ?c k) = half_close_send (states p k)" "remote_connected (states ?c k) = remote_connected (states p k)"
    "since ?c = since p" "arrival_buffer (states ?c k) = arrival_buffer (states p k)" "direct ?c k = direct p k" "written_to ?c k = written_to p k"
    by (simp_all add: upd_state_def direct_def written_to_def)
  show ?thesis by (simp add: base_ok_def replies_ok_def held_bytes_def came_for_def undrained_def Let_def c)
qed

lemma closed_erase_keeps:
  assumes inv: "provider_inv p" and k: "sessions p u = Some k"
  shows "provider_inv (erase_session (upd_state p k (\<lambda>s. s\<lparr>closed := True\<rparr>)) u)"
proof (rule provider_inv_step [OF inv])
  let ?c = "upd_state p k (\<lambda>s. s\<lparr>closed := True\<rparr>)"
  let ?q = "erase_session ?c u"
  have u: "k < made p" "uuid (states p k) = u" and ok: "session_ok p k" using inv k by (auto simp: provider_inv_def)
  show "k < made p" by (rule u)
  have w: "made ?q = made p" "sessions ?q = (sessions p)(u := None)" "seen ?q = seen p" "procs ?q = procs p"
    "frames ?q = frames p" "uuid (states ?q k) = uuid (states p k)"
    by (simp_all add: upd_state_def)
  show "session_ok ?q k"
  proof (rule off_map_ok)
    show "base_ok ?c k" using ok by (simp add: closed_base_ok session_ok_def)
    show "\<not> on_map ?q k" using u(2) w by (simp add: on_map_def)
  qed (simp_all add: erase_session_same)
  show "same_session p ?q j" if "j \<noteq> k" for j
    by (rule same_session_trans [OF upd_state_same [OF that] erase_session_same])
  have "remote (states ?q k) = None \<longleftrightarrow> remote (states p k) = None"
    using erase_session_same [of ?c u k] by (simp add: same_session_def upd_state_def)
  moreover have "remote (states p k) \<noteq> None" if "frames p = FramesWriting k x" for x
    using that inv unfolding provider_inv_def by blast
  ultimately show "remote (states ?q k) \<noteq> None" if "frames ?q = FramesWriting k x" for x
    using that unfolding w(5) by blast
  show "made ?q = made p" "seen ?q = seen p" "uuid (states ?q k) = uuid (states p k)"
    "(procs ?q k \<noteq> NoSession) = (procs p k \<noteq> NoSession)" "sessions ?q \<subseteq>\<^sub>m sessions p"
    using w by (simp_all add: map_le_erase)
  show "frames ?q = FramesWriting j x \<Longrightarrow> frames p = FramesWriting j x \<or> j = k \<and> k < made p" for j x using w by simp
qed

lemma remote_then_closed: "s\<lparr>closed := b, remote := r\<rparr> = s\<lparr>remote := r, closed := b\<rparr>"
  by (cases s) simp

lemma frame_session_close_keeps: "provider_inv p \<Longrightarrow> provider_inv (frame_session_close p body)"
proof (cases "sessions p (string_of_bytes body)")
  case (Some k)
  let ?p = "upd_state p k (on_remote sock_close)"
  have "frame_session_close p body = erase_session (upd_state ?p k (\<lambda>s. s\<lparr>closed := True\<rparr>)) (string_of_bytes body)"
    by (simp add: frame_session_close_def Some session_ops remote_then_closed)
  moreover assume "provider_inv p"
  then have "provider_inv (erase_session (upd_state ?p k (\<lambda>s. s\<lparr>closed := True\<rparr>)) (string_of_bytes body))"
    using Some by (intro closed_erase_keeps close_keeps) (simp_all add: upd_state_def)
  ultimately show ?thesis by simp
qed (simp add: frame_session_close_def)

lemma frame_data_eof_keeps:
  assumes inv: "provider_inv p"
  shows "provider_inv (frame_data_eof p body)"
proof (cases "sessions p (string_of_bytes body)")
  case (Some k)
  let ?h = "upd_state p k (\<lambda>s. s\<lparr>half_close_recv := True\<rparr>)"
  let ?s = "upd_state ?h k (on_remote sock_shutdown_send)"
  have h: "provider_inv ?h" by (rule half_close_keeps [OF inv])
  have k: "k < made ?h" using inv Some by (simp add: provider_inv_def upd_state_def)
  have s: "provider_inv ?s" by (rule shutdown_keeps [OF h k])
  have m: "sessions ?h (string_of_bytes body) = Some k" "sessions ?s (string_of_bytes body) = Some k"
    using Some by (simp_all add: upd_state_def)
  show ?thesis
    using h s closed_erase_keeps [OF h m(1)] closed_erase_keeps [OF s m(2)]
    by (simp add: frame_data_eof_def Some Let_def)
qed (use inv in \<open>simp add: frame_data_eof_def\<close>)

text \<open>The end of the provider: no session is on the map and nothing is being written.\<close>

lemma provider_end_simps [simp]:
  "made (provider_end p) = made p" "sessions (provider_end p) = Map.empty" "frames (provider_end p) = FramesEnded"
  "procs (provider_end p) = procs p" "sent (provider_end p) = sent p" "seen (provider_end p) = seen p"
  "since (provider_end p) = since p" "taken (provider_end p) = taken p"
  by (simp_all add: provider_end_def)

lemma provider_end_state:
  "states (provider_end p) k = states p k \<or> states (provider_end p) k = on_remote sock_close (states p k)"
  by (simp add: provider_end_def Let_def)

lemma provider_end_keeps:
  assumes inv: "provider_inv p"
  shows "provider_inv (provider_end p)"
proof -
  let ?q = "provider_end p"
  have "session_ok ?q k" if k: "k < made p" for k
  proof -
    have base: "base_ok p k" using inv k by (simp add: provider_inv_def session_ok_def)
    have w: "uuid (states ?q k) = uuid (states p k)" "(remote (states ?q k) = None) = (remote (states p k) = None)"
      "remote_connected (states ?q k) = remote_connected (states p k)" "half_close_send (states ?q k) = half_close_send (states p k)"
      "arrival_buffer (states ?q k) = arrival_buffer (states p k)" "written_to ?q k = written_to p k" "direct ?q k = []"
      using provider_end_state [of p k] by (auto simp: on_remote_def written_to_def direct_def split: option.split)
    have h: "came_for ?q k = came_for p k" "replies_ok ?q k = replies_ok p k" "undrained ?q k = undrained p k"
      by (simp_all add: came_for_def replies_ok_def undrained_def w)
    have "held_bytes ?q k \<subseteq># held_bytes p k" by (simp add: held_bytes_def w h)
    then have "held_bytes ?q k \<subseteq># mset (came_for ?q k)" unfolding h using base by (auto simp: base_ok_def Let_def)
    then have "base_ok ?q k" using base unfolding base_ok_def Let_def w h provider_end_simps by blast
    then show ?thesis by (simp add: session_ok_def on_map_def)
  qed
  then show ?thesis using inv by (simp add: provider_inv_def)
qed

lemma frame_written_some_keeps:
  assumes inv: "provider_inv p" and f: "frames p = FramesWriting k x"
  shows "provider_inv (frame_written_some p n)"
proof (rule provider_inv_step [OF inv])
  let ?q = "frame_written_some p n"
  have q: "?q = (upd_state p k (on_remote (\<lambda>s. sock_write s (take n x))))\<lparr>frames := FramesWriting k (drop n x)\<rparr>"
    by (simp add: frame_written_some_def f)
  have k: "k < made p" and r: "remote (states p k) \<noteq> None" using inv f unfolding provider_inv_def by blast+
  then have ok: "session_ok p k" using inv by (simp add: provider_inv_def)
  from r obtain s where s: "remote (states p k) = Some s" by blast
  have w: "uuid (states ?q k) = uuid (states p k)" "remote (states ?q k) \<noteq> None"
    "remote_connected (states ?q k) = remote_connected (states p k)" "connecting (states ?q k) = connecting (states p k)"
    "half_close_send (states ?q k) = half_close_send (states p k)" "closed (states ?q k) = closed (states p k)"
    "procs ?q = procs p" "since ?q = since p" "seen ?q = seen p" "sent ?q = sent p" "taken ?q = taken p"
    "written_to ?q k = written_to p k @ take n x" "undrained ?q k = undrained p k" "made ?q = made p" "sessions ?q = sessions p"
    "direct ?q k = drop n x" "arrival_buffer (states ?q k) = arrival_buffer (states p k)" "frames ?q = FramesWriting k (drop n x)"
    unfolding q using s by (auto simp: session_ops written_to_def direct_def undrained_def)
  have "mset (take n x) + mset (drop n x) = mset x" by (metis append_take_drop_id mset_append)
  then have h: "held_bytes ?q k = held_bytes p k"
    using w f by (simp add: held_bytes_def direct_def ac_simps)
  have same: "same_session p ?q k"
    unfolding same_session_def h w(1,3-) using w(2) r by auto
  show "session_ok ?q k"
    by (rule session_ok_mono [OF ok same]) (simp_all add: w on_map_def)
  show "same_session p ?q j" if "j \<noteq> k" for j
  proof (rule same_session_trans [OF upd_state_same [OF that]])
    show "same_session (upd_state p k g) ?q j" for g
      unfolding q using that f by (simp add: same_session_def upd_state_def held_bytes_def written_to_def undrained_def direct_def)
  qed
  show "k < made p" by (rule k)
  show "uuid (states ?q k) = uuid (states p k)" "made ?q = made p" "seen ?q = seen p" "sessions ?q \<subseteq>\<^sub>m sessions p"
    "(procs ?q k \<noteq> NoSession) = (procs p k \<noteq> NoSession)" "remote (states ?q k) \<noteq> None"
    using w by simp_all
  show "frames ?q = FramesWriting j y \<Longrightarrow> frames p = FramesWriting j y \<or> j = k \<and> k < made p" for j y using w k by simp
qed

lemma wrote_failed: "wrote (WriteFailed n) x = (\<lambda>s. sock_shutdown_send (sock_write s (take n x)))"
  by (simp add: wrote_def fun_eq_iff)

text \<open>A completed write is a piece of the whole length, a failed one also takes the sending side away.\<close>

lemma frame_written_ok:
  "frames p = FramesWriting k x \<Longrightarrow> frame_written p WriteOk = (frame_written_some p (length x))\<lparr>frames := FramesReading\<rparr>"
  by (simp add: frame_written_def frame_written_some_def wrote_ok Let_def)

lemma frame_written_failed:
  "frames p = FramesWriting k x \<Longrightarrow>
     frame_written p (WriteFailed n) = provider_end (upd_state (frame_written_some p n) k (on_remote sock_shutdown_send))"
  by (simp add: frame_written_def frame_written_some_def wrote_failed provider_end_def session_ops Let_def o_def)
    (auto simp: fun_eq_iff option.map_comp o_def)

lemma frame_written_keeps:
  assumes inv: "provider_inv p" and f: "frames p = FramesWriting k x"
  shows "provider_inv (frame_written p r)"
proof (cases r)
  case WriteOk
  let ?q = "frame_written_some p (length x)"
  have q: "frames ?q = FramesWriting k []" by (simp add: frame_written_some_def f)
  have "provider_inv (?q\<lparr>frames := FramesReading\<rparr>)"
    by (rule provider_inv_same [OF frame_written_some_keeps [OF inv f, of "length x"]])
      (simp_all add: same_session_def held_bytes_def written_to_def undrained_def direct_def q)
  then show ?thesis unfolding WriteOk frame_written_ok [OF f] .
next
  case (WriteFailed n)
  have "k < made (frame_written_some p n)"
    using inv f unfolding provider_inv_def by (simp add: frame_written_some_def upd_state_def)
  then show ?thesis
    unfolding WriteFailed frame_written_failed [OF f]
    by (intro provider_end_keeps shutdown_keeps frame_written_some_keeps [OF inv f])
qed

text \<open>A frame has been read: the data that it carries for a session is new.\<close>

lemma came_for_seen:
  "since p j \<le> length (seen p) \<Longrightarrow> came_for (p\<lparr>seen := seen p @ [f]\<rparr>) j = came_for p j @ data_of (uuid (states p j)) f"
  by (simp add: came_for_def data_for_snoc)

lemma seen_views:
  "held_bytes (p\<lparr>seen := fs\<rparr>) j = held_bytes p j" "replies_ok (p\<lparr>seen := fs\<rparr>) j = replies_ok p j"
  "on_map (p\<lparr>seen := fs\<rparr>) j = on_map p j" "undrained (p\<lparr>seen := fs\<rparr>) j = undrained p j"
  by (simp_all add: held_bytes_def replies_ok_def on_map_def written_to_def undrained_def direct_def)

lemma seen_base_ok:
  assumes ok: "base_ok p j"
  shows "base_ok (p\<lparr>seen := seen p @ [f]\<rparr>) j"
proof -
  have "since p j \<le> length (seen p)" using ok by (simp add: base_ok_def Let_def)
  note c = came_for_seen [OF this, of f]
  have "held_bytes p j \<subseteq># mset (came_for p j)" using ok by (simp add: base_ok_def Let_def)
  then have "held_bytes p j \<subseteq># mset (came_for (p\<lparr>seen := seen p @ [f]\<rparr>) j)"
    unfolding c mset_append by (rule subset_mset.add_increasing2 [rotated]) simp
  then show ?thesis using ok by (simp add: base_ok_def Let_def seen_views)
qed

lemma seen_session_ok:
  assumes ok: "session_ok p j" and f: "on_map p j \<longrightarrow> data_of (uuid (states p j)) f = []"
  shows "session_ok (p\<lparr>seen := seen p @ [f]\<rparr>) j"
proof -
  have "since p j \<le> length (seen p)" using ok by (simp add: session_ok_def base_ok_def Let_def)
  note c = came_for_seen [OF this, of f]
  have "map_ok (p\<lparr>seen := seen p @ [f]\<rparr>) j" if "on_map p j"
    using ok f that by (simp add: session_ok_def map_ok_def Let_def seen_views c)
  then show ?thesis using ok by (simp add: session_ok_def seen_base_ok seen_views)
qed

lemma seen_keeps:
  assumes inv: "provider_inv p" and f: "\<And>u. data_of u f = []"
  shows "provider_inv (p\<lparr>seen := seen p @ [f]\<rparr>)"
  using inv by (simp add: provider_inv_def seen_session_ok f)

lemma provider_inv_reader:
  assumes inv: "provider_inv p" and q: "made q = made p" "sessions q = sessions p" "procs q = procs p" "sent q = sent p"
    "taken q = taken p" "\<And>j. uuid (states q j) = uuid (states p j)" "\<And>j. (remote (states q j) = None) = (remote (states p j) = None)"
    "\<And>j x. frames q = FramesWriting j x \<Longrightarrow> j < made p \<and> remote (states p j) \<noteq> None"
    and ok: "\<And>j. j < made p \<Longrightarrow> session_ok q j"
  shows "provider_inv q"
  using inv q(8) ok unfolding provider_inv_def q(1-7) by blast

lemma data_of_method: "frame_method f \<noteq> DATA \<Longrightarrow> data_of u f = []"
  by (simp add: data_of_def is_data_def)

text \<open>A DATA frame for the session \<open>k\<close> on the map: the others are as they were.\<close>

lemma data_keeps_others:
  assumes inv: "provider_inv p" and k: "sessions p u = Some k" and data: "\<And>v. data_of v f = (if v = u then x else [])"
    and q: "made q = made p" "sessions q = sessions p" "procs q = procs p" "sent q = sent p" "taken q = taken p"
      "\<And>j. (remote (states q j) = None) = (remote (states p j) = None)" "seen q = seen p @ [f]" "uuid (states q k) = u"
      "\<And>j. j \<noteq> k \<Longrightarrow> same_session (p\<lparr>seen := seen p @ [f]\<rparr>) q j"
      "\<And>j x. frames q = FramesWriting j x \<Longrightarrow> j = k \<and> remote (states p k) \<noteq> None"
    and ok: "session_ok q k"
  shows "provider_inv q"
proof (rule provider_inv_reader [OF inv q(1-5) _ q(6)])
  let ?r = "p\<lparr>seen := seen p @ [f]\<rparr>"
  have u: "uuid (states p k) = u" "k < made p" using inv k by (simp_all add: provider_inv_def)
  show uuid: "uuid (states q j) = uuid (states p j)" for j
    using q(9) [of j] u(1) q(8) by (cases "j = k") (simp_all add: same_session_def)
  show "j < made p \<and> remote (states p j) \<noteq> None" if "frames q = FramesWriting j y" for j y
    using q(10) [OF that] u(2) by simp
  show "session_ok q j" if j: "j < made p" for j
  proof (cases "j = k")
    case False
    have "session_ok ?r j"
    proof (rule seen_session_ok)
      show "session_ok p j" using inv j by (simp add: provider_inv_def)
      show "on_map p j \<longrightarrow> data_of (uuid (states p j)) f = []" using False k by (auto simp: on_map_def data)
    qed
    then show ?thesis
      by (rule session_ok_mono [OF _ q(9) [OF False]]) (simp_all add: q on_map_def uuid)
  qed (use ok in simp)
qed

text \<open>What the session itself has to show: \<open>x\<close> is held, in addition to what was.\<close>

lemma data_keeps_session:
  assumes ok: "base_ok p k" "map_ok p k" and x: "data_of (uuid (states p k)) f = x"
    and w: "uuid (states q k) = uuid (states p k)" "remote (states q k) = remote (states p k)"
      "remote_connected (states q k) = remote_connected (states p k)" "connecting (states q k) = connecting (states p k)"
      "half_close_send (states q k) = half_close_send (states p k)" "closed (states q k) = closed (states p k)"
      "procs q = procs p" "since q = since p" "seen q = seen p @ [f]" "sent q = sent p" "taken q = taken p"
    and h: "held_bytes q k = held_bytes p k + mset x"
    and buf: "procs p k = Connecting \<longrightarrow> arrival_buffer (states q k) = arrival_buffer (states p k) @ [x]"
  shows "session_ok q k"
proof -
  have "since p k \<le> length (seen p)" using ok by (simp add: base_ok_def Let_def)
  then have c: "came_for q k = came_for p k @ x" by (simp add: came_for_def w data_for_snoc x)
  have r: "replies_ok q k = replies_ok p k" by (simp add: replies_ok_def w)
  have "base_ok q k" using ok(1) unfolding base_ok_def Let_def w h r c by auto
  moreover have "map_ok q k" using ok(2) buf unfolding map_ok_def Let_def w h c by auto
  ultimately show ?thesis by (simp add: session_ok_def)
qed

lemma frame_data_keeps:
  assumes inv: "provider_inv p" and reading: "frames p = FramesReading" and f: "frame_method f = DATA"
  shows "provider_inv (frame_data (p\<lparr>seen := seen p @ [f]\<rparr>) (frame_body f))"
proof (cases "length (frame_body f) < UUID_BYTES")
  case True
  then show ?thesis using seen_keeps [OF inv, of f] by (simp add: frame_data_def data_of_def is_data_def)
next
  case False
  let ?r = "p\<lparr>seen := seen p @ [f]\<rparr>" and ?u = "string_of_bytes (take UUID_BYTES (frame_body f))"
    and ?x = "drop UUID_BYTES (frame_body f)"
  have data: "data_of v f = (if v = ?u then ?x else [])" for v using f False by (auto simp: data_of_def is_data_def)
  show ?thesis
  proof (cases "sessions p ?u")
    case None
    have "session_ok ?r j" if "j < made p" for j
    proof (rule seen_session_ok)
      show "session_ok p j" using inv that unfolding provider_inv_def by blast
      show "on_map p j \<longrightarrow> data_of (uuid (states p j)) f = []" using None by (auto simp: on_map_def data)
    qed
    then have "provider_inv ?r" by (intro provider_inv_reader [OF inv]) (simp_all add: reading)
    then show ?thesis using None False by (simp add: frame_data_def)
  next
    case (Some k)
    have k: "uuid (states p k) = ?u" and "session_ok p k" "on_map p k"
      using inv Some by (simp_all add: provider_inv_def on_map_def)
    then have ok: "base_ok p k" "map_ok p k" by (simp_all add: session_ok_def)
    have x: "data_of (uuid (states p k)) f = ?x" by (simp add: data k)
    have d: "direct p j = []" for j by (simp add: direct_def reading)
    let ?d = "?r\<lparr>frames := FramesWriting k ?x\<rparr>"
    let ?b = "upd_state ?r k (\<lambda>s. s\<lparr>arrival_buffer := arrival_buffer s @ [?x]\<rparr>)"
    have "provider_inv ?d" if c: "remote_connected (states p k)"
    proof (rule data_keeps_others [OF inv Some data])
      have "remote (states p k) \<noteq> None" using ok c by (simp add: base_ok_def Let_def)
      then show "frames ?d = FramesWriting j y \<Longrightarrow> j = k \<and> remote (states p k) \<noteq> None" for j y by simp
      have "held_bytes ?d k = held_bytes p k + mset ?x"
        by (simp add: held_bytes_def d [of k]) (simp add: written_to_def undrained_def direct_def)
      moreover have "procs p k \<noteq> Connecting" using ok c by (auto simp: base_ok_def Let_def)
      ultimately show "session_ok ?d k" by (intro data_keeps_session [OF ok x]) simp_all
      show "same_session ?r ?d j" if "j \<noteq> k" for j
        using that reading by (simp add: same_session_def held_bytes_def written_to_def undrained_def direct_def)
    qed (simp_all add: k)
    moreover have "provider_inv ?b" if "\<not> remote_connected (states p k)"
    proof (rule data_keeps_others [OF inv Some data])
      have "procs p k \<in> {Connecting, SentErr}" using ok that by (auto simp: base_ok_def map_ok_def Let_def)
      then have "undrained ?b k = undrained p k @ ?x" by (auto simp: undrained_def upd_state_def)
      then have "held_bytes ?b k = held_bytes p k + mset ?x"
        by (simp add: held_bytes_def) (simp add: upd_state_def written_to_def direct_def ac_simps)
      then show "session_ok ?b k" by (intro data_keeps_session [OF ok x]) (simp_all add: upd_state_def)
    qed (simp_all add: upd_state_same, simp_all add: upd_state_def k reading)
    moreover have "\<not> closed (states p k)" "\<not> remote_connected (states p k) \<longrightarrow> connecting (states p k)"
      using ok by (simp_all add: base_ok_def map_ok_def Let_def)
    ultimately show ?thesis using Some False by (simp add: frame_data_def Let_def)
  qed
qed

text \<open>A new session: it takes the place of an earlier one of its uuid.\<close>

lemma forward_session_keeps:
  assumes inv: "provider_inv p" and reading: "frames p = FramesReading"
  shows "provider_inv (forward_session p body)"
proof -
  let ?u = "string_of_bytes body" and ?k = "made p"
  let ?q = "p\<lparr>made := ?k + 1, states := (states p)(?k := (new_state ?u)\<lparr>connecting := True\<rparr>),
    sessions := (sessions p)(?u \<mapsto> ?k), procs := (procs p)(?k := Connecting), since := (since p)(?k := length (seen p))\<rparr>"
  have old: "sessions p v = Some j \<Longrightarrow> j < made p \<and> uuid (states p j) = v"
    "j < made p \<longleftrightarrow> procs p j \<noteq> NoSession" "j < made p \<Longrightarrow> session_ok p j"
    "made p \<le> j \<Longrightarrow> sent_for (sent p) j = [] \<and> taken p j = []" for v j
    using inv unfolding provider_inv_def by blast+
  have w: "states ?q ?k = (new_state ?u)\<lparr>connecting := True\<rparr>" "procs ?q ?k = Connecting" "since ?q ?k = length (seen p)"
    "sent_for (sent ?q) ?k = []" "taken ?q ?k = []" "seen ?q = seen p" "came_for ?q ?k = []" "held_bytes ?q ?k = {#}"
    using old(4) [of ?k] by (simp_all add: came_for_def held_bytes_def written_to_def undrained_def direct_def new_state_def reading)
  have new: "session_ok ?q ?k"
    unfolding session_ok_def base_ok_def map_ok_def replies_ok_def Let_def w by (simp add: new_state_def)
  have "session_ok ?q j" if j: "j < made p" for j
  proof (rule session_ok_mono [OF old(3) [OF j]])
    show "same_session p ?q j"
      using j by (simp add: same_session_def held_bytes_def written_to_def undrained_def direct_def)
    show "on_map ?q j \<longrightarrow> on_map p j" using j by (auto simp: on_map_def)
  qed simp
  with new have "session_ok ?q j" if "j < made p + 1" for j using that by (cases "j = made p") auto
  moreover have "v = ?u \<and> j = ?k \<or> j < made p \<and> uuid (states p j) = v" if "sessions ?q v = Some j" for v j
    using that old(1) [of v j] by (auto split: if_splits)
  then have "j < made p + 1 \<and> uuid (states ?q j) = v" if "sessions ?q v = Some j" for v j
    using that by (fastforce simp: new_state_def)
  moreover have "procs ?q j \<noteq> NoSession \<longleftrightarrow> j < made p + 1" for j using old(2) [of j] by auto
  moreover have "sent_for (sent ?q) j = [] \<and> taken ?q j = []" if "made p + 1 \<le> j" for j using old(4) [of j] that by simp
  ultimately have "provider_inv ?q" unfolding provider_inv_def using reading by simp
  with let_go_keeps [OF this] show ?thesis
    by (cases "sessions p ?u") (simp_all add: forward_session_def Let_def)
qed

lemma provider_frame_keeps:
  assumes inv: "provider_inv p" and reading: "frames p = FramesReading"
  shows "provider_inv (provider_frame (p\<lparr>seen := seen p @ [f]\<rparr>) f)"
proof (cases "frame_method f = DATA")
  case True
  then show ?thesis using frame_data_keeps [OF inv reading True] by (simp add: provider_frame_def method_defs)
next
  case False
  have q: "provider_inv (p\<lparr>seen := seen p @ [f]\<rparr>)" (is "provider_inv ?q")
    by (rule seen_keeps [OF inv data_of_method [OF False]])
  have "frames ?q = FramesReading" using reading by simp
  then show ?thesis
    using False q provider_end_keeps [OF q] forward_session_keeps [OF q] frame_data_eof_keeps [OF q] frame_session_close_keeps [OF q]
    by (simp add: provider_frame_def Let_def)
qed

lemma provider_move_keeps:
  assumes "provider_move p e = Some q" "provider_inv p"
  shows "provider_inv q"
proof (cases e)
  case (FrameRead r)
  then show ?thesis
    using assms provider_frame_keeps [OF assms(2)] provider_end_keeps [OF assms(2)]
    by (cases r) (auto simp: provider_gets_def split: if_splits)
next
  case (FrameWritten r)
  then show ?thesis using assms frame_written_keeps by (auto split: frames_pc.splits if_splits)
next
  case (FrameWrittenSome n)
  then show ?thesis using assms frame_written_some_keeps by (auto split: frames_pc.splits if_splits)
next
  case (Connected k ok)
  then show ?thesis using assms session_connected_keeps by (auto split: if_splits)
next
  case (DrainWritten k r)
  then show ?thesis using assms drain_written_keeps by (auto split: session_pc.splits if_splits)
next
  case (DrainWrittenSome k n)
  then show ?thesis using assms drain_written_some_keeps by (auto split: session_pc.splits if_splits)
next
  case (RemoteRead k ec x)
  then have "q = target_read p k ec x" "procs p k = RemoteReading" "ec = ReadFine \<longleftrightarrow> x \<noteq> []"
    using assms(1) by (auto simp: read_delivers_def split: if_splits read_ec.splits)
  then show ?thesis using target_read_keeps [OF assms(2)] by simp
next
  case (Sent k)
  then show ?thesis using assms session_sent_keeps [OF assms(2)] by (auto split: if_splits)
qed

lemma provider_step_keeps: "provider_step p q \<Longrightarrow> provider_inv p \<Longrightarrow> provider_inv q"
  by (erule provider_stepE) (rule provider_move_keeps)

interpretation provider_kept: kept_invariant provider_step provider_inv
  by unfold_locales (rule provider_step_keeps)

lemma provider_reach_inv: "reach provider_step provider_start p \<Longrightarrow> provider_inv p"
  by (rule provider_kept.reach_ok [OF _ provider_inv_start])

text \<open>What has been written to a target.\<close>

lemma provider_written:
  assumes "provider_inv p" "k < made p"
  shows "mset (written_to p k) \<subseteq># mset (came_for p k)"
    "on_map p k \<Longrightarrow> procs p k = RemoteReading \<Longrightarrow> frames p = FramesReading \<Longrightarrow> mset (written_to p k) = mset (came_for p k)"
proof -
  have ok: "session_ok p k" using assms by (simp add: provider_inv_def)
  have "mset (written_to p k) \<subseteq># held_bytes p k" unfolding held_bytes_def by (simp add: add.assoc)
  also have "held_bytes p k \<subseteq># mset (came_for p k)" using ok by (simp add: session_ok_def base_ok_def Let_def)
  finally show "mset (written_to p k) \<subseteq># mset (came_for p k)" .
  assume a: "on_map p k" "procs p k = RemoteReading" "frames p = FramesReading"
  then have "held_bytes p k = mset (written_to p k)" by (simp add: held_bytes_def undrained_def direct_def)
  then show "mset (written_to p k) = mset (came_for p k)" using ok a by (simp add: session_ok_def map_ok_def Let_def)
qed

end
