(* ===== verification/Relay_Mux.thy ===== *)
theory Relay_Mux
  imports Relay_Streams
begin

section \<open>Many sessions on one connection\<close>

text \<open>
  What the visitor and the provider have in common: each sends the frames of all of its sessions
  on one connection, and the other end sorts the data by uuid. The interface is a locale; both
  roles interpret it, and its lemmas say that sorting by uuid undoes the mixing.
\<close>

subsection \<open>Data of a uuid in parts of a list\<close>

lemma data_for_append: "data_for u (fs @ gs) = data_for u fs @ data_for u gs"
  by (simp add: data_for_def)

lemma data_for_prefix: "prefix fs gs \<Longrightarrow> prefix (data_for u fs) (data_for u gs)"
  by (auto simp: prefix_def data_for_append)

lemma data_for_split: "data_for u (take n fs) @ data_for u (drop n fs) = data_for u fs"
  by (simp add: data_for_append [symmetric])

lemma data_for_none: "\<forall>f\<in>set fs. \<not> is_data u f \<Longrightarrow> data_for u fs = []"
  by (simp add: data_for_def)

lemma set_sent_for: "(k, f) \<in> set out \<longleftrightarrow> f \<in> set (sent_for out k)"
  by (force simp: sent_for_def)

lemma is_data_about: "length u = UUID_BYTES \<Longrightarrow> about u f \<Longrightarrow> is_data v f \<longleftrightarrow> frame_method f = DATA \<and> v = u"
  by (auto simp: is_data_def about_def prefix_def)

subsection \<open>The interface\<close>

locale multiplexer =
  fixes ok :: "'s \<Rightarrow> bool"
    and out :: "'s \<Rightarrow> (nat \<times> Frame) list"
    and count :: "'s \<Rightarrow> nat"
    and name_of :: "'s \<Rightarrow> nat \<Rightarrow> string"
    and input :: "'s \<Rightarrow> nat \<Rightarrow> ByteVector"
  assumes known: "ok s \<Longrightarrow> count s \<le> k \<Longrightarrow> sent_for (out s) k = []"
    and name_length: "ok s \<Longrightarrow> k < count s \<Longrightarrow> length (name_of s k) = UUID_BYTES"
    and named: "ok s \<Longrightarrow> k < count s \<Longrightarrow> f \<in> set (sent_for (out s) k) \<Longrightarrow> frame_method f = DATA \<Longrightarrow> about (name_of s k) f"
    and carried: "ok s \<Longrightarrow> k < count s \<Longrightarrow> payload (sent_for (out s) k) = input s k"
begin

lemma sender:
  assumes "ok s" "(k, f) \<in> set (out s)"
  shows "k < count s" "is_data u f \<longleftrightarrow> frame_method f = DATA \<and> name_of s k = u"
proof -
  show k: "k < count s"
    using known [OF assms(1), of k] assms(2) by (cases "k < count s") (auto simp: set_sent_for)
  show "is_data u f \<longleftrightarrow> frame_method f = DATA \<and> name_of s k = u"
  proof (cases "frame_method f = DATA")
    case True
    then show ?thesis
      using is_data_about [OF name_length [OF assms(1) k] named [OF assms(1) k _ True]] assms(2) by (auto simp: set_sent_for)
  qed (simp add: is_data_def)
qed

text \<open>The data of a uuid is what was read for its session, when no other session has it.\<close>

lemma session_data:
  assumes ok: "ok s" and k: "k < count s" and single: "\<And>j. j < count s \<Longrightarrow> j \<noteq> k \<Longrightarrow> name_of s j \<noteq> name_of s k"
  shows "data_for (name_of s k) (map snd (out s)) = input s k"
proof -
  have "filter (is_data (name_of s k) \<circ> snd) (out s) = filter (\<lambda>p. fst p = k \<and> frame_method (snd p) = DATA) (out s)"
  proof (rule filter_cong [OF refl])
    fix p assume "p \<in> set (out s)"
    then have "(fst p, snd p) \<in> set (out s)" by simp
    from sender [OF ok this] single [of "fst p"] show "(is_data (name_of s k) \<circ> snd) p \<longleftrightarrow> fst p = k \<and> frame_method (snd p) = DATA"
      by auto
  qed
  then have "data_for (name_of s k) (map snd (out s)) = payload (sent_for (out s) k)"
    by (simp add: data_for_def payload_def sent_for_def filter_map comp_def conj_commute)
  then show ?thesis using carried [OF ok k] by simp
qed

lemma no_session_data:
  "ok s \<Longrightarrow> (\<And>j. j < count s \<Longrightarrow> name_of s j \<noteq> u) \<Longrightarrow> data_for u (map snd (out s)) = []"
  using sender by (intro data_for_none) auto

end

end
