(* ===== verification/Relay_Opening.thy ===== *)
theory Relay_Opening
  imports Relay_Clients Relay_Sessions Relay_Mux
begin

section \<open>How sessions are opened\<close>

text \<open>
  The visitor announces its clients with NEW_SESSION in the order of their numbers, and the
  provider numbers its sessions in the order of the FORWARD_SESSION frames. Both roles are
  multiplexers. The records of the two roles have fields of the same names; here they are
  qualified.
\<close>

subsection \<open>The visitor\<close>

definition in_order :: "(nat \<times> Frame) list \<Rightarrow> bool" where
  "in_order out \<longleftrightarrow> (\<forall>xs k f ys. out = xs @ (k, f) # ys \<longrightarrow> frame_method f = NEW_SESSION \<longrightarrow> (\<forall>p\<in>set xs. fst p < k))"

lemma in_order_before: "in_order (xs @ (k, f) # ys) \<Longrightarrow> frame_method f = NEW_SESSION \<Longrightarrow> \<forall>p\<in>set xs. fst p < k"
  unfolding in_order_def by blast

lemma in_order_snoc:
  assumes "in_order out" "frame_method f = NEW_SESSION \<longrightarrow> (\<forall>p\<in>set out. fst p < k)"
  shows "in_order (out @ [(k, f)])"
  unfolding in_order_def
proof (intro allI impI)
  fix xs j g ys assume s: "out @ [(k, f)] = xs @ (j, g) # ys" and g: "frame_method g = NEW_SESSION"
  show "\<forall>p\<in>set xs. fst p < j"
  proof (cases ys rule: rev_cases)
    case Nil
    with s assms(2) g show ?thesis by simp
  next
    case (snoc zs z)
    with s have "out = xs @ (j, g) # zs" by simp
    with assms(1) g show ?thesis by (auto simp: in_order_def)
  qed
qed

definition announcement :: "visitor \<Rightarrow> nat \<Rightarrow> nat \<times> Frame" where
  "announcement v k = (k, mk_frame NEW_SESSION (build_uuid_body (ClientSession.uuid (objects v k))))"

definition announced_inv :: "visitor \<Rightarrow> bool" where
  "announced_inv v \<longleftrightarrow> in_order (visitor.sent v) \<and> (\<forall>p\<in>set (visitor.sent v). fst p < visitor.made v) \<and>
     filter (\<lambda>p. frame_method (snd p) = NEW_SESSION) (visitor.sent v) = map (announcement v) [0..<visitor.made v]"

text \<open>A step that accepts no client: the clients stay, and at most one frame is sent, for one of them.\<close>

definition same_clients :: "visitor \<Rightarrow> visitor \<Rightarrow> bool" where
  "same_clients v w \<longleftrightarrow> visitor.made w = visitor.made v \<and> visitor.since w = visitor.since v \<and>
     (\<forall>k. ClientSession.uuid (objects w k) = ClientSession.uuid (objects v k)) \<and>
     (visitor.sent w = visitor.sent v \<or> (\<exists>k f. k < visitor.made v \<and> frame_method f \<noteq> NEW_SESSION \<and>
       visitor.sent w = visitor.sent v @ [(k, f)]))"

lemma reader_gets_same: "same_clients v (reader_gets v r)"
  by (cases r) (simp_all add: same_clients_def reader_gets_def reader_frame_keeps_clients reader_end_def)

lemma reader_wrote_same:
  assumes "refs_inv v"
  shows "same_clients v (reader_wrote v r)"
proof (cases "reader v")
  case (ReaderWriting u k x)
  then have "k < visitor.made v" using assms by (auto simp: refs_inv_def)
  then show ?thesis
    by (cases r) (auto simp: same_clients_def reader_wrote_def ReaderWriting Let_def client_ops mk_frame_def method_defs)
qed (simp_all add: reader_wrote_def same_clients_def)

lemma reader_closed_same: "same_clients v (reader_closed v)"
  by (cases "reader v") (simp_all add: same_clients_def reader_closed_def client_ops)

lemma accept_failed_same: "same_clients v (accept_failed v)"
  by (simp add: same_clients_def accept_failed_def)

lemma client_announced_same: "same_clients v (client_announced v k)"
  by (simp add: same_clients_def client_announced_def client_ops)

lemma pump_loop_same: "same_clients v (pump_loop v k)"
  by (simp add: same_clients_def)

lemma pump_sent_same: "same_clients v (pump_sent v k)"
  by (cases "pumps v k") (simp_all add: same_clients_def pump_sent_def client_ops)

lemma pump_read_same: "k < visitor.made v \<Longrightarrow> same_clients v (pump_read v k ec x)"
  by (auto simp: same_clients_def pump_read_def Let_def client_ops mk_frame_def method_defs)

lemmas same_steps = reader_gets_same reader_wrote_same reader_closed_same accept_failed_same client_announced_same
  pump_loop_same pump_sent_same pump_read_same

lemma visitor_turn_same:
  assumes "visitor_turn v e = Some w" "e \<noteq> ClientAccepted" "refs_inv v"
  shows "same_clients v w"
proof -
  have "pumps v k = PumpReading \<Longrightarrow> k < visitor.made v" for k using assms(3) by (auto simp: refs_inv_def)
  with assms show ?thesis
    by (cases e) (auto intro: same_steps split: if_splits reader_pc.splits accept_pc.splits)
qed

text \<open>One step: what it reads, and how what was sent grows.\<close>

definition gets_frames :: "visitor_event \<Rightarrow> Frame list" where
  "gets_frames e = (case e of ReaderGets (GotFrame f rest) \<Rightarrow> [f] | _ \<Rightarrow> [])"

lemma reader_gets_seen: "visitor.seen (reader_gets v r) = visitor.seen v @ gets_frames (ReaderGets r)"
  by (cases r) (simp_all add: gets_frames_def reader_gets_def reader_frame_keeps_clients reader_end_def)

lemma seen_ops:
  "visitor.seen (reader_wrote v r) = visitor.seen v" "visitor.seen (reader_closed v) = visitor.seen v"
  "visitor.seen (accept_failed v) = visitor.seen v" "visitor.seen (client_announced v k) = visitor.seen v"
  "visitor.seen (pump_read v k ec x) = visitor.seen v" "visitor.seen (pump_sent v k) = visitor.seen v"
  "visitor.seen (client_accepted v) = visitor.seen v"
proof -
  show "visitor.seen (reader_wrote v r) = visitor.seen v"
    by (cases "reader v") (simp_all add: reader_wrote_def Let_def client_ops)
  show "visitor.seen (reader_closed v) = visitor.seen v"
    by (cases "reader v") (simp_all add: reader_closed_def client_ops)
  show "visitor.seen (accept_failed v) = visitor.seen v" "visitor.seen (client_announced v k) = visitor.seen v"
    "visitor.seen (pump_read v k ec x) = visitor.seen v"
    by (simp_all add: accept_failed_def client_announced_def pump_read_def Let_def client_ops)
  show "visitor.seen (pump_sent v k) = visitor.seen v"
    by (cases "pumps v k") (simp_all add: pump_sent_def client_ops)
  obtain u g where "generate_uuid (rng v) = (u, g)" by (rule prod.exhaust)
  from client_accepted_simps(6) [OF this] show "visitor.seen (client_accepted v) = visitor.seen v" .
qed

lemma visitor_turn_seen:
  assumes "visitor_turn v e = Some w"
  shows "visitor.seen w = visitor.seen v @ gets_frames e"
proof (cases "\<exists>r. e = ReaderGets r")
  case True
  then show ?thesis using assms reader_gets_seen by (auto split: if_splits)
next
  case False
  then show ?thesis
    using assms by (cases e) (auto simp: gets_frames_def seen_ops split: if_splits reader_pc.splits accept_pc.splits)
qed

lemma visitor_turn_sent:
  assumes "visitor_turn v e = Some w" "refs_inv v"
  shows "prefix (visitor.sent v) (visitor.sent w)"
proof (cases "e = ClientAccepted")
  case True
  obtain u g where "generate_uuid (rng v) = (u, g)" by (rule prod.exhaust)
  from client_accepted_simps(9) [OF this] True assms(1) show ?thesis by (auto split: if_splits)
next
  case False
  from visitor_turn_same [OF assms(1) False assms(2)] show ?thesis by (auto simp: same_clients_def)
qed

lemma same_clients_announced:
  assumes "announced_inv v" "same_clients v w"
  shows "announced_inv w"
proof -
  have "announcement w = announcement v" using assms(2) by (simp add: same_clients_def announcement_def fun_eq_iff)
  then show ?thesis using assms by (auto simp: announced_inv_def same_clients_def intro: in_order_snoc)
qed

lemma client_accepted_announced:
  assumes inv: "announced_inv v"
  shows "announced_inv (client_accepted v)"
proof -
  obtain u g where g: "generate_uuid (rng v) = (u, g)" by (rule prod.exhaust)
  note w = client_accepted_simps [OF g]
  have "map (announcement (client_accepted v)) [0..<visitor.made v] = map (announcement v) [0..<visitor.made v]"
    by (simp add: announcement_def w)
  moreover have "announcement (client_accepted v) (visitor.made v) = (visitor.made v, mk_frame NEW_SESSION (build_uuid_body u))"
    by (simp add: announcement_def w)
  ultimately show ?thesis
    using inv by (auto simp: announced_inv_def w mk_frame_def intro!: in_order_snoc)
qed

lemma visitor_step_announced: "visitor_step v w \<Longrightarrow> refs_inv v \<and> announced_inv v \<Longrightarrow> refs_inv w \<and> announced_inv w"
proof (intro conjI)
  assume s: "visitor_step v w" and inv: "refs_inv v \<and> announced_inv v"
  show "refs_inv w" using visitor_step_refs [OF s] inv by blast
  from s obtain e where "visitor_move v e = Some w" by (auto elim: visitor_stepE)
  then have t: "visitor_turn v e = Some w" by (simp add: visitor_move_def split: if_splits)
  show "announced_inv w"
  proof (cases "e = ClientAccepted")
    case True
    then show ?thesis using t inv client_accepted_announced by (auto split: if_splits)
  next
    case False
    from same_clients_announced [OF _ visitor_turn_same [OF t this]] inv show ?thesis by blast
  qed
qed

interpretation visitor_announced: kept_invariant visitor_step "\<lambda>v. refs_inv v \<and> announced_inv v"
  by unfold_locales (rule visitor_step_announced)

lemma announced_start: "announced_inv (visitor_start g)"
  by (simp add: announced_inv_def visitor_start_def in_order_def)

text \<open>The visitor is a multiplexer.\<close>

interpretation visitor_mux: multiplexer "\<lambda>v. refs_inv v \<and> upstream_inv v" visitor.sent visitor.made
  "\<lambda>v k. ClientSession.uuid (objects v k)" visitor.taken
proof unfold_locales
  fix v :: visitor and k
  assume ok: "refs_inv v \<and> upstream_inv v"
  then have up: "upstream_client v k" by (simp add: upstream_inv_def)
  show "sent_for (visitor.sent v) k = []" if "visitor.made v \<le> k"
    using up that by (simp add: upstream_client_def sent_by_def)
  assume k: "k < visitor.made v"
  show "length (ClientSession.uuid (objects v k)) = UUID_BYTES" using up k by (simp add: upstream_client_def)
  obtain fs where fs: "sent_for (visitor.sent v) k = mk_frame NEW_SESSION (build_uuid_body (ClientSession.uuid (objects v k))) # fs"
    "stream_ok (ClientSession.uuid (objects v k)) (visitor.taken v k) (eof_sent (pumps v k)) fs"
    using up k by (auto simp: upstream_client_def upstream_ok_def sent_by_def)
  then show "payload (sent_for (visitor.sent v) k) = visitor.taken v k"
    by (simp add: stream_ok_def payload_def mk_frame_def method_defs)
  show "about (ClientSession.uuid (objects v k)) f" if "f \<in> set (sent_for (visitor.sent v) k)" "frame_method f = DATA" for f
    using fs that by (auto simp: stream_ok_def mk_frame_def method_defs)
qed

lemma visitor_methods:
  assumes "refs_inv v \<and> upstream_inv v" "(k, f) \<in> set (visitor.sent v)"
  shows "frame_method f \<in> {NEW_SESSION, DATA, DATA_EOF, SESSION_CLOSE}"
proof -
  have "k < visitor.made v" by (rule visitor_mux.sender [OF assms])
  with assms obtain fs where "sent_for (visitor.sent v) k = mk_frame NEW_SESSION (build_uuid_body (ClientSession.uuid (objects v k))) # fs"
    "stream_ok (ClientSession.uuid (objects v k)) (visitor.taken v k) (eof_sent (pumps v k)) fs"
    unfolding upstream_inv_def upstream_client_def upstream_ok_def sent_by_def by metis
  with assms(2) show ?thesis by (auto simp: set_sent_for stream_ok_def about_def mk_frame_def)
qed

subsection \<open>The provider\<close>

definition names :: "provider \<Rightarrow> string list" where
  "names p = map (\<lambda>k. SessionState.uuid (states p k)) [0..<provider.made p]"

definition opened_inv :: "provider \<Rightarrow> bool" where
  "opened_inv p \<longleftrightarrow> names p = map (string_of_bytes \<circ> frame_body) (filter (\<lambda>f. frame_method f = FORWARD_SESSION) (provider.seen p))"

text \<open>A step that opens no session.\<close>

definition same_names :: "provider \<Rightarrow> provider \<Rightarrow> bool" where
  "same_names p q \<longleftrightarrow> provider.made q = provider.made p \<and> provider.since q = provider.since p \<and>
     (\<forall>k. SessionState.uuid (states q k) = SessionState.uuid (states p k)) \<and> prefix (provider.sent p) (provider.sent q) \<and>
     provider.seen q = provider.seen p"

lemma same_names_refl [simp]: "same_names p p"
  by (simp add: same_names_def)

lemma same_names_trans: "same_names p q \<Longrightarrow> same_names q r \<Longrightarrow> same_names p r"
  by (auto simp: same_names_def)

lemma same_names_ops:
  "same_names p (set_proc p k pc)" "same_names p (send_for p k m b)" "same_names p (let_go p k)" "same_names p (erase_session p u)"
  "same_names p (session_finish p k)" "same_names p (provider_end p)"
  "(\<And>s. SessionState.uuid (g s) = SessionState.uuid s) \<Longrightarrow> same_names p (upd_state p k g)"
  by (auto simp: same_names_def session_ops session_finish_def provider_end_def Let_def)

lemma uuid_on_remote [simp]: "SessionState.uuid (on_remote f s) = SessionState.uuid s"
  by (simp add: on_remote_def)

lemma session_loop_same: "same_names p (session_loop p k)"
  by (simp add: session_loop_def same_names_ops)

lemma drain_next_same: "same_names p (drain_next p k i)"
  unfolding drain_next_def Let_def
  by (auto intro!: same_names_ops same_names_trans [OF _ session_loop_same] same_names_trans [OF same_names_ops(7) same_names_ops(7)])

lemma session_connected_same: "same_names p (session_connected p k b)"
  unfolding session_connected_def Let_def
  by (auto intro!: same_names_trans [OF same_names_ops(2) same_names_ops(1)]
      same_names_trans [OF same_names_trans [OF same_names_ops(7) same_names_ops(2)] same_names_ops(1)])

lemma session_sent_same: "same_names p (session_sent p k)"
proof -
  have "same_names p (session_finish (upd_state p k (\<lambda>s. s\<lparr>closed := True\<rparr>)) k)"
    by (rule same_names_trans [OF same_names_ops(7) same_names_ops(5)]) simp
  then show ?thesis
    by (cases "procs p k") (simp_all add: session_sent_def same_names_ops drain_next_same session_loop_same)
qed

lemma drain_written_same: "same_names p (drain_written p k r)"
proof (cases "procs p k")
  case (Draining i x)
  let ?u = "upd_state p k (on_remote (wrote r x))"
  have "same_names p ?u" by (simp add: same_names_ops)
  with same_names_trans [OF this drain_next_same] same_names_trans [OF this same_names_trans [OF same_names_ops(1) same_names_ops(3)]]
  show ?thesis by (cases r) (simp_all add: drain_written_def Draining Let_def)
qed (simp_all add: drain_written_def)

lemma drain_written_some_same: "same_names p (drain_written_some p k n)"
  by (cases "procs p k") (auto simp: drain_written_some_def same_names_def session_ops)

lemma target_read_same: "same_names p (target_read p k ec x)"
  by (auto simp: target_read_def same_names_def session_ops Let_def)

lemma frame_written_some_same: "same_names p (frame_written_some p n)"
  by (cases "frames p") (auto simp: frame_written_some_def same_names_def session_ops)

lemma frame_written_same: "same_names p (frame_written p r)"
proof (cases "frames p")
  case (FramesWriting k x)
  let ?u = "upd_state p k (on_remote (wrote r x))"
  have "same_names p ?u" by (simp add: same_names_ops)
  with same_names_trans [OF this same_names_ops(6)] show ?thesis
    by (auto simp: frame_written_def FramesWriting Let_def same_names_def)
qed (simp_all add: frame_written_def same_names_def)

lemma frame_data_same: "same_names p (frame_data p body)"
  by (auto simp: frame_data_def same_names_def upd_state_def Let_def split: option.split)

lemma frame_data_eof_same: "same_names p (frame_data_eof p body)"
  by (auto simp: frame_data_eof_def same_names_def session_ops Let_def split: option.split)

lemma frame_session_close_same: "same_names p (frame_session_close p body)"
  by (auto simp: frame_session_close_def same_names_def session_ops split: option.split)

lemma provider_frame_same: "frame_method f \<noteq> FORWARD_SESSION \<Longrightarrow> same_names p (provider_frame p f)"
  by (simp add: provider_frame_def Let_def same_names_ops frame_data_same frame_data_eof_same frame_session_close_same)

text \<open>A new session.\<close>

lemma forward_session_simps:
  "provider.made (forward_session p body) = provider.made p + 1" "provider.seen (forward_session p body) = provider.seen p"
  "provider.sent (forward_session p body) = provider.sent p"
  "provider.since (forward_session p body) = (provider.since p)(provider.made p := length (provider.seen p))"
  "SessionState.uuid (states (forward_session p body) k) =
    (if k = provider.made p then string_of_bytes body else SessionState.uuid (states p k))"
  by (simp_all add: forward_session_def new_state_def Let_def split: option.split)

text \<open>One step: what it reads, and the session that it opens.\<close>

definition read_frames_of :: "provider_event \<Rightarrow> Frame list" where
  "read_frames_of e = (case e of FrameRead (GotFrame f rest) \<Rightarrow> [f] | _ \<Rightarrow> [])"

lemma provider_move_names:
  assumes "provider_move p e = Some q"
  shows "provider.seen q = provider.seen p @ read_frames_of e" "prefix (provider.sent p) (provider.sent q)"
    "(\<forall>f\<in>set (read_frames_of e). frame_method f \<noteq> FORWARD_SESSION) \<longrightarrow> provider.made q = provider.made p \<and>
      provider.since q = provider.since p \<and> (\<forall>k. SessionState.uuid (states q k) = SessionState.uuid (states p k))"
    "read_frames_of e = [f] \<Longrightarrow> frame_method f = FORWARD_SESSION \<Longrightarrow>
      q = forward_session (p\<lparr>seen := provider.seen p @ [f]\<rparr>) (frame_body f)"
proof -
  have "(\<exists>f rest. e = FrameRead (GotFrame f rest) \<and> q = provider_frame (p\<lparr>seen := provider.seen p @ [f]\<rparr>) f) \<or>
      same_names p q \<and> read_frames_of e = []"
  proof (cases e)
    case (FrameRead r)
    then show ?thesis
      using assms by (cases r) (auto simp: provider_gets_def read_frames_of_def same_names_ops split: if_splits)
  next
    case (FrameWritten r)
    then show ?thesis using assms by (auto simp: read_frames_of_def frame_written_same split: frames_pc.splits if_splits)
  next
    case (FrameWrittenSome n)
    then show ?thesis using assms by (auto simp: read_frames_of_def frame_written_some_same split: frames_pc.splits if_splits)
  next
    case (Connected k ok)
    then show ?thesis using assms by (auto simp: read_frames_of_def session_connected_same split: if_splits)
  next
    case (DrainWritten k r)
    then show ?thesis using assms by (auto simp: read_frames_of_def drain_written_same split: session_pc.splits if_splits)
  next
    case (DrainWrittenSome k n)
    then show ?thesis using assms by (auto simp: read_frames_of_def drain_written_some_same split: session_pc.splits if_splits)
  next
    case (RemoteRead k ec x)
    then show ?thesis using assms by (auto simp: read_frames_of_def target_read_same split: if_splits)
  next
    case (Sent k)
    then show ?thesis using assms by (auto simp: read_frames_of_def session_sent_same split: if_splits)
  qed
  then have "provider.seen q = provider.seen p @ read_frames_of e \<and> prefix (provider.sent p) (provider.sent q) \<and>
      ((\<forall>f\<in>set (read_frames_of e). frame_method f \<noteq> FORWARD_SESSION) \<longrightarrow> provider.made q = provider.made p \<and>
        provider.since q = provider.since p \<and> (\<forall>k. SessionState.uuid (states q k) = SessionState.uuid (states p k))) \<and>
      (read_frames_of e = [f] \<longrightarrow> frame_method f = FORWARD_SESSION \<longrightarrow>
        q = forward_session (p\<lparr>seen := provider.seen p @ [f]\<rparr>) (frame_body f))" for f
  proof (elim disjE exE conjE)
    fix g rest assume e: "e = FrameRead (GotFrame g rest)" and q: "q = provider_frame (p\<lparr>seen := provider.seen p @ [g]\<rparr>) g"
    have r: "read_frames_of e = [g]" by (simp add: e read_frames_of_def)
    show "provider.seen q = provider.seen p @ read_frames_of e \<and> prefix (provider.sent p) (provider.sent q) \<and>
      ((\<forall>f\<in>set (read_frames_of e). frame_method f \<noteq> FORWARD_SESSION) \<longrightarrow> provider.made q = provider.made p \<and>
        provider.since q = provider.since p \<and> (\<forall>k. SessionState.uuid (states q k) = SessionState.uuid (states p k))) \<and>
      (read_frames_of e = [f] \<longrightarrow> frame_method f = FORWARD_SESSION \<longrightarrow>
        q = forward_session (p\<lparr>seen := provider.seen p @ [f]\<rparr>) (frame_body f))"
    proof (cases "frame_method g = FORWARD_SESSION")
      case True
      then have "q = forward_session (p\<lparr>seen := provider.seen p @ [g]\<rparr>) (frame_body g)"
        by (simp add: q provider_frame_def method_defs)
      with True r show ?thesis by (simp add: forward_session_simps)
    next
      case False
      from provider_frame_same [OF this, of "p\<lparr>seen := provider.seen p @ [g]\<rparr>"] False r q show ?thesis
        by (auto simp: same_names_def)
    qed
  qed (auto simp: same_names_def)
  then show "provider.seen q = provider.seen p @ read_frames_of e" "prefix (provider.sent p) (provider.sent q)"
    "(\<forall>f\<in>set (read_frames_of e). frame_method f \<noteq> FORWARD_SESSION) \<longrightarrow> provider.made q = provider.made p \<and>
      provider.since q = provider.since p \<and> (\<forall>k. SessionState.uuid (states q k) = SessionState.uuid (states p k))"
    "read_frames_of e = [f] \<Longrightarrow> frame_method f = FORWARD_SESSION \<Longrightarrow>
      q = forward_session (p\<lparr>seen := provider.seen p @ [f]\<rparr>) (frame_body f)"
    by blast+
qed

lemma provider_step_opened: "provider_step p q \<Longrightarrow> opened_inv p \<Longrightarrow> opened_inv q"
proof (erule provider_stepE)
  fix e assume m: "provider_move p e = Some q" and inv: "opened_inv p"
  note n = provider_move_names [OF m]
  show "opened_inv q"
  proof (cases "\<forall>f\<in>set (read_frames_of e). frame_method f \<noteq> FORWARD_SESSION")
    case True
    then have "names q = names p" "filter (\<lambda>f. frame_method f = FORWARD_SESSION) (read_frames_of e) = []"
      using n(3) by (simp_all add: names_def)
    then show ?thesis using inv n(1) by (simp add: opened_inv_def)
  next
    case False
    then obtain f where f: "read_frames_of e = [f]" "frame_method f = FORWARD_SESSION"
      by (auto simp: read_frames_of_def split: provider_event.splits frame_read.splits)
    have q: "q = forward_session (p\<lparr>seen := provider.seen p @ [f]\<rparr>) (frame_body f)" using n(4) [OF f] .
    have "names q = names p @ [string_of_bytes (frame_body f)]" by (simp add: names_def q forward_session_simps)
    then show ?thesis using inv n(1) f by (simp add: opened_inv_def)
  qed
qed

interpretation provider_opened: kept_invariant provider_step opened_inv
  by unfold_locales (rule provider_step_opened)

lemma opened_start: "opened_inv provider_start"
  by (simp add: opened_inv_def names_def provider_start_def)

text \<open>The provider is a multiplexer as long as the uuids that it is given have their length.\<close>

definition named_ok :: "provider \<Rightarrow> bool" where
  "named_ok p \<longleftrightarrow> provider_inv p \<and> (\<forall>u\<in>set (names p). length u = UUID_BYTES)"

interpretation provider_mux: multiplexer named_ok provider.sent provider.made "\<lambda>p k. SessionState.uuid (states p k)" provider.taken
proof unfold_locales
  fix p :: provider and k
  assume ok: "named_ok p"
  then show "sent_for (provider.sent p) k = []" if "provider.made p \<le> k" using that by (simp add: named_ok_def provider_inv_def)
  assume k: "k < provider.made p"
  show u: "length (SessionState.uuid (states p k)) = UUID_BYTES" using ok k by (auto simp: named_ok_def names_def)
  let ?u = "SessionState.uuid (states p k)"
  have r: "replies_ok p k" using ok k by (simp add: named_ok_def provider_inv_def session_ok_def base_ok_def Let_def)
  have "(\<exists>gs e. sent_for (provider.sent p) k = mk_frame SESSION_OK (build_uuid_body ?u) # gs \<and> stream_ok ?u (provider.taken p k) e gs) \<or>
    provider.taken p k = [] \<and> (sent_for (provider.sent p) k = [] \<or> sent_for (provider.sent p) k = [mk_frame SESSION_ERR (build_uuid_body ?u)])"
    using r u unfolding replies_ok_def Let_def by (auto split: if_splits)
  then show "payload (sent_for (provider.sent p) k) = provider.taken p k"
    "\<And>f. f \<in> set (sent_for (provider.sent p) k) \<Longrightarrow> frame_method f = DATA \<Longrightarrow> about ?u f"
    by (auto simp: stream_ok_def payload_def mk_frame_def method_defs)
qed

lemma provider_methods:
  assumes "named_ok p" "(k, f) \<in> set (provider.sent p)"
  shows "frame_method f \<in> {SESSION_OK, SESSION_ERR, DATA, DATA_EOF, SESSION_CLOSE}"
proof -
  have k: "k < provider.made p" by (rule provider_mux.sender [OF assms])
  let ?u = "SessionState.uuid (states p k)"
  have r: "replies_ok p k" "length ?u = UUID_BYTES"
    using assms(1) k provider_mux.name_length [OF assms(1) k] by (simp_all add: named_ok_def provider_inv_def session_ok_def base_ok_def Let_def)
  have "(\<exists>gs e. sent_for (provider.sent p) k = mk_frame SESSION_OK (build_uuid_body ?u) # gs \<and> stream_ok ?u (provider.taken p k) e gs) \<or>
    sent_for (provider.sent p) k = [] \<or> sent_for (provider.sent p) k = [mk_frame SESSION_ERR (build_uuid_body ?u)]"
    using r unfolding replies_ok_def Let_def by (auto split: if_splits)
  with assms(2) show ?thesis by (auto simp: set_sent_for stream_ok_def about_def mk_frame_def)
qed

end
