(* ===== verification/Relay_Delivery.thy ===== *)
theory Relay_Delivery
  imports Relay_Clients
begin

section \<open>Downstream of the visitor\<close>

text \<open>
  The invariant that relates the bytes written to a client to the DATA frames the server
  has sent for its uuid since it was accepted.
\<close>

subsection \<open>Downstream\<close>

abbreviation registered :: "visitor \<Rightarrow> nat \<Rightarrow> bool" where
  "registered v k \<equiv> sessions v (uuid (objects v k)) = Some k"

definition pending :: "visitor \<Rightarrow> nat \<Rightarrow> ByteVector" where
  "pending v k = (case reader v of ReaderWriting u j x \<Rightarrow> if j = k then x else [] | _ \<Rightarrow> [])"

definition failing :: "visitor \<Rightarrow> nat \<Rightarrow> bool" where
  "failing v k \<longleftrightarrow> (case reader v of ReaderClosing u j \<Rightarrow> j = k | _ \<Rightarrow> False)"

definition arrived :: "visitor \<Rightarrow> nat \<Rightarrow> ByteVector" where
  "arrived v k = data_for (uuid (objects v k)) (drop (since v k) (seen v))"

definition downstream_ok :: "visitor \<Rightarrow> nat \<Rightarrow> bool" where
  "downstream_ok v k \<longleftrightarrow> since v k \<le> length (seen v) \<and>
     prefix (written (client (objects v k)) @ pending v k) (arrived v k) \<and>
     (registered v k \<and> \<not> failing v k \<longrightarrow> written (client (objects v k)) @ pending v k = arrived v k)"

definition downstream_inv :: "visitor \<Rightarrow> bool" where
  "downstream_inv v \<longleftrightarrow> (\<forall>k<made v. downstream_ok v k)"

text \<open>A step that reads no frame and writes nothing to the client, and can only take it off the map.\<close>

lemma downstream_mono:
  assumes "downstream_ok v k" "since w k = since v k" "seen w = seen v" "uuid (objects w k) = uuid (objects v k)"
    "written (client (objects w k)) = written (client (objects v k))" "pending w k = pending v k"
    "registered w k \<and> \<not> failing w k \<longrightarrow> registered v k \<and> \<not> failing v k"
  shows "downstream_ok w k"
  using assms by (simp add: downstream_ok_def arrived_def)

lemma reader_frame_moves:
  assumes r: "reader v = ReaderReading"
  shows "(reader (reader_frame v f) \<in> {ReaderReading, ReaderEnded} \<and>
      (\<forall>k. registered (reader_frame v f) k \<longrightarrow> registered v k \<and>
        data_of (uuid (objects v k)) f = [])) \<or>
    (\<exists>u k. reader (reader_frame v f) = ReaderWriting u k (drop UUID_BYTES (frame_body f)) \<and> sessions v u = Some k \<and>
      is_data u f \<and> sessions (reader_frame v f) = sessions v)"
  using r by (auto simp: reader_frame_def reader_end_def Let_def client_ops data_of_def is_data_def method_defs split: option.split)

lemma reader_frame_downstream:
  assumes refs: "refs_inv v" and r: "reader v = ReaderReading" and inv: "downstream_inv v"
  shows "downstream_inv (reader_frame (v\<lparr>seen := seen v @ [f]\<rparr>) f)" (is "downstream_inv ?w")
  unfolding downstream_inv_def
proof (intro allI impI)
  fix k assume "k < made ?w"
  then have ok: "downstream_ok v k" using inv by (simp add: downstream_inv_def reader_frame_keeps_clients)
  let ?v = "v\<lparr>seen := seen v @ [f]\<rparr>"
  let ?d = "data_of (uuid (objects v k)) f"
  have w: "since ?w k = since v k" "seen ?w = seen v @ [f]" "uuid (objects ?w j) = uuid (objects v j)"
    "written (client (objects ?w k)) = written (client (objects v k))" for j
    by (simp_all add: reader_frame_keeps_clients)
  have now: "pending v k = []" "\<not> failing v k" using r by (simp_all add: pending_def failing_def)
  have arr: "arrived ?w k = arrived v k @ ?d"
    using ok by (simp add: arrived_def w data_for_snoc downstream_ok_def)
  have rv: "reader ?v = ReaderReading" using r by simp
  consider (quiet) "reader ?w \<in> {ReaderReading, ReaderEnded}" "registered ?w k \<longrightarrow> registered v k \<and> ?d = []"
    | (writes) u j where "reader ?w = ReaderWriting u j (drop UUID_BYTES (frame_body f))" "sessions v u = Some j"
        "is_data u f" "sessions ?w = sessions v"
    using reader_frame_moves [OF rv, of f] by (auto simp: w)
  then show "downstream_ok ?w k"
  proof cases
    case quiet
    then have "pending ?w k = []" "\<not> failing ?w k" by (auto simp: pending_def failing_def)
    with quiet(2) ok now show ?thesis unfolding downstream_ok_def arr w by auto
  next
    case (writes u j)
    have j: "uuid (objects v j) = u" using refs_session [OF refs writes(2)] by blast
    show ?thesis
    proof (cases "j = k")
      case True
      with writes j ok now show ?thesis
        unfolding downstream_ok_def arr w by (simp add: pending_def failing_def data_of_def)
    next
      case False
      then have "pending ?w k = []" "\<not> failing ?w k" using writes(1) by (auto simp: pending_def failing_def)
      moreover have "registered v k \<longrightarrow> ?d = []" using False writes j by (auto simp: data_of_def is_data_def)
      ultimately show ?thesis using ok now writes(4) unfolding downstream_ok_def arr w by auto
    qed
  qed
qed

lemma reader_wrote_downstream:
  assumes inv: "downstream_inv v"
  shows "downstream_inv (reader_wrote v r)"
  unfolding downstream_inv_def
proof (intro allI impI)
  fix k assume k: "k < made (reader_wrote v r)"
  show "downstream_ok (reader_wrote v r) k"
  proof (cases "reader v")
    case (ReaderWriting u j x)
    then have "k < made v" using k by (cases r) (simp_all add: reader_wrote_def Let_def client_ops)
    then have ok: "downstream_ok v k" using inv by (simp add: downstream_inv_def)
    show ?thesis
    proof (cases "j = k")
      case True
      have "prefix (written (client (objects v k)) @ x) (arrived v k)"
        using ok ReaderWriting True by (simp add: downstream_ok_def pending_def)
      then have pre: "prefix (written (client (objects v k)) @ take n x) (arrived v k)" for n
        by (rule prefix_order.trans [rotated]) (simp add: take_is_prefix)
      show ?thesis
        using ok ReaderWriting True pre
        by (cases r) (auto simp: reader_wrote_def Let_def client_ops downstream_ok_def pending_def failing_def arrived_def wrote_simps)
    next
      case False
      with ok ReaderWriting show ?thesis
        by (cases r) (auto intro!: downstream_mono [OF ok] simp: reader_wrote_def Let_def client_ops pending_def failing_def)
    qed
  qed (use k inv in \<open>simp_all add: reader_wrote_def downstream_inv_def\<close>)
qed

text \<open>The steps that leave the reader, the frames and what is written alone.\<close>

lemma downstream_other:
  assumes inv: "downstream_inv v"
    and w: "made w = made v" "since w = since v" "seen w = seen v" "reader w = reader v"
      "\<And>k. uuid (objects w k) = uuid (objects v k)"
      "\<And>k. written (client (objects w k)) = written (client (objects v k))" "sessions w \<subseteq>\<^sub>m sessions v"
  shows "downstream_inv w"
  unfolding downstream_inv_def
proof (intro allI impI)
  fix k assume "k < made w"
  then have ok: "downstream_ok v k" using inv w(1) by (simp add: downstream_inv_def)
  have "registered v k" if "registered w k" using that w(5,7) by (metis domI map_le_def)
  then show "downstream_ok w k"
    by (intro downstream_mono [OF ok]) (simp_all add: w pending_def failing_def)
qed

lemma reader_stops_downstream:
  assumes inv: "downstream_inv v" and r: "\<forall>u k x. reader v \<noteq> ReaderWriting u k x"
    and w: "made w = made v" "since w = since v" "seen w = seen v" "reader w \<in> {ReaderReading, ReaderEnded}"
      "\<And>k. uuid (objects w k) = uuid (objects v k)"
      "\<And>k. written (client (objects w k)) = written (client (objects v k))"
      "\<And>k. registered w k \<Longrightarrow> registered v k \<and> \<not> failing v k"
  shows "downstream_inv w"
  unfolding downstream_inv_def
proof (intro allI impI)
  fix k assume "k < made w"
  then have ok: "downstream_ok v k" using inv w(1) by (simp add: downstream_inv_def)
  show "downstream_ok w k"
    by (rule downstream_mono [OF ok]) (use r w in \<open>auto simp: pending_def split: reader_pc.split\<close>)
qed

lemma reader_closed_downstream:
  assumes refs: "refs_inv v" and inv: "downstream_inv v"
  shows "downstream_inv (reader_closed v)"
proof (cases "reader v")
  case (ReaderClosing u k)
  then have "uuid (objects v k) = u" using refs by (auto simp: refs_inv_def)
  with ReaderClosing show ?thesis
    by (intro reader_stops_downstream [OF inv])
      (auto simp: reader_closed_def client_ops failing_def sock_defs split: if_splits)
qed (simp_all add: reader_closed_def inv)

lemma reader_gets_downstream:
  assumes refs: "refs_inv v" and r: "reader v = ReaderReading" and inv: "downstream_inv v"
  shows "downstream_inv (reader_gets v x)"
proof (cases x)
  case (GotFrame f rest)
  with reader_frame_downstream [OF refs r inv] show ?thesis by (simp add: reader_gets_def)
qed (use r in \<open>auto simp: reader_gets_def reader_end_def inv intro!: reader_stops_downstream [OF inv]\<close>)

lemma client_accepted_downstream:
  assumes refs: "refs_inv v" and inv: "downstream_inv v"
  shows "downstream_inv (client_accepted v)"
  unfolding downstream_inv_def
proof (intro allI impI)
  fix k assume k: "k < made (client_accepted v)"
  obtain u g where g: "generate_uuid (rng v) = (u, g)" by (rule prod.exhaust)
  note w = client_accepted_simps [OF g]
  show "downstream_ok (client_accepted v) k"
  proof (cases "k = made v")
    case True
    have "pending (client_accepted v) k = []"
      using refs True by (auto simp: pending_def w refs_inv_def split: reader_pc.split)
    with True show ?thesis by (simp add: downstream_ok_def w arrived_def)
  next
    case False
    with k inv have ok: "downstream_ok v k" by (simp add: downstream_inv_def w)
    show ?thesis
      by (rule downstream_mono [OF ok]) (use False in \<open>auto simp: w pending_def failing_def split: if_splits\<close>)
  qed
qed

lemma accept_failed_downstream: "downstream_inv v \<Longrightarrow> downstream_inv (accept_failed v)"
  by (rule downstream_other [of v]) (simp_all add: accept_failed_def)

lemma client_announced_downstream: "downstream_inv v \<Longrightarrow> downstream_inv (client_announced v k)"
  by (rule downstream_other [of v]) (simp_all add: client_announced_def client_ops)

lemma pump_loop_downstream: "downstream_inv v \<Longrightarrow> downstream_inv (pump_loop v k)"
  by (rule downstream_other [of v]) (auto simp: map_le_upd_None)

lemma pump_read_downstream: "downstream_inv v \<Longrightarrow> downstream_inv (pump_read v k ec x)"
  by (rule downstream_other [of v]) (auto simp: pump_read_def Let_def client_ops)

lemma pump_sent_downstream: "downstream_inv v \<Longrightarrow> downstream_inv (pump_sent v k)"
  by (rule downstream_other [of v]) (auto simp: pump_sent_def client_ops map_le_upd_None split: client_pc.split)

lemmas downstream_steps = reader_gets_downstream reader_wrote_downstream reader_closed_downstream accept_failed_downstream
  client_accepted_downstream client_announced_downstream pump_loop_downstream pump_read_downstream pump_sent_downstream

lemma visitor_step_downstream: "visitor_step v w \<Longrightarrow> refs_inv v \<and> downstream_inv v \<Longrightarrow> refs_inv w \<and> downstream_inv w"
proof (intro conjI)
  assume s: "visitor_step v w" and inv: "refs_inv v \<and> downstream_inv v"
  show "refs_inv w" using visitor_step_refs [OF s] inv by blast
  from s obtain e where "visitor_move v e = Some w" by (auto elim: visitor_stepE)
  with inv show "downstream_inv w"
    by (cases e) (auto simp: visitor_move_def split: if_splits reader_pc.splits accept_pc.splits intro: downstream_steps)
qed

interpretation visitor_downstream: kept_invariant visitor_step "\<lambda>v. refs_inv v \<and> downstream_inv v"
  by unfold_locales (rule visitor_step_downstream)

lemma downstream_start: "downstream_inv (visitor_start g)"
  by (simp add: downstream_inv_def visitor_start_def)

text \<open>What has been written to a client, without the writes in progress.\<close>

lemma downstream_written:
  assumes "downstream_inv v" "k < made v"
  shows "prefix (written (client (objects v k))) (arrived v k)"
    "registered v k \<Longrightarrow> reader v = ReaderReading \<Longrightarrow> written (client (objects v k)) = arrived v k"
proof -
  have ok: "downstream_ok v k" using assms by (simp add: downstream_inv_def)
  then show "prefix (written (client (objects v k))) (arrived v k)" by (meson append_prefixD downstream_ok_def)
  assume "registered v k" "reader v = ReaderReading"
  moreover from this have "pending v k = [] \<and> \<not> failing v k" by (simp add: pending_def failing_def)
  ultimately show "written (client (objects v k)) = arrived v k" using ok by (auto simp: downstream_ok_def)
qed

end
