(* ===== verification/Relay_Life.thy ===== *)
theory Relay_Life
  imports Relay_Delivery
begin

section \<open>The life of a session of the visitor\<close>

text \<open>
  The invariant on the map, the flags and the sockets of the clients: which clients are
  open, why one was closed, and why one has left the map.
\<close>

definition told_to_close :: "string \<Rightarrow> Frame list \<Rightarrow> bool" where
  "told_to_close u fs \<longleftrightarrow> (\<exists>f\<in>set fs. frame_method f \<in> {SESSION_ERR, SESSION_CLOSE} \<and>
     UUID_BYTES \<le> length (frame_body f) \<and> string_of_bytes (take UUID_BYTES (frame_body f)) = u)"

definition gave_up :: "visitor \<Rightarrow> nat \<Rightarrow> bool" where
  "gave_up v k \<longleftrightarrow> (k, mk_frame SESSION_CLOSE (build_uuid_body (uuid (objects v k)))) \<in> set (sent v)"

definition twin :: "visitor \<Rightarrow> nat \<Rightarrow> bool" where
  "twin v k \<longleftrightarrow> (\<exists>j<made v. j \<noteq> k \<and> uuid (objects v j) = uuid (objects v k))"

definition life_ok :: "visitor \<Rightarrow> nat \<Rightarrow> bool" where
  "life_ok v k \<longleftrightarrow>
     (registered v k \<longrightarrow> \<not> closed (objects v k) \<and> is_open (client (objects v k)) \<and>
        (half_close_recv (objects v k) \<and> half_close_send (objects v k) \<longrightarrow> pumps v k = PumpSentEof)) \<and>
     (\<not> held v k \<longrightarrow> \<not> is_open (client (objects v k))) \<and>
     (closed (objects v k) \<longrightarrow> half_close_recv (objects v k) \<and> half_close_send (objects v k) \<or>
        told_to_close (uuid (objects v k)) (seen v) \<or> gave_up v k) \<and>
     (\<not> registered v k \<longrightarrow> closed (objects v k) \<or> reader v = ReaderEnded \<or> acceptor v = AcceptEnded \<or> twin v k) \<and>
     pumps v k \<noteq> PumpSentClose \<and> (pumps v k = PumpSentEof \<longrightarrow> half_close_send (objects v k)) \<and>
     ((\<exists>u. reader v = ReaderClosing u k) \<longrightarrow> gave_up v k)"

definition life_inv :: "visitor \<Rightarrow> bool" where
  "life_inv v \<longleftrightarrow> (\<forall>k<made v. life_ok v k)"

lemma erase_open [simp]:
  "is_open (client (objects (erase v u) j)) \<longleftrightarrow> is_open (client (objects v j)) \<and> (sessions v u = Some j \<longrightarrow>
     held (v\<lparr>sessions := (sessions v)(u := None)\<rparr>) j)"
  by (auto simp: erase_def split: option.split)

lemma held_simps: "held w k \<longleftrightarrow> registered w k \<or> pumps w k \<notin> {NoPump, PumpEnded} \<or> acceptor w = Announcing k"
  by (simp add: held_def)

text \<open>Taking a client off the map once it has been closed.\<close>

lemma life_erase:
  assumes refs: "refs_inv v" and k: "sessions v u = Some k" and inv: "\<forall>j<made v. j \<noteq> k \<longrightarrow> life_ok v j"
    and ok: "closed (objects v k)" "half_close_recv (objects v k) \<and> half_close_send (objects v k) \<or>
        told_to_close (uuid (objects v k)) (seen v) \<or> gave_up v k"
      "pumps v k \<noteq> PumpSentClose \<and> (pumps v k = PumpSentEof \<longrightarrow> half_close_send (objects v k)) \<and>
     ((\<exists>u. reader v = ReaderClosing u k) \<longrightarrow> gave_up v k)"
  shows "life_inv (erase v u)"
  unfolding life_inv_def
proof (intro allI impI)
  fix j assume j: "j < made (erase v u)"
  have u: "uuid (objects v k) = u" using refs_session [OF refs k] by blast
  show "life_ok (erase v u) j"
  proof (cases "j = k")
    case True
    with ok u k show ?thesis
      by (simp add: life_ok_def held_simps gave_up_def)
  next
    case False
    with j inv have "life_ok v j" by simp
    moreover have "registered (erase v u) j = registered v j" using False k u by auto
    moreover have "sessions v u \<noteq> Some j" using False k by simp
    ultimately show ?thesis
      by (simp add: life_ok_def held_simps gave_up_def twin_def)
  qed
qed

text \<open>A client that a step does not touch.\<close>

lemma life_mono:
  assumes "life_ok v k" "objects w k = objects v k" "registered w k = registered v k" "held w k = held v k"
    "pumps w k = pumps v k" "set (seen v) \<subseteq> set (seen w)" "set (sent v) \<subseteq> set (sent w)"
    "twin v k \<longrightarrow> twin w k" "reader v = ReaderEnded \<longrightarrow> reader w = ReaderEnded"
    "acceptor v = AcceptEnded \<longrightarrow> acceptor w = AcceptEnded" "\<forall>u. reader w = ReaderClosing u k \<longrightarrow> gave_up w k"
  shows "life_ok w k"
proof -
  have "gave_up v k \<longrightarrow> gave_up w k" using assms(2,7) by (auto simp: gave_up_def)
  moreover have "told_to_close u (seen v) \<longrightarrow> told_to_close u (seen w)" for u
    using assms(6) by (auto simp: told_to_close_def)
  moreover have "sessions w (uuid (objects v k)) = Some k \<longleftrightarrow> registered v k" using assms(2,3) by simp
  ultimately show ?thesis
    using assms(1,8-11) unfolding life_ok_def assms(2,4,5) by (simp only:) blast
qed

text \<open>
  A step on one client: what the client's record, its pump and what is sent for it become,
  the rest as it was.
\<close>

lemma life_one:
  assumes inv: "life_inv v" and w: "made w = made v" "\<And>j. j \<noteq> k \<Longrightarrow> objects w j = objects v j"
    "sessions w = sessions v" "\<And>j. j \<noteq> k \<Longrightarrow> pumps w j = pumps v j" "acceptor w = acceptor v" "seen w = seen v"
    "set (sent v) \<subseteq> set (sent w)" "uuid (objects w k) = uuid (objects v k)"
    "\<And>u j. reader w = ReaderClosing u j \<Longrightarrow> gave_up w j" "reader v = ReaderEnded \<longrightarrow> reader w = ReaderEnded"
  shows "\<forall>j<made w. j \<noteq> k \<longrightarrow> life_ok w j"
proof (intro allI impI)
  fix j assume j: "j < made w" "j \<noteq> k"
  then have "life_ok v j" using inv w(1) by (simp add: life_inv_def)
  moreover have "uuid (objects w i) = uuid (objects v i)" for i using w(2,8) by (cases "i = k") auto
  ultimately show "life_ok w j"
    using j w by (elim life_mono) (auto simp: held_simps twin_def)
qed

lemma life_upd:
  assumes inv: "life_inv v" and r: "\<And>u j. reader v = ReaderClosing u j \<Longrightarrow> j < made v"
    and g: "uuid (g (objects v k)) = uuid (objects v k)" "is_open (client (g (objects v k))) = is_open (client (objects v k))"
      "closed (g (objects v k)) = closed (objects v k)" "half_close_recv (objects v k) \<longrightarrow> half_close_recv (g (objects v k))"
      "half_close_send (g (objects v k)) = half_close_send (objects v k)"
      "registered v k \<and> half_close_recv (g (objects v k)) \<and> half_close_send (objects v k) \<longrightarrow> pumps v k = PumpSentEof"
  shows "life_inv (upd_client v k g)"
proof -
  have gave: "gave_up (upd_client v k g) j = gave_up v j" for j
    using g(1) by (simp add: gave_up_def upd_client_def)
  have "gave_up v j" if "reader v = ReaderClosing u j" for u j
    using inv r [OF that] that by (auto simp: life_inv_def life_ok_def)
  with inv g(1) have others: "\<forall>j<made v. j \<noteq> k \<longrightarrow> life_ok (upd_client v k g) j"
    using life_one [of v "upd_client v k g" k] gave by (simp add: upd_client_def)
  have same: "sessions (upd_client v k g) = sessions v" "held (upd_client v k g) k = held v k"
    "twin (upd_client v k g) k = twin v k" "pumps (upd_client v k g) k = pumps v k" "reader (upd_client v k g) = reader v"
    "acceptor (upd_client v k g) = acceptor v" "seen (upd_client v k g) = seen v" "objects (upd_client v k g) k = g (objects v k)"
    using g(1) by (auto simp: upd_client_def held_simps twin_def)
  have "life_ok (upd_client v k g) k" if "life_ok v k"
    using that g(4,6) unfolding life_ok_def same gave g(1-3,5) by blast
  with others inv show ?thesis by (auto simp: life_inv_def upd_client_def)
qed

text \<open>Closing a client and taking it off the map in one step.\<close>

lemma life_close:
  assumes refs: "refs_inv v" and k: "sessions v u = Some k" and inv: "life_inv v"
    and r: "\<And>u j. reader v = ReaderClosing u j \<Longrightarrow> gave_up v j"
    and g: "uuid (g (objects v k)) = uuid (objects v k)" "closed (g (objects v k))"
      "half_close_send (g (objects v k)) = half_close_send (objects v k)"
      "half_close_recv (objects v k) \<longrightarrow> half_close_recv (g (objects v k))"
    and why: "half_close_recv (g (objects v k)) \<and> half_close_send (objects v k) \<or>
        told_to_close (uuid (objects v k)) (seen v) \<or> gave_up v k"
  shows "life_inv (erase (upd_client v k g) u)"
proof -
  let ?w = "upd_client v k g"
  have w: "made ?w = made v" "sessions ?w = sessions v" "reader ?w = reader v" "acceptor ?w = acceptor v"
    "pumps ?w = pumps v" "sent ?w = sent v" "seen ?w = seen v" "objects ?w k = g (objects v k)"
    "j \<noteq> k \<Longrightarrow> objects ?w j = objects v j" for j by (simp_all add: upd_client_def)
  have gave: "gave_up ?w j = gave_up v j" for j using g(1) by (simp add: gave_up_def upd_client_def)
  have made: "k < made v" using refs_session [OF refs k] by blast
  then have ok: "life_ok v k" using inv by (simp add: life_inv_def)
  show ?thesis
  proof (rule life_erase)
    show "refs_inv ?w" by (rule refs_mono [OF refs]) (use g(1) in \<open>auto simp: upd_client_def\<close>)
    show "\<forall>j<made ?w. j \<noteq> k \<longrightarrow> life_ok ?w j"
      by (rule life_one [OF inv]) (use g(1) r w gave in auto)
    show "pumps ?w k \<noteq> PumpSentClose \<and> (pumps ?w k = PumpSentEof \<longrightarrow> half_close_send (objects ?w k)) \<and>
        ((\<exists>u. reader ?w = ReaderClosing u k) \<longrightarrow> gave_up ?w k)"
      using ok unfolding life_ok_def w gave g(3) by blast
    show "half_close_recv (objects ?w k) \<and> half_close_send (objects ?w k) \<or>
        told_to_close (uuid (objects ?w k)) (seen ?w) \<or> gave_up ?w k"
      using why unfolding w gave g(1,3) .
  qed (use k g w in simp_all)
qed

lemma close_client_simps [simp]:
  "uuid (close_client s) = uuid s" "closed (close_client s) = closed s" "half_close_send (close_client s) = half_close_send s"
  "half_close_recv (close_client s) = half_close_recv s"
  by (simp_all add: close_client_def)

subsection \<open>The steps keep it\<close>

text \<open>The map cleared: every client on it is closed.\<close>

lemma life_clear:
  assumes inv: "life_inv v" and w: "w = (close_clients v)\<lparr>reader := ReaderEnded\<rparr> \<or>
      w = (close_clients v)\<lparr>acceptor := AcceptEnded\<rparr> \<and> acceptor v = Accepting"
  shows "life_inv w"
  unfolding life_inv_def
proof (intro allI impI)
  fix k assume "k < made w"
  then have ok: "life_ok v k" using inv w by (auto simp: life_inv_def)
  have f: "sessions w = Map.empty" "pumps w = pumps v" "seen w = seen v" "uuid (objects w k) = uuid (objects v k)"
    "closed (objects w k) = closed (objects v k)" "half_close_recv (objects w k) = half_close_recv (objects v k)"
    "half_close_send (objects w k) = half_close_send (objects v k)"
    "is_open (client (objects w k)) \<longleftrightarrow> is_open (client (objects v k)) \<and> \<not> registered v k"
    "gave_up w k = gave_up v k" and ends: "reader w = ReaderEnded \<or> acceptor w = AcceptEnded"
    and r: "reader w = ReaderClosing u k \<Longrightarrow> reader v = ReaderClosing u k" for u
    using w by (auto simp: gave_up_def)
  have held: "held v k \<longrightarrow> registered v k \<or> held w k" using w by (auto simp: held_simps f)
  show "life_ok w k" using ok ends r held unfolding life_ok_def f by (simp only: option.distinct simp_thms) blast
qed

lemma reader_frame_life:
  assumes refs: "refs_inv v" and r: "reader v = ReaderReading" and inv: "life_inv v"
  shows "life_inv (reader_frame (v\<lparr>seen := seen v @ [f]\<rparr>) f)"
proof -
  let ?v = "v\<lparr>seen := seen v @ [f]\<rparr>"
  have seen: "life_ok ?v k" if "life_ok v k" for k
    by (rule life_mono [OF that]) (use r in \<open>auto simp: held_simps twin_def\<close>)
  then have inv': "life_inv ?v" using inv by (simp add: life_inv_def)
  have refs': "refs_inv ?v" by (rule refs_mono [OF refs]) auto
  show ?thesis
  proof (cases "sessions v (string_of_bytes (take UUID_BYTES (frame_body f)))")
    case None
    then show ?thesis
      using inv' life_clear [OF inv' disjI1, of "reader_end ?v"] by (simp add: reader_frame_def reader_end_def Let_def)
  next
    case (Some k)
    let ?u = "string_of_bytes (take UUID_BYTES (frame_body f))"
    have k: "k < made v" "uuid (objects v k) = ?u" using refs_session [OF refs Some] by blast+
    have okk: "life_ok ?v k" using inv' k by (simp add: life_inv_def)
    have others: "\<forall>j<made v. j \<noteq> k \<longrightarrow> life_ok (upd_client ?v k g) j" if "uuid (g (objects v k)) = uuid (objects v k)" for g
      using life_one [OF inv', of "upd_client ?v k g" k] that r by (simp add: upd_client_def)
    have cleared: "life_inv (reader_end ?v)" using life_clear [OF inv' disjI1, of "reader_end ?v"] by (simp add: reader_end_def)
    note close = life_close [OF refs', of ?u k]
    have told: "life_inv (erase (upd_client ?v k (\<lambda>s. close_client (s\<lparr>closed := True\<rparr>))) ?u)"
      if "frame_method f \<in> {SESSION_ERR, SESSION_CLOSE}" "\<not> length (frame_body f) < UUID_BYTES"
    proof (rule close)
      show "half_close_recv (close_client (objects ?v k\<lparr>closed := True\<rparr>)) \<and> half_close_send (objects ?v k) \<or>
          told_to_close (uuid (objects ?v k)) (seen ?v) \<or> gave_up ?v k"
        using that k by (auto simp: told_to_close_def)
    qed (use Some inv' r in auto)
    have eof: "life_inv (erase (upd_client (upd_client ?v k (\<lambda>s. s\<lparr>half_close_recv := True, client := sock_shutdown_send (client s)\<rparr>)) k
        (\<lambda>s. s\<lparr>closed := True\<rparr>)) ?u)" if "half_close_send (objects v k)"
    proof -
      have "upd_client (upd_client ?v k (\<lambda>s. s\<lparr>half_close_recv := True, client := sock_shutdown_send (client s)\<rparr>)) k (\<lambda>s. s\<lparr>closed := True\<rparr>) =
        upd_client ?v k (\<lambda>s. s\<lparr>half_close_recv := True, client := sock_shutdown_send (client s), closed := True\<rparr>)"
        by (simp add: upd_client_def)
      moreover have "life_inv (erase (upd_client ?v k
          (\<lambda>s. s\<lparr>half_close_recv := True, client := sock_shutdown_send (client s), closed := True\<rparr>)) ?u)"
        by (rule close) (use Some inv' r that in auto)
      ultimately show ?thesis by simp
    qed
    have half: "life_inv (upd_client ?v k (\<lambda>s. s\<lparr>half_close_recv := True, client := sock_shutdown_send (client s)\<rparr>))"
      if "\<not> half_close_send (objects v k)"
      by (rule life_upd [OF inv']) (use that r in \<open>auto simp: sock_defs\<close>)
    have writes: "life_inv (?v\<lparr>reader := ReaderWriting ?u k x\<rparr>)" for x
    proof -
      have "life_ok (?v\<lparr>reader := ReaderWriting ?u k x\<rparr>) j" if "life_ok ?v j" for j
        by (rule life_mono [OF that]) (use r in \<open>auto simp: held_simps twin_def\<close>)
      with inv' show ?thesis by (simp add: life_inv_def)
    qed
    have h: "half_close_send (objects (upd_client ?v k (\<lambda>s. s\<lparr>half_close_recv := True, client := sock_shutdown_send (client s)\<rparr>)) k) =
        half_close_send (objects v k)" by (simp add: upd_client_def)
    have ne: "DATA_EOF \<noteq> SESSION_CLOSE" "DATA_EOF \<noteq> SESSION_ERR" by (simp_all add: method_defs)
    show ?thesis
      using Some inv' cleared told eof half writes ne by (auto simp: reader_frame_def Let_def h)
  qed
qed

lemma closing_gave_up: "refs_inv v \<Longrightarrow> life_inv v \<Longrightarrow> reader v = ReaderClosing u k \<Longrightarrow> gave_up v k"
  by (auto simp: life_inv_def life_ok_def refs_inv_def)

lemma reader_gets_life:
  assumes refs: "refs_inv v" and r: "reader v = ReaderReading" and inv: "life_inv v"
  shows "life_inv (reader_gets v x)"
  using reader_frame_life [OF assms] life_clear [OF inv disjI1, of "reader_end v"] inv
  by (cases x) (simp_all add: reader_gets_def reader_end_def)

lemma reader_closed_life:
  assumes refs: "refs_inv v" and inv: "life_inv v"
  shows "life_inv (reader_closed v)"
proof (cases "reader v")
  case (ReaderClosing u k)
  have gave: "gave_up v k" using closing_gave_up [OF refs inv ReaderClosing] .
  have same: "life_ok (v\<lparr>reader := ReaderReading\<rparr>) j" "life_ok (v\<lparr>dangling := True, reader := ReaderEnded\<rparr>) j"
    if "life_ok v j" for j
    by (rule life_mono [OF that]; use ReaderClosing in \<open>auto simp: held_simps twin_def\<close>)+
  show ?thesis
  proof (cases "sessions v u = Some k")
    case True
    let ?v = "v\<lparr>reader := ReaderReading\<rparr>"
    have "life_inv ?v" using inv same by (simp add: life_inv_def)
    moreover have "refs_inv ?v" by (rule refs_mono [OF refs]) auto
    moreover have "gave_up ?v k" using gave by (simp add: gave_up_def)
    ultimately have "life_inv (erase (upd_client ?v k (\<lambda>s. close_client (s\<lparr>closed := True\<rparr>))) u)"
      using True by (intro life_close) auto
    with True ReaderClosing show ?thesis by (simp add: reader_closed_def)
  next
    case False
    with inv same ReaderClosing show ?thesis by (simp add: reader_closed_def life_inv_def)
  qed
qed (use inv in \<open>simp_all add: reader_closed_def\<close>)

lemma wrote_open [simp]: "is_open (wrote r x k) = is_open k"
  by (simp add: wrote_def sock_defs split: write_result.split)

lemma reader_wrote_life:
  assumes refs: "refs_inv v" and inv: "life_inv v"
  shows "life_inv (reader_wrote v r)"
proof (cases "reader v")
  case (ReaderWriting u k x)
  let ?v = "upd_client v k (\<lambda>s. s\<lparr>client := wrote r x (client s)\<rparr>)"
  have k: "k < made v" "uuid (objects v k) = u" using refs ReaderWriting by (auto simp: refs_inv_def)
  have ok: "life_ok v k" using inv k(1) by (simp add: life_inv_def)
  have v: "life_inv ?v"
    by (rule life_upd [OF inv]) (use ReaderWriting ok in \<open>auto simp: life_ok_def\<close>)
  have "life_ok (?v\<lparr>reader := ReaderReading\<rparr>) j" if "life_ok ?v j" for j
    by (rule life_mono [OF that]) (use ReaderWriting in \<open>auto simp: held_simps twin_def upd_client_def\<close>)
  moreover have "life_ok ((send_frame ?v k SESSION_CLOSE (build_uuid_body u))\<lparr>reader := ReaderClosing u k\<rparr>) j" if "life_ok ?v j" for j
    by (rule life_mono [OF that])
      (use ReaderWriting k in \<open>auto simp: held_simps twin_def upd_client_def send_frame_def gave_up_def\<close>)
  ultimately show ?thesis
    using v ReaderWriting by (cases r) (simp_all add: reader_wrote_def Let_def life_inv_def send_frame_def)
qed (use inv in \<open>simp_all add: reader_wrote_def\<close>)

lemma accept_failed_life:
  "life_inv v \<Longrightarrow> acceptor v = Accepting \<Longrightarrow> life_inv (accept_failed v)"
  using life_clear [OF _ disjI2, of v "accept_failed v"] by (simp add: accept_failed_def)

lemma client_announced_life:
  assumes refs: "refs_inv v" and inv: "life_inv v" and k: "acceptor v = Announcing k"
  shows "life_inv (client_announced v k)"
  unfolding life_inv_def
proof (intro allI impI)
  let ?w = "client_announced v k"
  fix j assume "j < made ?w"
  then have ok: "life_ok v j" using inv by (simp add: life_inv_def client_announced_def set_client_pc_def)
  show "life_ok ?w j"
  proof (cases "j = k")
    case True
    have "pumps v k = NoPump" using refs k by (simp add: refs_inv_def)
    with ok True k show ?thesis
      by (auto simp: life_ok_def held_simps client_announced_def set_client_pc_def gave_up_def twin_def)
  next
    case False
    with k closing_gave_up [OF refs inv] show ?thesis
      by (intro life_mono [OF ok]) (auto simp: held_simps client_announced_def set_client_pc_def gave_up_def twin_def)
  qed
qed

lemma client_accepted_objects:
  assumes "generate_uuid (rng v) = (u, g)"
  shows "k \<noteq> made v \<Longrightarrow> sessions v u \<noteq> Some k \<Longrightarrow> objects (client_accepted v) k = objects v k"
    "is_open (client (objects (client_accepted v) (made v))) \<or> sessions v u = Some (made v)"
    "k \<noteq> made v \<Longrightarrow> sessions v u = Some k \<Longrightarrow> acceptor v = Accepting \<Longrightarrow> uuid (objects v k) = u \<Longrightarrow>
      is_open (client (objects (client_accepted v) k)) \<longleftrightarrow> is_open (client (objects v k)) \<and> pumps v k \<notin> {NoPump, PumpEnded}"
  using assms by (auto simp: client_accepted_def Let_def send_frame_def new_client_def fresh_sock_def release_def upd_client_def
      close_client_def sock_defs held_simps split: option.splits)

lemma client_accepted_life:
  assumes refs: "refs_inv v" and inv: "life_inv v" and a: "acceptor v = Accepting"
  shows "life_inv (client_accepted v)"
  unfolding life_inv_def
proof (intro allI impI)
  let ?w = "client_accepted v"
  obtain u g where g: "generate_uuid (rng v) = (u, g)" by (rule prod.exhaust)
  note w = client_accepted_simps [OF g] and ob = client_accepted_objects [OF g]
  fix k assume k: "k < made ?w"
  have gave: "gave_up ?w j" if "reader v = ReaderClosing x j" for x j
  proof -
    have "j < made v" using refs that by (auto simp: refs_inv_def)
    with closing_gave_up [OF refs inv that] show ?thesis by (simp add: gave_up_def w)
  qed
  show "life_ok ?w k"
  proof (cases "k = made v")
    case True
    have fresh: "sessions v u \<noteq> Some (made v)" "pumps v (made v) = NoPump" using refs by (auto simp: refs_inv_def)
    with ob(2) have "is_open (client (objects ?w (made v)))" by simp
    moreover have "reader v \<noteq> ReaderClosing x (made v)" for x using refs by (auto simp: refs_inv_def)
    ultimately show ?thesis using True fresh by (simp add: life_ok_def w held_simps)
  next
    case False
    with k have made: "k < made v" by (simp add: w)
    then have ok: "life_ok v k" using inv by (simp add: life_inv_def)
    show ?thesis
    proof (cases "sessions v u = Some k")
      case True
      with refs_session [OF refs] have u: "uuid (objects v k) = u" by blast
      have "twin ?w k" unfolding twin_def using False u by (intro exI [of _ "made v"]) (simp add: w)
      moreover have "gave_up ?w k = gave_up v k" using False by (simp add: gave_up_def w mk_frame_def method_defs)
      ultimately show ?thesis
        using ok u ob(3) [OF False True a u] False by (auto simp: life_ok_def w held_simps)
    next
      case other: False
      note same = ob(1) [OF False other]
      have "twin v k \<longrightarrow> twin ?w k"
        unfolding twin_def w using made by (metis less_SucI less_irrefl)
      then show ?thesis
        by (intro life_mono [OF ok same]) (use False other a gave in \<open>auto simp: same w held_simps\<close>)
    qed
  qed
qed

lemma pump_finish_open:
  "is_open (client (objects (pump_finish v k) j)) \<longleftrightarrow> is_open (client (objects v j)) \<and>
    (j = k \<or> closed (objects v k) \<and> sessions v (uuid (objects v k)) = Some j \<longrightarrow> held (pump_finish v k) j)"
  by (auto simp: pump_finish_def Let_def set_client_pc_def held_simps)

lemma pump_finish_objects:
  "j \<noteq> k \<Longrightarrow> \<not> (closed (objects v k) \<and> sessions v (uuid (objects v k)) = Some j) \<Longrightarrow>
    objects (pump_finish v k) j = objects v j"
  by (auto simp: pump_finish_def Let_def set_client_pc_def release_def erase_def upd_client_def split: option.split)

lemma life_finish:
  assumes refs: "refs_inv v" and others: "\<forall>j<made v. j \<noteq> k \<longrightarrow> life_ok v j" and k: "pumps v k \<noteq> NoPump"
    and gave: "\<And>u j. reader v = ReaderClosing u j \<Longrightarrow> gave_up v j"
    and open_k: "registered v k \<and> \<not> closed (objects v k) \<longrightarrow> is_open (client (objects v k)) \<and>
        \<not> (half_close_recv (objects v k) \<and> half_close_send (objects v k))"
      "closed (objects v k) \<longrightarrow> half_close_recv (objects v k) \<and> half_close_send (objects v k) \<or>
        told_to_close (uuid (objects v k)) (seen v) \<or> gave_up v k"
      "\<not> registered v k \<longrightarrow> closed (objects v k) \<or> reader v = ReaderEnded \<or> acceptor v = AcceptEnded \<or> twin v k"
  shows "life_inv (pump_finish v k)"
  unfolding life_inv_def
proof (intro allI impI)
  let ?w = "pump_finish v k"
  fix j assume "j < made ?w"
  then have j: "j < made v" by simp
  have gu: "gave_up ?w i = gave_up v i" "twin ?w i = twin v i" for i by (simp_all add: gave_up_def twin_def)
  have made: "k < made v" "acceptor v \<noteq> Announcing k" using refs k by (auto simp: refs_inv_def)
  show "life_ok ?w j"
  proof (cases "j = k")
    case True
    show ?thesis
      unfolding life_ok_def gu pump_finish_open True using open_k gave made by (auto simp: held_simps)
  next
    case False
    then have ok: "life_ok v j" using others j by blast
    show ?thesis
    proof (cases "closed (objects v k) \<and> sessions v (uuid (objects v k)) = Some j")
      case True
      then have u: "uuid (objects v j) = uuid (objects v k)" using refs_session [OF refs] by blast
      then have "twin v j" using False made unfolding twin_def by metis
      moreover have reg: "\<not> registered ?w j" using u True by simp
      moreover have "is_open (client (objects ?w j)) \<longrightarrow> is_open (client (objects v j)) \<and> held ?w j"
        using pump_finish_open [of v k j] True by blast
      moreover have "pumps ?w j = pumps v j" using False by simp
      ultimately show ?thesis
        using ok gave unfolding life_ok_def gu by (simp only: pump_finish_simps) blast
    next
      case other: False
      note same = pump_finish_objects [OF False other]
      have "uuid (objects v j) = uuid (objects v k) \<and> closed (objects v k) \<longrightarrow> \<not> registered v j" using other by auto
      then have reg: "registered ?w j = registered v j" by auto
      show ?thesis
        by (rule life_mono [OF ok same reg]) (use False gave other in \<open>auto simp: held_simps gu\<close>)
    qed
  qed
qed

lemma pump_loop_life:
  assumes refs: "refs_inv v" and inv: "life_inv v" and k: "pumps v k \<in> {PumpSpawned, PumpSentData}"
  shows "life_inv (pump_loop v k)"
proof -
  have made: "k < made v" using refs k by (auto simp: refs_inv_def)
  then have ok: "life_ok v k" using inv by (simp add: life_inv_def)
  note gave = closing_gave_up [OF refs inv]
  show ?thesis
  proof (cases "closed (objects v k)")
    case True
    have "life_inv (pump_finish v k)"
    proof (rule life_finish [OF refs])
      show "\<forall>j<made v. j \<noteq> k \<longrightarrow> life_ok v j" using inv by (simp add: life_inv_def)
      show "closed (objects v k) \<longrightarrow> half_close_recv (objects v k) \<and> half_close_send (objects v k) \<or>
          told_to_close (uuid (objects v k)) (seen v) \<or> gave_up v k"
        using ok unfolding life_ok_def by blast
    qed (use k gave True in auto)
    with True show ?thesis by (simp add: pump_loop_def)
  next
    case False
    let ?w = "set_client_pc v k PumpReading"
    have w: "made ?w = made v" "sessions ?w = sessions v" "reader ?w = reader v" "acceptor ?w = acceptor v" "seen ?w = seen v"
      "sent ?w = sent v" "objects ?w = objects v" "pumps ?w = (pumps v)(k := PumpReading)" by (simp_all add: set_client_pc_def)
    have gu: "gave_up ?w j = gave_up v j" "twin ?w j = twin v j" for j by (simp_all add: gave_up_def twin_def w)
    have others: "\<forall>j<made ?w. j \<noteq> k \<longrightarrow> life_ok ?w j"
      by (rule life_one [OF inv]) (use w gave gu in auto)
    have "held ?w k" "held v k" using k w(8) by (auto simp: held_simps)
    then have "life_ok ?w k"
      using ok k False unfolding life_ok_def w gu by auto
    with others False show ?thesis by (auto simp: pump_loop_def life_inv_def)
  qed
qed

lemma pump_read_life:
  assumes refs: "refs_inv v" and inv: "life_inv v" and k: "pumps v k = PumpReading" and x: "ec = ReadFine \<longleftrightarrow> x \<noteq> []"
  shows "life_inv (pump_read v k ec x)" (is "life_inv ?w")
proof -
  have made: "k < made v" using refs k by (auto simp: refs_inv_def)
  then have ok: "life_ok v k" using inv by (simp add: life_inv_def)
  note gave = closing_gave_up [OF refs inv]
  have w: "made ?w = made v" "sessions ?w = sessions v" "reader ?w = reader v" "acceptor ?w = acceptor v" "seen ?w = seen v"
    "set (sent v) \<subseteq> set (sent ?w)" "j \<noteq> k \<Longrightarrow> objects ?w j = objects v j" "j \<noteq> k \<Longrightarrow> pumps ?w j = pumps v j"
    "uuid (objects ?w j) = uuid (objects v j)" for j
    by (auto simp: pump_read_def Let_def client_ops)
  have "gave_up ?w j" if "reader v = ReaderClosing u j" for u j
    using gave [OF that] w(6) by (auto simp: gave_up_def w(9))
  then have others: "\<forall>j<made ?w. j \<noteq> k \<longrightarrow> life_ok ?w j"
    by (intro life_one [OF inv]) (use w in auto)
  have kk: "pumps ?w k = (if ec = ReadFine then PumpSentData else PumpSentEof)"
    "half_close_send (objects ?w k) \<longleftrightarrow> half_close_send (objects v k) \<or> ec \<noteq> ReadFine"
    "half_close_recv (objects ?w k) = half_close_recv (objects v k)" "closed (objects ?w k) = closed (objects v k)"
    "is_open (client (objects ?w k)) = is_open (client (objects v k))"
    using x by (auto simp: pump_read_def Let_def client_ops)
  have gu: "gave_up v k \<longrightarrow> gave_up ?w k" "twin ?w k = twin v k"
    using w(6) by (auto simp: gave_up_def twin_def w(1,9))
  have "held ?w k" "held v k" using k kk(1) by (auto simp: held_simps)
  then have "life_ok ?w k"
    using ok gu k unfolding life_ok_def w(2-5,9) kk by (cases "ec = ReadFine") auto
  with others show ?thesis by (auto simp: life_inv_def)
qed

lemma pump_sent_life:
  assumes refs: "refs_inv v" and inv: "life_inv v" and k: "pumps v k \<in> {PumpSentEof, PumpSentClose, PumpSentData}"
  shows "life_inv (pump_sent v k)"
proof (cases "pumps v k = PumpSentData")
  case True
  with pump_loop_life [OF refs inv] show ?thesis by (simp add: pump_sent_def)
next
  case False
  have made: "k < made v" using refs k by (auto simp: refs_inv_def)
  then have ok: "life_ok v k" using inv by (simp add: life_inv_def)
  with False k have pc: "pumps v k = PumpSentEof" "half_close_send (objects v k)" by (auto simp: life_ok_def)
  note gave = closing_gave_up [OF refs inv]
  let ?v = "if half_close_recv (objects v k) then upd_client v k (\<lambda>s. s\<lparr>closed := True\<rparr>) else v"
  have v: "made ?v = made v" "sessions ?v = sessions v" "reader ?v = reader v" "acceptor ?v = acceptor v" "seen ?v = seen v"
    "sent ?v = sent v" "pumps ?v = pumps v" "j \<noteq> k \<Longrightarrow> objects ?v j = objects v j" "uuid (objects ?v j) = uuid (objects v j)" for j
    by (simp_all add: upd_client_def)
  have gu: "gave_up ?v j = gave_up v j" "twin ?v j = twin v j" for j by (simp_all add: gave_up_def twin_def v)
  have kk: "half_close_recv (objects ?v k) = half_close_recv (objects v k)" "half_close_send (objects ?v k) = half_close_send (objects v k)"
    "closed (objects ?v k) \<longleftrightarrow> closed (objects v k) \<or> half_close_recv (objects v k)"
    "is_open (client (objects ?v k)) = is_open (client (objects v k))"
    by (simp_all add: upd_client_def)
  have "life_inv (pump_finish ?v k)"
  proof (rule life_finish)
    show "refs_inv ?v" by (rule refs_mono [OF refs]) (simp_all add: v)
    show "\<forall>j<made ?v. j \<noteq> k \<longrightarrow> life_ok ?v j"
      by (rule life_one [OF inv]) (use v gave gu in auto)
    show "registered ?v k \<and> \<not> closed (objects ?v k) \<longrightarrow>
        is_open (client (objects ?v k)) \<and> \<not> (half_close_recv (objects ?v k) \<and> half_close_send (objects ?v k))"
      using ok unfolding kk v(2,9) life_ok_def by blast
    show "closed (objects ?v k) \<longrightarrow> half_close_recv (objects ?v k) \<and> half_close_send (objects ?v k) \<or>
        told_to_close (uuid (objects ?v k)) (seen ?v) \<or> gave_up ?v k"
      using ok pc(2) unfolding kk v gu life_ok_def by blast
    show "\<not> registered ?v k \<longrightarrow> closed (objects ?v k) \<or> reader ?v = ReaderEnded \<or> acceptor ?v = AcceptEnded \<or> twin ?v k"
      using ok unfolding kk v gu life_ok_def by blast
  qed (use pc gave v gu in auto)
  then show ?thesis by (simp add: pump_sent_def pc)
qed

lemmas life_steps = reader_gets_life reader_wrote_life reader_closed_life accept_failed_life client_accepted_life
  client_announced_life pump_loop_life pump_sent_life

lemma visitor_step_life: "visitor_step v w \<Longrightarrow> refs_inv v \<and> life_inv v \<Longrightarrow> refs_inv w \<and> life_inv w"
proof (intro conjI)
  assume s: "visitor_step v w" and inv: "refs_inv v \<and> life_inv v"
  show "refs_inv w" using visitor_step_refs [OF s] inv by blast
  from s obtain e where "visitor_move v e = Some w" by (auto elim: visitor_stepE)
  with inv show "life_inv w"
    by (cases e) (auto simp: visitor_move_def read_delivers_def split: if_splits reader_pc.splits accept_pc.splits
      intro: life_steps pump_read_life)
qed

interpretation visitor_life: kept_invariant visitor_step "\<lambda>v. refs_inv v \<and> life_inv v"
  by unfold_locales (rule visitor_step_life)

lemma life_start: "life_inv (visitor_start g)"
  by (simp add: life_inv_def visitor_start_def)

end
