(* ===== verification/Relay_Visitor_Claims.thy ===== *)
theory Relay_Visitor_Claims
  imports Relay_Life
begin

section \<open>What the visitor promises\<close>

text \<open>The properties of role B, from the invariants, and a run with one client.\<close>

definition visitor_run :: "mt19937_64 \<Rightarrow> visitor \<Rightarrow> bool" where
  "visitor_run g v \<longleftrightarrow> reach visitor_step (visitor_start g) v"

lemma visitor_run_inv:
  assumes "visitor_run g v"
  shows "refs_inv v" "upstream_inv v" "downstream_inv v" "life_inv v"
proof -
  have r: "reach visitor_step (visitor_start g) v" using assms by (simp add: visitor_run_def)
  show "refs_inv v" by (rule visitor_refs.reach_ok [OF r refs_start])
  show "upstream_inv v" using visitor_upstream.reach_ok [OF r] refs_start upstream_start by blast
  show "downstream_inv v" using visitor_downstream.reach_ok [OF r] refs_start downstream_start by blast
  show "life_inv v" using visitor_life.reach_ok [OF r] refs_start life_start by blast
qed

subsection \<open>A run with one client\<close>

definition one_client :: "mt19937_64 \<Rightarrow> visitor" where
  "one_client g = pump_loop (client_announced (client_accepted (visitor_start g)) 0) 0"

definition client_uuid :: "mt19937_64 \<Rightarrow> string" where
  "client_uuid g = fst (generate_uuid g)"

lemma one_client_run: "visitor_run g (one_client g)"
proof -
  have "play visitor_move (visitor_start g) [ClientAccepted, ClientAnnounced, PumpStarts 0] = Some (one_client g)"
    by (auto simp: one_client_def visitor_move_def visitor_start_def client_accepted_def client_announced_def Let_def
        send_frame_def set_client_pc_def pump_loop_def new_client_def split: prod.split)
  then show ?thesis unfolding visitor_run_def by (rule visitor.play_from_start)
qed

lemma one_client_state:
  "one_client g = \<lparr>rng = snd (generate_uuid g), made = 1, objects = (\<lambda>_. new_client [])(0 := new_client (client_uuid g)),
     sessions = [client_uuid g \<mapsto> 0], reader = ReaderReading, acceptor = Accepting, pumps = (\<lambda>_. NoPump)(0 := PumpReading),
     sent = [(0, mk_frame NEW_SESSION (build_uuid_body (client_uuid g)))], seen = [], since = (\<lambda>_. 0)(0 := 0),
     taken = \<lambda>_. [], dangling = False\<rparr>"
  by (auto simp: one_client_def client_uuid_def visitor_start_def client_accepted_def client_announced_def Let_def
      send_frame_def set_client_pc_def pump_loop_def new_client_def fun_eq_iff split: prod.split)

lemma client_uuid_length: "length (client_uuid g) = UUID_BYTES"
  using generate_uuid_shape(1) [of g] by (cases "generate_uuid g") (auto simp: client_uuid_def)

lemma visitor_plays:
  "visitor_run g v \<Longrightarrow> play visitor_move v es = Some w \<Longrightarrow> visitor_run g w"
  unfolding visitor_run_def by (rule visitor.play_reach)

definition data_frame :: "mt19937_64 \<Rightarrow> ByteVector \<Rightarrow> frame_read" where
  "data_frame g x = GotFrame (mk_frame DATA (build_uuid_data_body (client_uuid g) x)) []"

lemma data_frame_fields:
  "string_of_bytes (take UUID_BYTES (build_uuid_data_body (client_uuid g) x)) = client_uuid g"
  "drop UUID_BYTES (build_uuid_data_body (client_uuid g) x) = x"
  "length (build_uuid_data_body (client_uuid g) x) = UUID_BYTES + length x"
proof -
  have b: "build_uuid_data_body (client_uuid g) x = bytes_of_string (client_uuid g) @ x"
    by (simp add: build_uuid_data_body_def Let_def)
  moreover have "length (bytes_of_string (client_uuid g)) = UUID_BYTES" by (simp add: bytes_of_string_def client_uuid_length)
  ultimately show "string_of_bytes (take UUID_BYTES (build_uuid_data_body (client_uuid g) x)) = client_uuid g"
    "drop UUID_BYTES (build_uuid_data_body (client_uuid g) x) = x"
    "length (build_uuid_data_body (client_uuid g) x) = UUID_BYTES + length x" by simp_all
qed

text \<open>The server's DATA is being written to the client.\<close>

definition client_writing :: "mt19937_64 \<Rightarrow> ByteVector \<Rightarrow> visitor" where
  "client_writing g x = (one_client g)\<lparr>seen := [mk_frame DATA (build_uuid_data_body (client_uuid g) x)],
     reader := ReaderWriting (client_uuid g) 0 x\<rparr>"

lemma client_writing_move:
  assumes "x \<noteq> []"
  shows "visitor_move (one_client g) (ReaderGets (data_frame g x)) = Some (client_writing g x)"
  using assms by (simp add: visitor_move_def one_client_state data_frame_def reader_gets_def reader_frame_def Let_def
      mk_frame_def data_frame_fields client_writing_def method_defs)

lemma client_writing_run: "x \<noteq> [] \<Longrightarrow> visitor_run g (client_writing g x)"
  by (rule visitor_plays [OF one_client_run, of _ "[ReaderGets (data_frame g x)]"]) (simp add: client_writing_move)

text \<open>It has been written, and the next frame is awaited.\<close>

definition client_served :: "mt19937_64 \<Rightarrow> ByteVector \<Rightarrow> visitor" where
  "client_served g x = reader_wrote (client_writing g x) WriteOk"

lemma client_served_run: "x \<noteq> [] \<Longrightarrow> visitor_run g (client_served g x)"
  by (rule visitor_plays [OF client_writing_run, of x _ "[ReaderWrote WriteOk]"])
    (simp_all add: visitor_move_def client_writing_def one_client_state client_served_def unusable_def new_client_def fresh_sock_def)

lemma client_served_state:
  "made (client_served g x) = 1" "reader (client_served g x) = ReaderReading" "sessions (client_served g x) (client_uuid g) = Some 0"
  "written (client (objects (client_served g x) 0)) = x" "uuid (objects (client_served g x) 0) = client_uuid g"
  "pumps (client_served g x) 0 = PumpReading" "since (client_served g x) 0 = 0"
  "seen (client_served g x) = [mk_frame DATA (build_uuid_data_body (client_uuid g) x)]"
  "is_open (client (objects (client_served g x) 0))" "acceptor (client_served g x) = Accepting"
  "taken (client_served g x) 0 = []" "dangling (client_served g x) = False"
  by (simp_all add: client_served_def reader_wrote_def client_writing_def one_client_state Let_def upd_client_def
      new_client_def wrote_def fresh_sock_def sock_defs)

subsection \<open>Properties\<close>

text \<open>
  Property C24. The visitor delivers to each client its own stream. In every run, what has been
  written to a client is, from the beginning, the data of the DATA frames that the
  server sent for the client's uuid since it was accepted, in order; and whenever
  the reader waits for a frame, a client that is still on the map has been written all of it.
\<close>

theorem visitor_delivers_streams:
  assumes "visitor_run g v" "k < made v"
  shows "prefix (written (client (objects v k))) (data_for (uuid (objects v k)) (drop (since v k) (seen v))) \<and>
    (sessions v (uuid (objects v k)) = Some k \<and> reader v = ReaderReading \<longrightarrow>
      written (client (objects v k)) = data_for (uuid (objects v k)) (drop (since v k) (seen v)))"
proof -
  from downstream_written [OF visitor_run_inv(3) [OF assms(1)] assms(2)] show ?thesis by (auto simp: arrived_def)
qed

theorem visitor_delivers_streams_witness:
  "\<exists>v. visitor_run (mt_seed 5) v \<and> made v = 1 \<and> written (client (objects v 0)) = [1, 2] \<and>
    data_for (uuid (objects v 0)) (seen v) = [1, 2]"
proof -
  have run: "visitor_run (mt_seed 5) (client_served (mt_seed 5) [1, 2])" by (rule client_served_run) simp
  from visitor_delivers_streams [OF run, of 0] show ?thesis
    by (intro exI [of _ "client_served (mt_seed 5) [1, 2]"]) (auto simp: run client_served_state)
qed

text \<open>
  Property C25. The visitor sends each client's stream under its uuid. What is handed to the server's
  connection for a client is, in order, NEW_SESSION and then only DATA, DATA_EOF and
  SESSION_CLOSE frames whose first 36 bytes are the uuid; the data of the DATA frames is
  exactly what has been read from the client; and no DATA follows a DATA_EOF.
\<close>

theorem visitor_sends_streams:
  assumes "visitor_run g v" "k < made v"
  shows "\<exists>fs. sent_by v k = mk_frame NEW_SESSION (build_uuid_body (uuid (objects v k))) # fs \<and>
    (\<forall>f\<in>set fs. frame_method f \<in> {DATA, DATA_EOF, SESSION_CLOSE} \<and>
      take UUID_BYTES (frame_body f) = build_uuid_body (uuid (objects v k))) \<and>
    payload fs = taken v k \<and> data_before_eof fs \<and> length (uuid (objects v k)) = UUID_BYTES"
proof -
  have up: "upstream_client v k" using visitor_run_inv(2) [OF assms(1)] by (simp add: upstream_inv_def)
  then have len: "length (uuid (objects v k)) = UUID_BYTES" using assms(2) by (simp add: upstream_client_def)
  from up assms(2) obtain fs where "sent_by v k = mk_frame NEW_SESSION (build_uuid_body (uuid (objects v k))) # fs"
    "stream_ok (uuid (objects v k)) (taken v k) (eof_sent (pumps v k)) fs"
    by (auto simp: upstream_client_def upstream_ok_def)
  then show ?thesis using len unfolding stream_ok_def about_def
    by (intro exI [of _ fs]) (auto simp: prefix_def)
qed

theorem visitor_sends_streams_witness:
  "\<exists>v fs. visitor_run (mt_seed 5) v \<and> sent_by v 0 = mk_frame NEW_SESSION (build_uuid_body (client_uuid (mt_seed 5))) # fs \<and>
    payload fs = [7, 8] \<and> taken v 0 = [7, 8]"
proof -
  let ?v = "pump_read (one_client (mt_seed 5)) 0 ReadFine [7, 8]"
  have "play visitor_move (one_client (mt_seed 5)) [PumpReads 0 ReadFine [7, 8]] = Some ?v"
    by (simp add: visitor_move_def one_client_state read_delivers_def new_client_def fresh_sock_def)
  from visitor_plays [OF one_client_run this] have run: "visitor_run (mt_seed 5) ?v" .
  moreover have "made ?v = 1" "uuid (objects ?v 0) = client_uuid (mt_seed 5)" "taken ?v 0 = [7, 8]"
    by (simp_all add: pump_read_def Let_def client_ops one_client_state new_client_def)
  ultimately show ?thesis using visitor_sends_streams [OF run, of 0] by auto
qed

text \<open>
  Property C26. A session lives until both directions have ended. While a client is on the map its
  socket is open, and it has had both ends of stream only while its pump is completing its last write. A session is
  closed only after both ends of stream, a SESSION_ERR or SESSION_CLOSE for its uuid, or a
  failed write that was answered with SESSION_CLOSE; a client leaves the map only when
  closed, when one of the two loops has ended, or to another client of the same uuid; once
  it is off the map and its pump has ended, its socket is closed. No pump ever
  reports a failed read with SESSION_CLOSE: it comes as DATA_EOF.
\<close>

theorem visitor_session_life:
  assumes "visitor_run g v" "k < made v"
  shows "(sessions v (uuid (objects v k)) = Some k \<longrightarrow>
      \<not> closed (objects v k) \<and> is_open (client (objects v k)) \<and>
      (half_close_recv (objects v k) \<and> half_close_send (objects v k) \<longrightarrow> pumps v k = PumpSentEof)) \<and>
    (closed (objects v k) \<longrightarrow> half_close_recv (objects v k) \<and> half_close_send (objects v k) \<or>
      told_to_close (uuid (objects v k)) (seen v) \<or> gave_up v k) \<and>
    (sessions v (uuid (objects v k)) \<noteq> Some k \<longrightarrow>
      closed (objects v k) \<or> reader v = ReaderEnded \<or> acceptor v = AcceptEnded \<or> twin v k) \<and>
    (sessions v (uuid (objects v k)) \<noteq> Some k \<and> pumps v k = PumpEnded \<longrightarrow> \<not> is_open (client (objects v k))) \<and>
    pumps v k \<noteq> PumpSentClose"
proof -
  have ok: "life_ok v k" using visitor_run_inv(4) [OF assms(1)] assms(2) by (simp add: life_inv_def)
  have "\<not> held v k" if "sessions v (uuid (objects v k)) \<noteq> Some k" "pumps v k = PumpEnded"
    using visitor_run_inv(1) [OF assms(1)] that by (auto simp: held_simps refs_inv_def)
  with ok show ?thesis unfolding life_ok_def by blast
qed

theorem visitor_session_life_witness:
  "\<exists>v. visitor_run (mt_seed 5) v \<and> half_close_send (objects v 0) \<and> \<not> closed (objects v 0) \<and>
    is_open (client (objects v 0)) \<and> \<not> half_close_recv (objects v 0)"
proof -
  let ?g = "mt_seed 5"
  let ?v = "pump_sent (pump_read (one_client ?g) 0 ReadIsEof []) 0"
  have "play visitor_move (one_client ?g) [PumpReads 0 ReadIsEof [], PumpSent 0] = Some ?v"
    by (simp add: visitor_move_def one_client_state read_delivers_def new_client_def fresh_sock_def pump_read_def client_ops Let_def)
  from visitor_plays [OF one_client_run this] have run: "visitor_run ?g ?v" .
  have v: "made ?v = 1" "sessions ?v (uuid (objects ?v 0)) = Some 0" "half_close_send (objects ?v 0)" "\<not> half_close_recv (objects ?v 0)"
    by (simp_all add: pump_sent_def pump_read_def Let_def client_ops one_client_state new_client_def)
  from visitor_session_life [OF run, of 0] run v show ?thesis by auto
qed

text \<open>
  Property C27. The end of the server's connection ends the clients that are there, and only those. When the
  reader gets no further frame, an EOF frame or a broken one, every client on
  the map is closed and the map is empty; but the accept loop goes on, and a client
  accepted later is on the map with an open socket, its NEW_SESSION sent to nobody.
\<close>

theorem visitor_disconnect:
  assumes "visitor_run g v" "reader v = ReaderReading"
    and "r = NoFrame \<or> r = ReadThrows \<or> (\<exists>f rest. r = GotFrame f rest \<and> frame_method f = FRAME_EOF)"
  shows "sessions (reader_gets v r) = Map.empty \<and> reader (reader_gets v r) = ReaderEnded \<and>
    (\<forall>k. sessions v (uuid (objects v k)) = Some k \<longrightarrow> \<not> is_open (client (objects (reader_gets v r) k))) \<and>
    (acceptor v = Accepting \<and> \<not> dangling v \<longrightarrow>
      visitor_move (reader_gets v r) ClientAccepted = Some (client_accepted (reader_gets v r)) \<and>
      (let w = client_accepted (reader_gets v r); k = made v
       in sessions w (uuid (objects w k)) = Some k \<and> is_open (client (objects w k)) \<and> reader w = ReaderEnded))"
proof -
  define e where "e = reader_gets v r"
  have e: "sessions e = Map.empty" "reader e = ReaderEnded" "acceptor e = acceptor v" "made e = made v" "dangling e = dangling v"
    "\<forall>k. sessions v (uuid (objects v k)) = Some k \<longrightarrow> \<not> is_open (client (objects e k))"
    using assms(3) by (auto simp: e_def reader_gets_def reader_frame_def reader_end_def close_clients_def close_client_def
        Let_def sock_defs)
  obtain u h where g: "generate_uuid (rng e) = (u, h)" by (rule prod.exhaust)
  have "sessions (client_accepted e) (uuid (objects (client_accepted e) (made v))) = Some (made v)"
    "reader (client_accepted e) = ReaderEnded" "is_open (client (objects (client_accepted e) (made v)))"
    using client_accepted_simps [OF g] client_accepted_objects(2) [OF g] e by simp_all
  moreover have "acceptor v = Accepting \<and> \<not> dangling v \<longrightarrow> visitor_move e ClientAccepted = Some (client_accepted e)"
    using e(3,5) by (simp add: visitor_move_def)
  ultimately show ?thesis using e unfolding e_def by (simp add: Let_def)
qed

theorem visitor_disconnect_witness:
  "visitor_run (mt_seed 5) (client_served (mt_seed 5) [1]) \<and>
    \<not> is_open (client (objects (reader_gets (client_served (mt_seed 5) [1]) NoFrame) 0))"
proof -
  have run: "visitor_run (mt_seed 5) (client_served (mt_seed 5) [1])" by (rule client_served_run) simp
  from visitor_disconnect [OF run client_served_state(2), of NoFrame] run client_served_state(3,5) [of "mt_seed 5" "[1]"]
  show ?thesis by simp
qed

text \<open>
  Property C28. The reader can use a reference that is gone. If accepting fails while the reader is writing to a client,
  the accept loop closes and clears the map; the write then fails, and after its
  SESSION_CLOSE the reader goes on through the reference and the iterator into the node that
  has been destroyed. Every seed and every data reach that state.
\<close>

theorem visitor_dangling_reference:
  assumes "x \<noteq> []"
  shows "\<exists>v. visitor_run g v \<and> reader v = ReaderWriting (client_uuid g) 0 x \<and>
    (\<exists>w. play visitor_move v [AcceptFailed, ReaderWrote (WriteFailed 0), ReaderClosed] = Some w \<and> dangling w)"
proof (intro exI conjI)
  show "visitor_run g (client_writing g x)" using assms by (rule client_writing_run)
  show "reader (client_writing g x) = ReaderWriting (client_uuid g) 0 x" by (simp add: client_writing_def)
  let ?a = "accept_failed (client_writing g x)"
  let ?b = "reader_wrote ?a (WriteFailed 0)"
  have a: "visitor_move (client_writing g x) AcceptFailed = Some ?a" "reader ?a = ReaderWriting (client_uuid g) 0 x"
    "sessions ?a = Map.empty" "\<not> dangling ?a"
    by (simp_all add: visitor_move_def client_writing_def one_client_state accept_failed_def close_clients_def)
  then have b: "visitor_move ?a (ReaderWrote (WriteFailed 0)) = Some ?b" "reader ?b = ReaderClosing (client_uuid g) 0"
    "sessions ?b = Map.empty" "\<not> dangling ?b"
    by (simp_all add: visitor_move_def reader_wrote_def client_ops Let_def)
  then have "visitor_move ?b ReaderClosed = Some (reader_closed ?b)" "dangling (reader_closed ?b)"
    by (simp_all add: visitor_move_def reader_closed_def)
  with a b show "play visitor_move (client_writing g x) [AcceptFailed, ReaderWrote (WriteFailed 0), ReaderClosed] = Some (reader_closed ?b)"
    "dangling (reader_closed ?b)" by simp_all
qed

theorem visitor_dangling_reference_witness:
  "\<exists>v. visitor_run (mt_seed 5) v \<and>
    (\<exists>w. play visitor_move v [AcceptFailed, ReaderWrote (WriteFailed 0), ReaderClosed] = Some w \<and> dangling w)"
  using visitor_dangling_reference [of "[1]" "mt_seed 5"] by blast

end
