(* ===== verification/Relay_Provider_Claims.thy ===== *)
theory Relay_Provider_Claims
  imports Relay_Sessions
begin

section \<open>What the provider promises\<close>

text \<open>
  The properties of role C, from the invariant, and runs that show what can happen to a
  session. The bytes for a session are those of the DATA frames that the server sent for
  its uuid since its FORWARD_SESSION.
\<close>

definition provider_run :: "provider \<Rightarrow> bool" where
  "provider_run p \<longleftrightarrow> reach provider_step provider_start p"

lemma provider_run_inv:
  assumes "provider_run p"
  shows "provider_inv p" "k < made p \<Longrightarrow> base_ok p k" "k < made p \<Longrightarrow> on_map p k \<Longrightarrow> map_ok p k"
proof -
  show "provider_inv p" using assms unfolding provider_run_def by (rule provider_reach_inv)
  then show "k < made p \<Longrightarrow> base_ok p k" "k < made p \<Longrightarrow> on_map p k \<Longrightarrow> map_ok p k"
    by (simp_all add: provider_inv_def session_ok_def)
qed

lemma provider_plays: "provider_run p \<Longrightarrow> play provider_move p es = Some q \<Longrightarrow> provider_run q"
  unfolding provider_run_def by (rule provider.play_reach)

lemma provider_run_start: "provider_run provider_start"
  unfolding provider_run_def by (rule reach_start)

subsection \<open>A run with one session\<close>

definition opens :: "string \<Rightarrow> frame_read" where
  "opens u = GotFrame (mk_frame FORWARD_SESSION (build_uuid_body u)) []"

definition carries :: "string \<Rightarrow> ByteVector \<Rightarrow> frame_read" where
  "carries u x = GotFrame (mk_frame DATA (build_uuid_data_body u x)) []"

lemmas provider_run_defs = provider_gets_def provider_frame_def forward_session_def frame_data_def frame_written_def
  session_connected_def session_sent_def drain_next_def drain_written_def session_loop_def target_read_def
  let_go_def kept_def session_ops opens_def carries_def mk_frame_def method_defs

definition waiting_session :: "string \<Rightarrow> provider" where
  "waiting_session u = \<lparr>made = 1, states = (\<lambda>_. new_state [])(0 := (new_state u)\<lparr>connecting := True\<rparr>),
     sessions = [u \<mapsto> 0], frames = FramesReading, procs = (\<lambda>_. NoSession)(0 := Connecting), sent = [],
     seen = [mk_frame FORWARD_SESSION (build_uuid_body u)], since = (\<lambda>_. 0)(0 := 1), taken = \<lambda>_. []\<rparr>"

lemma waiting_session_run: "provider_run (waiting_session u)"
proof (rule provider_plays [OF provider_run_start])
  show "play provider_move provider_start [FrameRead (opens u)] = Some (waiting_session u)"
    by (simp add: provider_run_defs waiting_session_def provider_start_def Let_def)
qed

text \<open>The target has accepted and nothing was waiting for it.\<close>

definition open_session :: "string \<Rightarrow> provider" where
  "open_session u = (waiting_session u)\<lparr>
     states := (\<lambda>_. new_state [])(0 := (new_state u)\<lparr>remote := Some fresh_sock, remote_connected := True\<rparr>),
     procs := (\<lambda>_. NoSession)(0 := RemoteReading), sent := [(0, mk_frame SESSION_OK (build_uuid_body u))]\<rparr>"

lemma open_session_run: "provider_run (open_session u)"
proof (rule provider_plays [OF waiting_session_run])
  show "play provider_move (waiting_session u) [Connected 0 True, Sent 0] = Some (open_session u)"
    by (simp add: provider_run_defs waiting_session_def open_session_def new_state_def Let_def)
qed

subsection \<open>Properties\<close>

text \<open>
  Property C29. The provider neither loses nor invents a byte for its sessions. What has been written
  to a target is among the data of the DATA frames that came for the session; while the
  session is on the map and its coroutine lives, the rest of that data is in the arrival
  buffer or in a write in progress, so when both coroutines wait for input all of it has
  been written; and until the target has accepted, the arrival buffer is that data in order.
\<close>

theorem provider_keeps_bytes:
  assumes "provider_run p" "k < made p"
  shows "mset (written_to p k) \<subseteq># mset (data_for (uuid (states p k)) (drop (since p k) (seen p))) \<and>
    (sessions p (uuid (states p k)) = Some k \<longrightarrow>
      (procs p k \<noteq> SessionEnded \<longrightarrow> mset (written_to p k) + mset (undrained p k) + mset (direct p k) =
        mset (data_for (uuid (states p k)) (drop (since p k) (seen p)))) \<and>
      (procs p k = RemoteReading \<and> frames p = FramesReading \<longrightarrow>
        mset (written_to p k) = mset (data_for (uuid (states p k)) (drop (since p k) (seen p)))) \<and>
      (procs p k = Connecting \<longrightarrow>
        concat (arrival_buffer (states p k)) = data_for (uuid (states p k)) (drop (since p k) (seen p))))"
proof -
  have "map_ok p k" if "sessions p (uuid (states p k)) = Some k"
    using provider_run_inv(3) [OF assms] that by (simp add: on_map_def)
  with provider_written [OF provider_run_inv(1) [OF assms(1)] assms(2)] show ?thesis
    unfolding map_ok_def Let_def came_for_def held_bytes_def on_map_def by auto
qed

text \<open>A uuid of the right length, for the examples.\<close>

definition u1 :: string where "u1 = replicate 36 CHR ''a''"
definition u2 :: string where "u2 = replicate 36 CHR ''b''"

lemma u_simps [simp]: "length u1 = UUID_BYTES" "length u2 = UUID_BYTES" "u1 \<noteq> u2" "u2 \<noteq> u1"
  by (simp_all add: u1_def u2_def UUID_BYTES_def)

lemma buffered_run:
  assumes u: "length u = UUID_BYTES"
  shows "\<exists>p. play provider_move (waiting_session u) [FrameRead (carries u x), FrameRead (carries u y)] = Some p \<and> provider_run p \<and>
    made p = 1 \<and> uuid (states p 0) = u \<and> sessions p u = Some 0 \<and> procs p 0 = Connecting \<and>
    arrival_buffer (states p 0) = [x, y] \<and> since p 0 = 1"
proof -
  obtain p where p: "play provider_move (waiting_session u) [FrameRead (carries u x), FrameRead (carries u y)] = Some p"
    "made p = 1" "uuid (states p 0) = u" "sessions p u = Some 0" "procs p 0 = Connecting"
    "arrival_buffer (states p 0) = [x, y]" "since p 0 = 1"
    using uuid_data_fields [OF u] by (simp add: provider_run_defs waiting_session_def new_state_def Let_def)
  with provider_plays [OF waiting_session_run p(1)] show ?thesis by blast
qed

theorem provider_keeps_bytes_witness:
  "\<exists>p. provider_run p \<and> procs p 0 = Connecting \<and> arrival_buffer (states p 0) = [[1], [2, 3]] \<and>
    data_for u1 (drop 1 (seen p)) = [1, 2, 3]"
proof -
  obtain p where p: "provider_run p" "made p = 1" "uuid (states p 0) = u1" "sessions p u1 = Some 0" "procs p 0 = Connecting"
    "arrival_buffer (states p 0) = [[1], [2, 3]]" "since p 0 = 1"
    using buffered_run [of u1 "[1]" "[2, 3]"] by auto
  from provider_keeps_bytes [OF p(1), of 0] p show ?thesis by (intro exI [of _ p]) auto
qed

text \<open>
  Property C30. Data can overtake the arrival buffer. The target counts as connected before the arrival
  buffer is drained, so a DATA frame that arrives in between is written at once: for all
  \<open>x\<close> and \<open>y\<close> there is a run after which the target has got \<open>y @ x\<close> where the
  server sent \<open>x\<close> and then \<open>y\<close>, the session is open and both coroutines wait for input.
\<close>

theorem provider_overtakes:
  assumes u: "length u = UUID_BYTES"
  shows "\<exists>p. provider_run p \<and> data_for u (seen p) = x @ y \<and> written_to p 0 = y @ x \<and>
    sessions p u = Some 0 \<and> frames p = FramesReading \<and> procs p 0 = RemoteReading"
proof -
  have "\<exists>p. play provider_move (waiting_session u) [FrameRead (carries u x), Connected 0 True, FrameRead (carries u y),
      FrameWritten WriteOk, Sent 0, DrainWritten 0 WriteOk] = Some p \<and>
    data_for u (seen p) = x @ y \<and> written_to p 0 = y @ x \<and> sessions p u = Some 0 \<and> frames p = FramesReading \<and>
    procs p 0 = RemoteReading"
    using uuid_data_fields [OF u]
    by (simp add: provider_run_defs waiting_session_def new_state_def Let_def remote_of_def unusable_def fresh_sock_def
        wrote_def sock_defs written_to_def data_for_def is_data_def)
  then show ?thesis using provider_plays [OF waiting_session_run] by blast
qed

theorem provider_overtakes_witness:
  "\<exists>p. provider_run p \<and> data_for u1 (seen p) = [1, 2] \<and> written_to p 0 = [2, 1] \<and> sessions p u1 = Some 0"
  using provider_overtakes [of u1 "[1]" "[2]"] by auto

text \<open>
  Property C31. The provider answers every session once and then sends its stream. What is handed
  to the server's connection for a session whose uuid has 36 characters is nothing while the
  connect is pending; or SESSION_ERR alone, and then nothing has been read from the target;
  or SESSION_OK and then only DATA, DATA_EOF and SESSION_CLOSE frames of the uuid, whose data
  is exactly what has been read from the target, with no DATA behind a DATA_EOF.
\<close>

theorem provider_sends_streams:
  assumes "provider_run p" "k < made p" "length (uuid (states p k)) = UUID_BYTES"
  shows "(let u = uuid (states p k); fs = sent_for (sent p) k in
    (procs p k = Connecting \<longleftrightarrow> fs = []) \<and>
    (fs = [] \<or> fs = [mk_frame SESSION_ERR (build_uuid_body u)] \<longrightarrow>
      taken p k = [] \<and> procs p k \<in> {Connecting, SentErr, SessionEnded}) \<and>
    (fs = [] \<or> fs = [mk_frame SESSION_ERR (build_uuid_body u)] \<or>
     (\<exists>gs. fs = mk_frame SESSION_OK (build_uuid_body u) # gs \<and>
       (\<forall>f\<in>set gs. frame_method f \<in> {DATA, DATA_EOF, SESSION_CLOSE} \<and> take UUID_BYTES (frame_body f) = build_uuid_body u) \<and>
       payload gs = taken p k \<and> data_before_eof gs)))"
proof -
  let ?u = "uuid (states p k)" and ?fs = "sent_for (sent p) k"
  have r: "replies_ok p k" using provider_run_inv(2) [OF assms(1,2)] by (simp add: base_ok_def Let_def)
  have ne: "mk_frame SESSION_ERR b \<noteq> mk_frame SESSION_OK b" for b by (simp add: mk_frame_def method_defs)
  have stream: "(\<forall>f\<in>set gs. frame_method f \<in> {DATA, DATA_EOF, SESSION_CLOSE} \<and> take UUID_BYTES (frame_body f) = build_uuid_body ?u) \<and>
      payload gs = taken p k \<and> data_before_eof gs" if "stream_ok ?u (taken p k) e gs" for gs e
    using that assms(3) by (auto simp: stream_ok_def about_def prefix_def)
  show ?thesis
    using r assms(3) stream ne unfolding replies_ok_def Let_def by (auto split: if_splits)
qed

theorem provider_sends_streams_witness:
  "\<exists>p gs. provider_run p \<and> sent_for (sent p) 0 = mk_frame SESSION_OK (build_uuid_body u1) # gs \<and> payload gs = [7, 8] \<and> taken p 0 = [7, 8]"
proof -
  let ?p = "target_read (open_session u1) 0 ReadFine [7, 8]"
  have "play provider_move (open_session u1) [RemoteRead 0 ReadFine [7, 8]] = Some ?p"
    by (simp add: open_session_def waiting_session_def remote_of_def read_delivers_def fresh_sock_def)
  from provider_plays [OF open_session_run this] have run: "provider_run ?p" .
  have p: "made ?p = 1" "uuid (states ?p 0) = u1" "taken ?p 0 = [7, 8]" "procs ?p 0 = SentData"
    by (simp_all add: target_read_def open_session_def waiting_session_def session_ops Let_def new_state_def)
  from provider_sends_streams [OF run, of 0] run p show ?thesis by (intro exI [of _ ?p]) (auto simp: Let_def)
qed

text \<open>
  Property C32. No null pointer is followed. In every run the map points to sessions that exist, each
  under its own uuid; \<^verbatim>\<open>remote_connected\<close> says exactly that the session has a socket; and
  wherever the code goes through \<^verbatim>\<open>remote\<close>, to write a DATA frame, to drain or to read, there
  is one. A session on the map is open or still connecting, so no DATA frame for it is dropped.
\<close>

theorem provider_well_formed:
  assumes run: "provider_run p"
  shows "(sessions p u = Some k \<longrightarrow> k < made p \<and> uuid (states p k) = u \<and> \<not> closed (states p k) \<and>
      (remote_connected (states p k) \<or> connecting (states p k))) \<and>
    (k < made p \<longrightarrow> (remote_connected (states p k) \<longleftrightarrow> remote (states p k) \<noteq> None)) \<and>
    (frames p = FramesWriting k x \<or> (\<exists>i x. procs p k = Draining i x) \<or>
      procs p k \<in> {SentOk, RemoteReading, SentEof, SentClose, SentData} \<longrightarrow> remote (states p k) \<noteq> None)"
proof (intro conjI impI)
  have inv: "provider_inv p" using run by (rule provider_run_inv)
  show conn: "remote_connected (states p k) \<longleftrightarrow> remote (states p k) \<noteq> None" if "k < made p"
    using provider_run_inv(2) [OF run that] by (simp add: base_ok_def Let_def)
  assume k: "sessions p u = Some k"
  show u: "k < made p" "uuid (states p k) = u" using inv k unfolding provider_inv_def by blast+
  then have "map_ok p k" using provider_run_inv(3) [OF run] k by (simp add: on_map_def)
  with conn [OF u(1)] show "\<not> closed (states p k)" "remote_connected (states p k) \<or> connecting (states p k)"
    by (auto simp: map_ok_def Let_def)
next
  have inv: "provider_inv p" using run by (rule provider_run_inv)
  assume pc: "frames p = FramesWriting k x \<or> (\<exists>i x. procs p k = Draining i x) \<or>
      procs p k \<in> {SentOk, RemoteReading, SentEof, SentClose, SentData}"
  show "remote (states p k) \<noteq> None"
  proof (cases "frames p = FramesWriting k x")
    case True
    then show ?thesis using inv unfolding provider_inv_def by blast
  next
    case False
    then have "k < made p" using inv pc unfolding provider_inv_def by (metis emptyE insertE session_pc.distinct)
    from provider_run_inv(2) [OF run this] pc False show ?thesis by (auto simp: base_ok_def Let_def)
  qed
qed

theorem provider_well_formed_witness:
  "provider_run (open_session u1) \<and> remote (states (open_session u1) 0) \<noteq> None"
  using provider_well_formed [OF open_session_run, of u1 u1 0 "[]"] open_session_run [of u1]
  by (simp add: open_session_def waiting_session_def)

text \<open>
  Property C33. The provider ends all of its sessions together. When the connection with the server
  ends, but also when one write of a DATA frame to one target fails, for which no
  SESSION_CLOSE is sent, the frame reader ends, every session leaves the map and every
  target that is connected is closed. A session that is still connecting is forgotten, not
  stopped: if its target accepts later, the socket is open, the session is not closed, its
  coroutine announces it with SESSION_OK, and no frame will ever reach it.
\<close>

theorem provider_ends_together:
  assumes "provider_move p (FrameWritten (WriteFailed n)) = Some q \<or>
      provider_move p (FrameRead r) = Some q \<and> (r = NoFrame \<or> r = ReadThrows \<or> (\<exists>f rest. r = GotFrame f rest \<and> frame_method f = FRAME_EOF))"
  shows "sessions q = Map.empty \<and> frames q = FramesEnded \<and> sent q = sent p \<and>
    (\<forall>j s. sessions p (uuid (states p j)) = Some j \<and> remote (states q j) = Some s \<longrightarrow> \<not> is_open s) \<and>
    (\<forall>j. procs p j = Connecting \<longrightarrow> (let w = session_connected q j True in
      provider_move q (Connected j True) = Some w \<and> remote (states w j) = Some fresh_sock \<and> sessions w = Map.empty \<and>
      frames w = FramesEnded \<and> closed (states w j) = closed (states p j) \<and>
      sent w = sent p @ [(j, mk_frame SESSION_OK (build_uuid_body (uuid (states p j))))]))"
proof -
  obtain p' where q: "q = provider_end p'" and p': "sessions p' = sessions p" "procs p' = procs p" "sent p' = sent p"
    "\<And>j. uuid (states p' j) = uuid (states p j)" "\<And>j. closed (states p' j) = closed (states p j)"
  proof -
    have "(\<exists>k x. q = provider_end (upd_state p k (on_remote (wrote (WriteFailed n) x)))) \<or> q = provider_end p \<or>
        (\<exists>f. q = provider_end (p\<lparr>seen := seen p @ [f]\<rparr>))"
      using assms by (auto simp: frame_written_def provider_gets_def provider_frame_def Let_def split: frames_pc.splits if_splits)
    then show ?thesis by (elim disjE exE) (rule that, assumption, simp_all add: session_ops)+
  qed
  have s: "closed (states (provider_end p') j) = closed (states p' j)" "uuid (states (provider_end p') j) = uuid (states p' j)" for j
    using provider_end_state [of p' j] by (auto simp: on_remote_def)
  have "\<not> is_open t" if "sessions p (uuid (states p j)) = Some j" "remote (states q j) = Some t" for j t
    using that unfolding q by (auto simp: provider_end_def on_remote_def p' Let_def sock_close_def)
  then show ?thesis unfolding q using p' s
    by (auto simp: session_connected_def session_ops Let_def)
qed

lemma two_sessions:
  "\<exists>p. provider_run p \<and> made p = 2 \<and> frames p = FramesWriting 0 [5] \<and> sessions p = [u1 \<mapsto> 0, u2 \<mapsto> 1] \<and>
    uuid (states p 0) = u1 \<and> uuid (states p 1) = u2 \<and> remote (states p 0) = Some fresh_sock \<and> remote (states p 1) = Some fresh_sock"
proof -
  have "\<exists>p. play provider_move (open_session u1) [FrameRead (opens u2), Connected 1 True, Sent 1, FrameRead (carries u1 [5])] = Some p \<and>
    made p = 2 \<and> frames p = FramesWriting 0 [5] \<and> sessions p = [u1 \<mapsto> 0, u2 \<mapsto> 1] \<and>
    uuid (states p 0) = u1 \<and> uuid (states p 1) = u2 \<and> remote (states p 0) = Some fresh_sock \<and> remote (states p 1) = Some fresh_sock"
    using uuid_data_fields [of u1]
    by (simp add: provider_run_defs open_session_def waiting_session_def new_state_def Let_def)
  then show ?thesis using provider_plays [OF open_session_run] by blast
qed

theorem provider_ends_together_witness:
  "\<exists>p q. provider_run p \<and> frames p = FramesWriting 0 [5] \<and> provider_move p (FrameWritten (WriteFailed 0)) = Some q \<and>
    (\<forall>s. remote (states q 1) = Some s \<longrightarrow> \<not> is_open s) \<and> sessions p u2 = Some 1 \<and> sessions q u2 = None"
proof -
  obtain p where p: "provider_run p" "frames p = FramesWriting 0 [5]" "sessions p = [u1 \<mapsto> 0, u2 \<mapsto> 1]"
    "uuid (states p 1) = u2" using two_sessions by blast
  define q where "q = frame_written p (WriteFailed 0)"
  have q: "provider_move p (FrameWritten (WriteFailed 0)) = Some q" using p(2) by (simp add: q_def)
  have on: "sessions p (uuid (states p 1)) = Some 1" using p(3,4) by simp
  from provider_ends_together [OF disjI1 [OF q]]
  have "sessions q = Map.empty" "\<forall>s. remote (states q 1) = Some s \<longrightarrow> \<not> is_open s" using on by blast+
  moreover have "sessions p u2 = Some 1" using p(3) by simp
  ultimately show ?thesis using p(1,2) q by (intro exI [of _ p] exI [of _ q]) simp
qed

text \<open>Nothing holds a session whose coroutine has ended: its socket is closed.\<close>

lemma session_finish_closes:
  assumes "remote (states p k) \<noteq> None"
  shows "\<exists>s. remote (states (session_finish p k) k) = Some s \<and> \<not> is_open s"
proof -
  let ?e = "erase_session (set_proc p k SessionEnded) (uuid (states p k))"
  have "remote (states ?e k) \<noteq> None"
    using assms erase_session_same [of "set_proc p k SessionEnded" "uuid (states p k)" k]
    by (simp add: same_session_def set_proc_def)
  moreover have "\<not> kept ?e k" by (simp add: kept_def set_proc_def)
  then have "session_finish p k = upd_state ?e k (on_remote sock_close)" by (simp add: session_finish_def let_go_def)
  ultimately show ?thesis by (auto simp: upd_state_def on_remote_def sock_close_def)
qed

text \<open>
  Property C34. A session does not outlive its target's stream. When the provider has passed the end of the
  target's stream on as DATA_EOF, it takes the session off the map and closes the socket,
  also when the stream from the client has not ended: whatever data the client still sends
  is dropped and the target's connection is not half open but gone.
\<close>

theorem provider_drops_half_open:
  assumes "provider_run p" "procs p k = SentEof"
  shows "\<exists>q s. provider_move p (Sent k) = Some q \<and> sessions q (uuid (states p k)) = None \<and>
    procs q k = SessionEnded \<and> remote (states q k) = Some s \<and> \<not> is_open s \<and> sent q = sent p \<and>
    (length (uuid (states p k)) = UUID_BYTES \<longrightarrow> (\<forall>x. frame_data q (build_uuid_data_body (uuid (states p k)) x) = q))"
proof -
  let ?c = "if half_close_recv (states p k) then upd_state p k (\<lambda>s. s\<lparr>closed := True\<rparr>) else p"
  let ?q = "session_finish ?c k"
  have c: "uuid (states ?c k) = uuid (states p k)" "sent ?c = sent p" "remote (states ?c k) = remote (states p k)"
    by (simp_all add: upd_state_def)
  have inv: "provider_inv p" using assms(1) by (rule provider_run_inv)
  then have k: "k < made p" using assms(2) unfolding provider_inv_def by (metis session_pc.distinct)
  obtain s0 where s0: "remote (states ?c k) = Some s0"
    using provider_run_inv(2) [OF assms(1) k] assms(2) unfolding c by (auto simp: base_ok_def Let_def)
  have off: "sessions ?q (uuid (states p k)) = None" by (simp add: c)
  have "\<exists>s. remote (states ?q k) = Some s \<and> \<not> is_open s" using session_finish_closes [of ?c k] s0 by simp
  moreover have "provider_move p (Sent k) = Some ?q" using assms(2) by (simp add: session_sent_def)
  moreover have "sent ?q = sent p" by (simp add: session_finish_def set_proc_def c)
  ultimately show ?thesis using off by (intro exI [of _ ?q]) (auto simp: frame_data_def uuid_data_fields)
qed

theorem provider_drops_half_open_witness:
  "\<exists>p q s. provider_run p \<and> procs p 0 = SentEof \<and> \<not> half_close_recv (states p 0) \<and> sessions p u1 = Some 0 \<and>
    provider_move p (Sent 0) = Some q \<and> sessions q u1 = None \<and> remote (states q 0) = Some s \<and> \<not> is_open s"
proof -
  let ?p = "target_read (open_session u1) 0 ReadIsEof []"
  have "play provider_move (open_session u1) [RemoteRead 0 ReadIsEof []] = Some ?p"
    by (simp add: open_session_def waiting_session_def remote_of_def read_delivers_def fresh_sock_def)
  from provider_plays [OF open_session_run this] have run: "provider_run ?p" .
  have p: "uuid (states ?p 0) = u1" "procs ?p 0 = SentEof" "\<not> half_close_recv (states ?p 0)" "sessions ?p u1 = Some 0"
    by (simp_all add: target_read_def open_session_def waiting_session_def session_ops Let_def new_state_def)
  from provider_drops_half_open [OF run p(2)] obtain q s where
    "provider_move ?p (Sent 0) = Some q" "sessions q u1 = None" "remote (states q 0) = Some s" "\<not> is_open s"
    unfolding p(1) by blast
  with run p show ?thesis by blast
qed

end
