(* ===== verification/Relay_Pairs.thy ===== *)
theory Relay_Pairs
  imports Relay_Server
begin

section \<open>What the relay server promises to a pair\<close>

text \<open>
  The properties of role A: what reaches a peer, how a disconnect is passed on, and what
  becomes of an id whose pair is gone. They rest on the invariant of \<open>Relay_Server\<close>.
\<close>

subsection \<open>The frames of a direction\<close>

definition wire :: "Frame list \<Rightarrow> ByteVector" where
  "wire fs = concat (map (\<lambda>f. write_frame (frame_method f) (frame_body f)) fs)"

text \<open>What the partner sees of a frame; the first argument says that B sent it.\<close>

definition seen_as :: "bool \<Rightarrow> Frame \<Rightarrow> Frame" where
  "seen_as from_b f =
     (if frame_method f = FRAME_EOF then mk_frame FRAME_EOF []
      else if from_b \<and> frame_method f = NEW_SESSION then mk_frame FORWARD_SESSION (frame_body f)
      else f)"

lemma relay_one_wire: "relay_one d f = wire [seen_as d f]"
  by (cases f) (auto simp: relay_one_def forwarded_def wire_def seen_as_def mk_frame_def)

lemma wire_append: "wire (fs @ gs) = wire fs @ wire gs"
  by (simp add: wire_def)

lemma relayed_wire: "relayed d fs = wire (mk_frame READY [] # map (seen_as d) fs)"
proof (induction fs rule: rev_induct)
  case (snoc f fs)
  have "relayed d (fs @ [f]) = wire (mk_frame READY [] # map (seen_as d) fs) @ wire [seen_as d f]"
    by (simp add: relayed_snoc snoc relay_one_wire)
  then show ?case by (simp add: wire_def)
qed (simp add: relayed_def wire_def mk_frame_def)

lemma eof_wire: "relayed d fs @ eof_bytes = wire (mk_frame READY [] # map (seen_as d) fs @ [mk_frame FRAME_EOF []])"
  by (simp add: relayed_wire wire_def mk_frame_def)

lemma pumping_prefix: "pumping s tid d f t \<Longrightarrow> prefix (written (socks s t)) (relayed d (received s f) @ eof_bytes)"
proof -
  assume p: "pumping s tid d f t"
  have "prefix ready_bytes (relayed d fs)" for fs by (simp add: relayed_def)
  moreover have "w @ x = relayed d fs \<Longrightarrow> prefix w (relayed d fs)" for w x fs by (metis prefixI)
  ultimately show ?thesis
    using p by (auto simp: pumping_def split: pump_pc.splits
        intro: prefix_prefix prefix_order.trans)
qed

lemma pair_prefix:
  assumes inv: "server_inv s" and m: "pairs s tid = Some m" "mb m = Some b" "mc m = Some c"
  shows "prefix (written (socks s c)) (relayed True (received s b) @ eof_bytes)"
    "prefix (written (socks s b)) (relayed False (received s c) @ eof_bytes)"
proof -
  note ok = inv_pair [OF inv m(1), unfolded pair_ok_full [OF m(2,3)]]
  have "prefix ready_bytes (relayed d fs @ eof_bytes)" for d fs by (simp add: relayed_def)
  with ok show "prefix (written (socks s c)) (relayed True (received s b) @ eof_bytes)"
    "prefix (written (socks s b)) (relayed False (received s c) @ eof_bytes)"
    by (auto simp: untouched_def dest: pumping_prefix split: if_splits)
qed

lemma seen_as_fits: "fits_frame (frame_body f) \<Longrightarrow> fits_frame (frame_body (seen_as d f))"
  by (auto simp: seen_as_def mk_frame_def fits_frame_def)

lemma fits_bare [simp]: "fits_frame (frame_body (mk_frame x []))"
  by (simp add: mk_frame_def fits_frame_def)

lemma read_wire: "\<forall>f\<in>set fs. fits_frame (frame_body f) \<Longrightarrow> read_frames (wire fs) = (fs, [])"
  unfolding wire_def by (rule read_frames_written)

lemma reading_pump:
  assumes inv: "server_inv s" and m: "pairs s tid = Some m" "mb m = Some b" "mc m = Some c"
    and p: "pumps s tid True = PumpReading"
  shows "written (socks s c) = wire (mk_frame READY [] # map (seen_as True) (received s b))"
proof -
  have "pump_from s tid True = Some b" "pump_to s tid True = Some c" using m by (simp_all add: pump_from_def pump_to_def)
  from live_pump [OF inv _ this] p have "pumping s tid True b c" by (metis pump_pc.distinct(1))
  with p show ?thesis by (simp add: pumping_def relayed_wire)
qed

subsection \<open>A run\<close>

text \<open>B and C register under one id and B sends NEW_SESSION.\<close>

definition demo_id :: string where "demo_id = ''x''"

definition demo_register :: "string \<Rightarrow> frame_read" where
  "demo_register s = GotFrame (mk_frame REGISTER (bytes_of_string s)) []"

definition demo_pairing :: "server_event list" where
  "demo_pairing = [Accept 0, RegFrame 0 (demo_register ''x B''), Accept 1, RegFrame 1 (demo_register ''x C''),
     RegWritten 1 WriteOk, RegWritten 1 WriteOk]"

definition demo_session :: "server_event list" where
  "demo_session = [PumpFrame demo_id True (GotFrame (mk_frame NEW_SESSION [7]) []), PumpWritten demo_id True WriteOk]"

definition demo_other :: "server_event list" where
  "demo_other = [Accept 2, RegFrame 2 (demo_register ''y C''), Accept 3, RegFrame 3 (demo_register ''y B''),
     RegWritten 3 WriteOk, RegWritten 3 WriteOk]"

text \<open>B disconnects; C is told, and both sockets are closed. Then B connects again.\<close>

definition demo_disconnect :: "server_event list" where
  "demo_disconnect = [PumpFrame demo_id True NoFrame, PumpWritten demo_id True WriteOk, PumpFrame demo_id False NoFrame, Accept 2]"

definition played :: "server_event list \<Rightarrow> (server \<Rightarrow> bool) \<Rightarrow> bool" where
  "played es P = (case play server_move server_start es of None \<Rightarrow> False | Some s \<Rightarrow> P s)"

lemma played_reach: "played es P \<Longrightarrow> \<exists>s. reach server_step server_start s \<and> P s"
  unfolding played_def by (rule server.play_case)

subsection \<open>Properties\<close>

text \<open>
  Property C22. The relay keeps its pairs apart and each direction in order. At every moment of every
  run, for a pair whose two slots are taken: what has been written to C is a part, from the
  beginning, of READY, the frames read from B of the same id and a final EOF, a
  NEW_SESSION turned into FORWARD_SESSION; what has been written to B is such a part for
  the frames of C, unchanged; and neither connection is in a slot of another id. While the
  pump from B waits for a frame, C has got all of it, and decodes exactly those frames.
\<close>

theorem relay_keeps_pairs_apart:
  assumes "reach server_step server_start s"
    and "pairs s tid = Some m" "mb m = Some b" "mc m = Some c"
  shows "prefix (written (socks s c))
      (wire (mk_frame READY [] # map (seen_as True) (received s b) @ [mk_frame FRAME_EOF []])) \<and>
    prefix (written (socks s b))
      (wire (mk_frame READY [] # map (seen_as False) (received s c) @ [mk_frame FRAME_EOF []])) \<and>
    (in_slot s i b \<or> in_slot s i c \<longrightarrow> i = tid) \<and>
    (pumps s tid True = PumpReading \<and> (\<forall>f\<in>set (received s b). fits_frame (frame_body f)) \<longrightarrow>
      read_frames (written (socks s c)) = (mk_frame READY [] # map (seen_as True) (received s b), []))"
proof -
  have inv: "server_inv s" using assms(1) by (rule server_reach_inv)
  have "in_slot s tid b" "in_slot s tid c" using assms by (auto simp: in_slot_def)
  then have own: "in_slot s i b \<or> in_slot s i c \<longrightarrow> i = tid" using in_slot_unique [OF inv] by blast
  have "read_frames (written (socks s c)) = (mk_frame READY [] # map (seen_as True) (received s b), [])"
    if "pumps s tid True = PumpReading" "\<forall>f\<in>set (received s b). fits_frame (frame_body f)"
    unfolding reading_pump [OF inv assms(2-4) that(1)] using that(2)
    by (intro read_wire) (auto intro: seen_as_fits)
  with own pair_prefix [OF inv assms(2-4)] show ?thesis unfolding eof_wire by blast
qed

theorem relay_keeps_pairs_apart_witness:
  "\<exists>s m. reach server_step server_start s \<and> pairs s demo_id = Some m \<and> mb m = Some 0 \<and> mc m = Some 1 \<and>
    in_slot s ''y'' 2 \<and> \<not> in_slot s ''y'' 0 \<and>
    read_frames (written (socks s 1)) = ([mk_frame READY [], mk_frame FORWARD_SESSION [7]], [])"
proof -
  have "played (demo_pairing @ demo_other @ demo_session) (\<lambda>s. (case pairs s demo_id of None \<Rightarrow> False
      | Some m \<Rightarrow> mb m = Some 0 \<and> mc m = Some 1) \<and> (case pairs s ''y'' of None \<Rightarrow> False | Some m \<Rightarrow> mc m = Some 2) \<and>
      pumps s demo_id True = PumpReading \<and> received s 0 = [mk_frame NEW_SESSION [7]])"
    by code_simp
  from played_reach [OF this] obtain s m where s: "reach server_step server_start s" "pairs s demo_id = Some m"
    "mb m = Some 0" "mc m = Some 1" "in_slot s ''y'' 2" "pumps s demo_id True = PumpReading"
    "received s 0 = [mk_frame NEW_SESSION [7]]"
    by (auto simp: in_slot_def split: option.splits)
  from relay_keeps_pairs_apart [OF s(1-4), of "''y''"] s show ?thesis
    by (auto simp: demo_id_def seen_as_def mk_frame_def method_defs fits_frame_def)
qed

lemma pump_other: "pumps s tid d = PumpReading \<Longrightarrow> pump_from s tid d = Some f \<Longrightarrow> pairs s tid = Some m \<Longrightarrow> dead m \<Longrightarrow>
    \<exists>s'. server_move s (PumpFrame tid d NoFrame) = Some s' \<and> pumps s' tid d = PumpEnded \<and> socks s' = socks s"
  by (simp add: pump_frame_def pump_break_pc)

text \<open>
  Property C23. A disconnect is passed on once. When a peer of a live pair is gone and its partner can be
  written, the partner has been sent, in all, READY, every frame the peer ever sent and one
  EOF, both sockets are closed, and the pump of the other direction, when it sees the
  close, ends without writing anything more.
\<close>

theorem relay_passes_disconnect_on:
  assumes "reach server_step server_start s"
    and "pairs s tid = Some m" "\<not> dead m" "pump_from s tid d = Some f" "pump_to s tid d = Some t"
    and "pumps s tid d = PumpReading" "\<not> unusable (socks s t)"
  shows "\<exists>s'. play server_move s [PumpFrame tid d NoFrame, PumpWritten tid d WriteOk] = Some s' \<and>
    written (socks s' t) = wire (mk_frame READY [] # map (seen_as d) (received s f) @ [mk_frame FRAME_EOF []]) \<and>
    \<not> is_open (socks s' t) \<and> \<not> is_open (socks s' f) \<and> pumps s' tid d = PumpEnded \<and>
    (pumps s tid (\<not> d) = PumpReading \<longrightarrow> (\<exists>s''. server_move s' (PumpFrame tid (\<not> d) NoFrame) = Some s'' \<and>
      pumps s'' tid (\<not> d) = PumpEnded \<and> socks s'' = socks s'))"
proof -
  have inv: "server_inv s" using assms(1) by (rule server_reach_inv)
  have ft: "f \<noteq> t" "pumping s tid d f t" using live_pump [OF inv _ assms(4,5)] assms(6) by (metis pump_pc.distinct(1))+
  let ?s1 = "pump_break s tid d"
  let ?s' = "pump_written ?s1 tid d f t WriteOk"
  have ends: "pump_from ?s1 tid e = pump_from s tid e" "pump_to ?s1 tid e = pump_to s tid e" for e
    using assms(2) by (simp_all add: pump_from_def pump_to_def pump_break_pc)
  have pc: "pumps ?s1 tid d = PumpLast" using assms(2,3) by (simp add: pump_break_pc)
  have mv: "play server_move s [PumpFrame tid d NoFrame, PumpWritten tid d WriteOk] = Some ?s'"
    using assms(4-7) pc ends by (simp add: pump_frame_def can_write_def)
  have s': "written (socks ?s' t) = written (socks s t) @ eof_bytes" "\<not> is_open (socks ?s' t)" "\<not> is_open (socks ?s' f)"
    "pumps ?s' tid d = PumpEnded" "pairs ?s' tid = Some (m\<lparr>dead := True\<rparr>)" "pumps ?s' tid (\<not> d) = pumps s tid (\<not> d)"
    using pc ft(1) assms(2) by (simp_all add: pump_written_def Let_def wrote_def sock_defs pump_break_pc)
  have "written (socks s t) = relayed d (received s f)" using ft(2) assms(6) by (simp add: pumping_def)
  with s'(1) have "written (socks ?s' t) = wire (mk_frame READY [] # map (seen_as d) (received s f) @ [mk_frame FRAME_EOF []])"
    by (simp only: eof_wire)
  moreover obtain g where "pump_from ?s' tid (\<not> d) = Some g"
    using s'(5) assms(2,4,5) by (cases d) (auto simp: pump_from_def pump_to_def)
  ultimately show ?thesis using mv s'(2-4) pump_other [OF _ _ s'(5), of "\<not> d" g] s'(6) by simp
qed

theorem relay_passes_disconnect_on_witness:
  "\<exists>s s'. reach server_step server_start s \<and>
    play server_move s [PumpFrame demo_id True NoFrame, PumpWritten demo_id True WriteOk] = Some s' \<and>
    read_frames (written (socks s' 1)) =
      ([mk_frame READY [], mk_frame FORWARD_SESSION [7], mk_frame FRAME_EOF []], []) \<and>
    \<not> is_open (socks s' 0) \<and> \<not> is_open (socks s' 1)"
proof -
  have "played (demo_pairing @ demo_session) (\<lambda>s. (case pairs s demo_id of None \<Rightarrow> False
      | Some m \<Rightarrow> \<not> dead m \<and> mb m = Some 0 \<and> mc m = Some 1) \<and> \<not> unusable (socks s 1) \<and>
      pumps s demo_id True = PumpReading \<and> received s 0 = [mk_frame NEW_SESSION [7]])"
    by code_simp
  from played_reach [OF this] obtain s m where s: "reach server_step server_start s" "pairs s demo_id = Some m"
    "\<not> dead m" "mb m = Some 0" "mc m = Some 1" "\<not> unusable (socks s 1)" "pumps s demo_id True = PumpReading"
    "received s 0 = [mk_frame NEW_SESSION [7]]"
    by (auto split: option.splits)
  have ends: "pump_from s demo_id True = Some 0" "pump_to s demo_id True = Some 1"
    using s by (simp_all add: pump_from_def pump_to_def)
  have "read_frames (wire [mk_frame READY [], mk_frame FORWARD_SESSION [7], mk_frame FRAME_EOF []]) =
      ([mk_frame READY [], mk_frame FORWARD_SESSION [7], mk_frame FRAME_EOF []], [])"
    by (rule read_wire) (simp add: mk_frame_def fits_frame_def)
  with relay_passes_disconnect_on [OF s(1-3) ends s(7,6)] s(1,8) show ?thesis
    by (auto simp: seen_as_def mk_frame_def method_defs)
qed

text \<open>
  Property C35. An EOF frame from a peer ends its pair badly. When the pump of a live pair reads an EOF frame
  and passes it on, it closes the partner's socket before the write that follows the loop;
  that write then can only fail, so the line that closes the sender's own socket is never
  reached, and once both pumps have ended the sender's socket is still open.
\<close>

theorem relay_eof_frame_leaks_sender:
  assumes "reach server_step server_start s"
    and "pairs s tid = Some m" "\<not> dead m" "pump_from s tid d = Some f" "pump_to s tid d = Some t"
    and "pumps s tid d = PumpReading" "pumps s tid (\<not> d) = PumpReading"
    and "is_open (socks s f)" "\<not> unusable (socks s t)" "frame_method e = FRAME_EOF"
  shows "\<exists>s1. play server_move s [PumpFrame tid d (GotFrame e rest), PumpWritten tid d WriteOk] = Some s1 \<and>
    \<not> is_open (socks s1 t) \<and>
    (\<forall>r s2. server_move s1 (PumpWritten tid d r) = Some s2 \<longrightarrow> r = WriteFailed 0 \<and> pumps s2 tid d = PumpEnded \<and>
      (\<exists>s3. server_move s2 (PumpFrame tid (\<not> d) NoFrame) = Some s3 \<and> pumps s3 tid (\<not> d) = PumpEnded \<and>
        pumps s3 tid d = PumpEnded \<and> is_open (socks s3 f)))"
proof -
  have inv: "server_inv s" using assms(1) by (rule server_reach_inv)
  have ft: "f \<noteq> t" using live_pump [OF inv _ assms(4,5)] assms(6) by (metis pump_pc.distinct(1))
  let ?a = "pump_frame s tid d f (GotFrame e rest)"
  have a: "socks ?a = socks s" "pairs ?a = pairs s" "pumps ?a tid d = PumpEof" "pumps ?a tid (\<not> d) = PumpReading"
    using assms(7,10) by (simp_all add: pump_frame_def)
  let ?b = "pump_written ?a tid d f t WriteOk"
  have b: "\<not> is_open (socks ?b t)" "is_open (socks ?b f)" "pumps ?b tid d = PumpLast"
    "pumps ?b tid (\<not> d) = PumpReading" "pairs ?b tid = Some (m\<lparr>dead := True\<rparr>)"
    using a ft assms(2,3,8) by (simp_all add: pump_written_def Let_def pump_break_pc sock_defs)
  have ends: "pump_from ?a tid d = Some f" "pump_to ?a tid d = Some t" "pump_from ?b tid d = Some f" "pump_to ?b tid d = Some t"
    "pump_from ?b tid (\<not> d) = Some t"
    using assms(2,4,5) a(2) b(5) by (cases d; simp add: pump_from_def pump_to_def)+
  have mv: "play server_move s [PumpFrame tid d (GotFrame e rest), PumpWritten tid d WriteOk] = Some ?b"
    using assms(4,6,8,9) a ends by (simp add: can_write_def)
  have "r = WriteFailed 0 \<and> pumps s2 tid d = PumpEnded \<and>
      (\<exists>s3. server_move s2 (PumpFrame tid (\<not> d) NoFrame) = Some s3 \<and> pumps s3 tid (\<not> d) = PumpEnded \<and>
        pumps s3 tid d = PumpEnded \<and> is_open (socks s3 f))"
    if mv2: "server_move ?b (PumpWritten tid d r) = Some s2" for r s2
  proof -
    have r: "r = WriteFailed 0" and s2: "s2 = pump_written ?b tid d f t r"
      using mv2 ends b(1,3) by (auto simp: can_write_def unusable_def split: if_splits)
    have "pumps s2 tid d = PumpEnded" "is_open (socks s2 f)" "pumps s2 tid (\<not> d) = PumpReading"
      "pairs s2 tid = Some (m\<lparr>dead := True\<rparr>)"
      using b ft unfolding s2 r by (simp_all add: pump_written_def Let_def)
    moreover from this have "pump_from s2 tid (\<not> d) = Some t" using ends(5) b(5) by (simp add: pump_from_def)
    ultimately show ?thesis using r by (simp add: pump_frame_def pump_break_pc)
  qed
  with mv b(1) show ?thesis by blast
qed

theorem relay_eof_frame_leaks_sender_witness:
  "\<exists>s s1. reach server_step server_start s \<and>
    play server_move s [PumpFrame demo_id False (GotFrame (mk_frame FRAME_EOF []) []), PumpWritten demo_id False WriteOk] = Some s1 \<and>
    \<not> is_open (socks s1 0)"
proof -
  have "played demo_pairing (\<lambda>s. (case pairs s demo_id of None \<Rightarrow> False
      | Some m \<Rightarrow> \<not> dead m \<and> mb m = Some 0 \<and> mc m = Some 1) \<and> \<not> unusable (socks s 0) \<and> is_open (socks s 1) \<and>
      pumps s demo_id True = PumpReading \<and> pumps s demo_id False = PumpReading)"
    by code_simp
  from played_reach [OF this] obtain s m where s: "reach server_step server_start s" "pairs s demo_id = Some m"
    "\<not> dead m" "mb m = Some 0" "mc m = Some 1" "\<not> unusable (socks s 0)" "is_open (socks s 1)"
    "pumps s demo_id True = PumpReading" "pumps s demo_id False = PumpReading"
    by (auto split: option.splits)
  have ends: "pump_from s demo_id False = Some 1" "pump_to s demo_id False = Some 0" "pumps s demo_id (\<not> False) = PumpReading"
    using s by (simp_all add: pump_from_def pump_to_def)
  have e: "frame_method (mk_frame FRAME_EOF []) = FRAME_EOF" by (simp add: mk_frame_def)
  from relay_eof_frame_leaks_sender [OF s(1-3) ends(1,2) s(9) ends(3) s(7,6) e, of "[]"] s(1) show ?thesis
    by blast
qed

text \<open>
  Property C36. A role of an id can be taken once in the life of the server. Whatever happens after a slot was
  filled (disconnects, the end of the pair), a later connection that registers the same id
  and role is rejected: it enters no slot, is sent a bare EOF, and its socket is closed.
\<close>

theorem relay_role_taken_for_good:
  assumes "reach server_step s t" "pairs s tid = Some m"
    and "role = CHR ''B'' \<and> mb m \<noteq> None \<or> role = CHR ''C'' \<and> mc m \<noteq> None"
    and "regs t k = RegReading" "frame_method f = REGISTER" "parse_register (frame_body f) = Some (tid, role)"
  shows "let t1 = reg_frame t k (GotFrame f rest); t2 = reg_written t1 k k WriteOk
    in regs t1 k = RegRejecting \<and> reg_target t1 k = Some k \<and> pairs t2 = pairs t \<and> pumps t2 = pumps t \<and>
       written (socks t2 k) = written (socks t k) @ write_frame FRAME_EOF [] \<and> \<not> is_open (socks t2 k) \<and>
       regs t2 k = RegEnded"
proof -
  from server_reach_slots [OF assms(1)] assms(2) obtain m' where m': "pairs t tid = Some m'"
    "mb m \<noteq> None \<longrightarrow> mb m' = mb m" "mc m \<noteq> None \<longrightarrow> mc m' = mc m"
    unfolding slots_kept_def by blast
  then have "register t k tid role = set_reg (t\<lparr>peers := (peers t)(k \<mapsto> (tid, role)), pairs := (pairs t)(tid \<mapsto> m')\<rparr>) k RegRejecting"
    using assms(3) by (auto simp: register_def Let_def)
  then show ?thesis
    using assms(5,6) m'(1) by (simp add: reg_frame_def reg_target_def reg_written_def reg_drop_def set_reg_def upd_sock_def
        wrote_def sock_defs Let_def fun_upd_idem_iff)
qed

theorem relay_role_taken_for_good_witness:
  "\<exists>t. reach server_step server_start t \<and> \<not> is_open (socks t 0) \<and> \<not> is_open (socks t 1) \<and>
    (\<exists>m. pairs t demo_id = Some m \<and> dead m) \<and>
    regs (reg_frame t 2 (demo_register ''x B'')) 2 = RegRejecting"
proof -
  have "played (demo_pairing @ demo_disconnect) (\<lambda>s. (case pairs s demo_id of None \<Rightarrow> False
      | Some m \<Rightarrow> dead m \<and> mb m \<noteq> None) \<and> \<not> is_open (socks s 0) \<and> \<not> is_open (socks s 1) \<and> regs s 2 = RegReading)"
    by code_simp
  from played_reach [OF this] obtain t m where t: "reach server_step server_start t" "pairs t demo_id = Some m"
    "dead m" "mb m \<noteq> None" "\<not> is_open (socks t 0)" "\<not> is_open (socks t 1)" "regs t 2 = RegReading"
    by (auto split: option.splits)
  have "parse_register (bytes_of_string ''x B'') = Some (demo_id, CHR ''B'')" by code_simp
  then have "regs (reg_frame t 2 (demo_register ''x B'')) 2 = RegRejecting"
    using relay_role_taken_for_good [OF reach_start t(2) disjI1 t(7), of "CHR ''B''" "mk_frame REGISTER (bytes_of_string ''x B'')" "[]"] t(4)
    by (simp add: mk_frame_def demo_register_def Let_def)
  with t show ?thesis by blast
qed

end
