(* ===== verification/Relay_Link.thy ===== *)
theory Relay_Link
  imports Relay_Opening Relay_Visitor_Claims Relay_Provider_Claims Relay_Pairs
begin

section \<open>Visitor and provider together\<close>

text \<open>
  The specification of what connects a visitor and a provider: each side gets, from the beginning
  and in order, the frames that the other has sent, a NEW_SESSION as FORWARD_SESSION, and
  perhaps an EOF frame or the end of the connection at any moment. \<open>Relay_System\<close> shows when
  the server and the bytes of the two connections implement it, and that they need not
  when two writes of a node overlap.
\<close>

record link =
  at_b :: visitor
  at_c :: provider

definition link_start :: "mt19937_64 \<Rightarrow> link" where
  "link_start g = \<lparr>at_b = visitor_start g, at_c = provider_start\<rparr>"

definition heard :: "Frame list \<Rightarrow> Frame list" where
  "heard fs = filter (\<lambda>f. frame_method f \<noteq> FRAME_EOF) fs"

definition delivers :: "Frame list \<Rightarrow> Frame list \<Rightarrow> frame_read \<Rightarrow> bool" where
  "delivers coming got r = (case r of
     GotFrame f rest \<Rightarrow> frame_method f = FRAME_EOF \<or> prefix (heard got @ [f]) coming
   | _ \<Rightarrow> True)"

definition to_b :: "link \<Rightarrow> Frame list" where
  "to_b l = map (seen_as False) (map snd (provider.sent (at_c l)))"

definition to_c :: "link \<Rightarrow> Frame list" where
  "to_c l = map (seen_as True) (map snd (visitor.sent (at_b l)))"

fun link_move :: "link \<Rightarrow> visitor_event + provider_event \<Rightarrow> link option" where
  "link_move l (Inl e) =
     (if case e of ReaderGets r \<Rightarrow> delivers (to_b l) (visitor.seen (at_b l)) r | _ \<Rightarrow> True
      then map_option (\<lambda>v. l\<lparr>at_b := v\<rparr>) (visitor_move (at_b l) e) else None)"
| "link_move l (Inr e) =
     (if case e of FrameRead r \<Rightarrow> delivers (to_c l) (provider.seen (at_c l)) r | _ \<Rightarrow> True
      then map_option (\<lambda>p. l\<lparr>at_c := p\<rparr>) (provider_move (at_c l) e) else None)"

inductive link_step :: "link \<Rightarrow> link \<Rightarrow> bool" where
  link_moves: "link_move l e = Some m \<Longrightarrow> link_step l m"

inductive_cases link_stepE: "link_step l m"

interpretation link: played_moves link_step link_move
  by unfold_locales (rule link_moves)

definition link_run :: "mt19937_64 \<Rightarrow> link \<Rightarrow> bool" where
  "link_run g l \<longleftrightarrow> reach link_step (link_start g) l"

subsection \<open>The roles\<close>

definition roles_ok :: "link \<Rightarrow> bool" where
  "roles_ok l \<longleftrightarrow> (refs_inv (at_b l) \<and> upstream_inv (at_b l)) \<and> downstream_inv (at_b l) \<and> announced_inv (at_b l) \<and>
     provider_inv (at_c l) \<and> opened_inv (at_c l)"

lemma link_roles:
  assumes "link_move l e = Some m"
  shows "at_c m = at_c l \<and> visitor_step (at_b l) (at_b m) \<or> at_b m = at_b l \<and> provider_step (at_c l) (at_c m)"
  using assms by (cases e) (auto split: if_splits intro: visitor_moves provider_moves)

lemma link_keeps_roles: "link_move l e = Some m \<Longrightarrow> roles_ok l \<Longrightarrow> roles_ok m"
proof -
  assume m: "link_move l e = Some m" and ok: "roles_ok l"
  from link_roles [OF m] show "roles_ok m"
  proof (elim disjE conjE)
    assume c: "at_c m = at_c l" and s: "visitor_step (at_b l) (at_b m)"
    from ok show ?thesis
      using visitor_upstream.kept [OF s] visitor_downstream.kept [OF s] visitor_announced.kept [OF s]
      unfolding roles_ok_def c by blast
  next
    assume b: "at_b m = at_b l" and s: "provider_step (at_c l) (at_c m)"
    from ok show ?thesis
      using provider_kept.kept [OF s] provider_opened.kept [OF s] unfolding roles_ok_def b by blast
  qed
qed

lemma link_run_roles: "link_run g l \<Longrightarrow> visitor_run g (at_b l) \<and> provider_run (at_c l) \<and> roles_ok l"
  unfolding link_run_def
proof (induction rule: reach.induct)
  case reach_start
  have "visitor_run g (visitor_start g)" "provider_run provider_start"
    unfolding visitor_run_def provider_run_def by (rule reach.reach_start)+
  then show ?case
    using refs_start upstream_start downstream_start announced_start provider_inv_start opened_start
    by (simp add: link_start_def roles_ok_def)
next
  case (reach_step l m)
  from reach_step.hyps(2) obtain e where e: "link_move l e = Some m" by (auto elim: link_stepE)
  from link_roles [OF e] reach_step.IH have "visitor_run g (at_b m) \<and> provider_run (at_c m)"
    unfolding visitor_run_def provider_run_def by (auto intro: reach.reach_step)
  with link_keeps_roles [OF e] reach_step.IH show ?case by blast
qed

subsection \<open>Data is not touched on the way\<close>

lemma is_data_seen_as [simp]: "is_data u (seen_as d f) = is_data u f"
  by (auto simp: is_data_def seen_as_def mk_frame_def method_defs)

lemma data_for_seen_as [simp]: "data_for u (map (seen_as d) fs) = data_for u fs"
proof -
  have body: "is_data u f \<Longrightarrow> frame_body (seen_as d f) = frame_body f" for f
    by (auto simp: is_data_def seen_as_def method_defs)
  show ?thesis by (induction fs) (simp_all add: data_for_def body)
qed

lemma data_for_heard [simp]: "data_for u (heard fs) = data_for u fs"
proof -
  have "filter (\<lambda>f. is_data u f \<and> frame_method f \<noteq> FRAME_EOF) fs = filter (is_data u) fs"
    by (rule filter_cong) (auto simp: is_data_def method_defs)
  then show ?thesis by (simp add: data_for_def heard_def conj_commute)
qed

lemma heard_append: "heard (fs @ gs) = heard fs @ heard gs"
  by (simp add: heard_def)

subsection \<open>Session and client have the same number\<close>

definition delivered :: "link \<Rightarrow> bool" where
  "delivered l \<longleftrightarrow> prefix (heard (visitor.seen (at_b l))) (to_b l) \<and> prefix (heard (provider.seen (at_c l))) (to_c l)"

abbreviation name_b :: "link \<Rightarrow> nat \<Rightarrow> string" where
  "name_b l k \<equiv> ClientSession.uuid (objects (at_b l) k)"

abbreviation name_c :: "link \<Rightarrow> nat \<Rightarrow> string" where
  "name_c l k \<equiv> SessionState.uuid (states (at_c l) k)"

lemma forwarded_opens:
  assumes "roles_ok l"
  shows "map (string_of_bytes \<circ> frame_body) (filter (\<lambda>f. frame_method f = FORWARD_SESSION) (to_c l)) =
    map (name_b l) [0..<visitor.made (at_b l)]"
proof -
  let ?out = "visitor.sent (at_b l)"
  have fw: "frame_method (seen_as True (snd p)) = FORWARD_SESSION \<longleftrightarrow> frame_method (snd p) = NEW_SESSION" if "p \<in> set ?out" for p
  proof -
    have "(fst p, snd p) \<in> set ?out" using that by simp
    with assms have "frame_method (snd p) \<in> {NEW_SESSION, DATA, DATA_EOF, SESSION_CLOSE}"
      unfolding roles_ok_def using visitor_methods by blast
    then show ?thesis by (auto simp: seen_as_def mk_frame_def method_defs)
  qed
  have "filter (\<lambda>f. frame_method f = FORWARD_SESSION) (to_c l) =
      map (\<lambda>p. seen_as True (snd p)) (filter (\<lambda>p. frame_method (seen_as True (snd p)) = FORWARD_SESSION) ?out)"
    by (simp add: to_c_def filter_map comp_def)
  also have "filter (\<lambda>p. frame_method (seen_as True (snd p)) = FORWARD_SESSION) ?out =
      filter (\<lambda>p. frame_method (snd p) = NEW_SESSION) ?out"
    by (rule filter_cong [OF refl]) (rule fw)
  also have "\<dots> = map (announcement (at_b l)) [0..<visitor.made (at_b l)]"
    using assms by (simp add: roles_ok_def announced_inv_def)
  finally show ?thesis
    by (simp add: comp_def announcement_def seen_as_def mk_frame_def method_defs)
qed

lemma forward_heard: "filter (\<lambda>f. frame_method f = FORWARD_SESSION) (heard fs) = filter (\<lambda>f. frame_method f = FORWARD_SESSION) fs"
  unfolding heard_def filter_filter by (rule filter_cong) (auto simp: method_defs)

lemma prefix_filter: "prefix xs ys \<Longrightarrow> prefix (filter P xs) (filter P ys)"
  by (auto simp: prefix_def)

lemma names_prefix:
  assumes "roles_ok l" "delivered l"
  shows "prefix (names (at_c l)) (map (name_b l) [0..<visitor.made (at_b l)])"
proof -
  have "prefix (filter (\<lambda>f. frame_method f = FORWARD_SESSION) (provider.seen (at_c l)))
      (filter (\<lambda>f. frame_method f = FORWARD_SESSION) (to_c l))"
    using prefix_filter [of "heard (provider.seen (at_c l))" "to_c l" "\<lambda>f. frame_method f = FORWARD_SESSION"] assms(2)
    by (simp add: forward_heard delivered_def)
  then have "prefix (map (string_of_bytes \<circ> frame_body) (filter (\<lambda>f. frame_method f = FORWARD_SESSION) (provider.seen (at_c l))))
      (map (string_of_bytes \<circ> frame_body) (filter (\<lambda>f. frame_method f = FORWARD_SESSION) (to_c l)))"
    by (rule map_mono_prefix)
  then show ?thesis using assms(1) unfolding forwarded_opens [OF assms(1)] by (simp add: roles_ok_def opened_inv_def)
qed

lemma session_is_client:
  assumes "roles_ok l" "delivered l" "k < provider.made (at_c l)"
  shows "k < visitor.made (at_b l)" "name_c l k = name_b l k"
proof -
  note p = names_prefix [OF assms(1,2)]
  have len: "length (names (at_c l)) = provider.made (at_c l)" by (simp add: names_def)
  with prefix_length_le [OF p] assms(3) show k: "k < visitor.made (at_b l)" by simp
  have "names (at_c l) ! k = map (name_b l) [0..<visitor.made (at_b l)] ! k"
    using p assms(3) len by (auto simp: prefix_def nth_append)
  then show "name_c l k = name_b l k" using k assms(3) by (simp add: names_def)
qed

lemma link_named: "roles_ok l \<Longrightarrow> delivered l \<Longrightarrow> named_ok (at_c l)"
proof -
  assume ok: "roles_ok l" and d: "delivered l"
  have "length (name_c l k) = UUID_BYTES" if "k < provider.made (at_c l)" for k
    using session_is_client [OF ok d that] ok uuid_length by (simp add: roles_ok_def)
  then show ?thesis using ok by (auto simp: named_ok_def names_def roles_ok_def)
qed

subsection \<open>The link delivers in order\<close>

lemma heard_gets:
  assumes "delivers coming got (GotFrame f rest)" "prefix (heard got) coming"
  shows "prefix (heard (got @ [f])) coming"
  using assms by (auto simp: delivers_def heard_def)

lemma to_c_mono: "prefix (visitor.sent (at_b l)) (visitor.sent (at_b m)) \<Longrightarrow> prefix (to_c l) (to_c m)"
  unfolding to_c_def by (intro map_mono_prefix)

lemma to_b_mono: "prefix (provider.sent (at_c l)) (provider.sent (at_c m)) \<Longrightarrow> prefix (to_b l) (to_b m)"
  unfolding to_b_def by (intro map_mono_prefix)

text \<open>A move of one side: what it reads has been delivered, and the other side is as it was.\<close>

lemma link_move_b:
  assumes "link_move l (Inl e) = Some m"
  shows "visitor_turn (at_b l) e = Some (at_b m)" "at_c m = at_c l"
    "gets_frames e = [f] \<Longrightarrow> prefix (heard (visitor.seen (at_b l))) (to_b l) \<Longrightarrow> prefix (heard (visitor.seen (at_b l) @ [f])) (to_b l)"
  using assms by (auto simp: visitor_move_def split: if_splits)
    (auto simp: gets_frames_def intro: heard_gets split: visitor_event.splits frame_read.splits)

lemma link_move_c:
  assumes "link_move l (Inr e) = Some m"
  shows "provider_move (at_c l) e = Some (at_c m)" "at_b m = at_b l"
    "read_frames_of e = [f] \<Longrightarrow> delivers (to_c l) (provider.seen (at_c l)) (GotFrame f [])"
  using assms by (auto split: if_splits)
    (auto simp: read_frames_of_def delivers_def split: provider_event.splits frame_read.splits)

lemma delivered_keeps:
  assumes "link_move l e = Some m" "delivered l" "roles_ok l"
  shows "delivered m"
proof (cases e)
  case (Inl b)
  note m = link_move_b [OF assms(1) [unfolded Inl]]
  have sent: "prefix (to_c l) (to_c m)"
    using to_c_mono visitor_turn_sent [OF m(1)] assms(3) by (auto simp: roles_ok_def)
  have seen: "visitor.seen (at_b m) = visitor.seen (at_b l) @ gets_frames b" by (rule visitor_turn_seen [OF m(1)])
  have "gets_frames b = [] \<or> (\<exists>f. gets_frames b = [f])" by (auto simp: gets_frames_def split: visitor_event.splits frame_read.splits)
  then have "prefix (heard (visitor.seen (at_b m))) (to_b l)"
    using m(3) assms(2) unfolding seen delivered_def by auto
  moreover have "to_b m = to_b l" by (simp add: to_b_def m(2))
  ultimately show ?thesis using sent assms(2) unfolding delivered_def m(2) by (auto intro: prefix_order.trans)
next
  case (Inr c)
  note m = link_move_c [OF assms(1) [unfolded Inr]]
  note n = provider_move_names [OF m(1)]
  have "read_frames_of c = [] \<or> (\<exists>f. read_frames_of c = [f])"
    by (auto simp: read_frames_of_def split: provider_event.splits frame_read.splits)
  then have "prefix (heard (provider.seen (at_c m))) (to_c l)"
    using heard_gets [OF m(3)] assms(2) unfolding n(1) delivered_def by auto
  moreover have "to_c m = to_c l" by (simp add: to_c_def m(2))
  moreover have "prefix (to_b l) (to_b m)" by (rule to_b_mono [OF n(2)])
  ultimately show ?thesis using assms(2) unfolding delivered_def m(2) by (auto intro: prefix_order.trans)
qed

subsection \<open>Nothing comes for a uuid before it is used\<close>

definition fresh_b :: "link \<Rightarrow> bool" where
  "fresh_b l \<longleftrightarrow> (\<forall>k<visitor.made (at_b l). (\<forall>j<k. name_b l j \<noteq> name_b l k) \<longrightarrow>
     data_for (name_b l k) (take (visitor.since (at_b l) k) (visitor.seen (at_b l))) = [])"

definition fresh_c :: "link \<Rightarrow> bool" where
  "fresh_c l \<longleftrightarrow> (\<forall>k<provider.made (at_c l). (\<forall>j<k. name_c l j \<noteq> name_c l k) \<longrightarrow>
     data_for (name_c l k) (take (provider.since (at_c l) k) (provider.seen (at_c l))) = [])"

text \<open>No session of the provider has the uuid, so the visitor has seen no data for it.\<close>

lemma unused_data_b:
  assumes ok: "roles_ok l" "delivered l" and u: "\<And>j. j < visitor.made (at_b l) \<Longrightarrow> name_b l j \<noteq> u"
  shows "data_for u (visitor.seen (at_b l)) = []"
proof -
  have "data_for u (map snd (provider.sent (at_c l))) = []"
    using session_is_client [OF ok] u by (intro provider_mux.no_session_data [OF link_named [OF ok]]) metis
  moreover have "prefix (data_for u (heard (visitor.seen (at_b l)))) (data_for u (to_b l))"
    using ok(2) by (intro data_for_prefix) (simp add: delivered_def)
  ultimately show ?thesis by (simp add: to_b_def del: map_map)
qed

text \<open>A FORWARD_SESSION that the provider reads is the next announcement, and no data for its uuid came before.\<close>

lemma forward_is_next:
  assumes ok: "roles_ok l" "delivered l" and f: "delivers (to_c l) (provider.seen (at_c l)) (GotFrame f rest)" "frame_method f = FORWARD_SESSION"
  shows "\<exists>xs ys. visitor.sent (at_b l) = xs @ announcement (at_b l) (provider.made (at_c l)) # ys \<and>
    heard (provider.seen (at_c l)) = map (seen_as True) (map snd xs) \<and> string_of_bytes (frame_body f) = name_b l (provider.made (at_c l))"
proof -
  let ?out = "visitor.sent (at_b l)" and ?new = "\<lambda>p :: nat \<times> Frame. frame_method (snd p) = NEW_SESSION"
  have "prefix (heard (provider.seen (at_c l)) @ [f]) (map (seen_as True) (map snd ?out))"
    using f by (simp add: delivers_def to_c_def method_defs)
  then obtain xs p ys where out: "?out = xs @ p # ys" and xs: "heard (provider.seen (at_c l)) = map (seen_as True) (map snd xs)"
    and p: "f = seen_as True (snd p)"
    by (fastforce simp: prefix_def map_eq_append_conv map_eq_Cons_conv append_eq_append_conv2 Cons_eq_append_conv)
  have meth: "frame_method (snd q) \<in> {NEW_SESSION, DATA, DATA_EOF, SESSION_CLOSE}" if "q \<in> set ?out" for q
  proof -
    have "(fst q, snd q) \<in> set ?out" using that by simp
    with ok(1) show ?thesis unfolding roles_ok_def using visitor_methods by blast
  qed
  have new: "?new p" using f(2) meth [of p] by (auto simp: p out seen_as_def mk_frame_def method_defs split: if_splits)
  have fw: "frame_method (seen_as True (snd q)) = FORWARD_SESSION \<longleftrightarrow> ?new q" if "q \<in> set ?out" for q
    using meth [OF that] by (auto simp: seen_as_def mk_frame_def method_defs)
  have "filter (\<lambda>f. frame_method f = FORWARD_SESSION) (heard (provider.seen (at_c l))) =
      map (\<lambda>q. seen_as True (snd q)) (filter (\<lambda>q. frame_method (seen_as True (snd q)) = FORWARD_SESSION) xs)"
    by (simp add: xs filter_map comp_def)
  also have "filter (\<lambda>q. frame_method (seen_as True (snd q)) = FORWARD_SESSION) xs = filter ?new xs"
    by (rule filter_cong [OF refl]) (rule fw, simp add: out)
  finally have n: "length (filter (\<lambda>f. frame_method f = FORWARD_SESSION) (provider.seen (at_c l))) = length (filter ?new xs)"
    by (simp add: forward_heard)
  have "length (names (at_c l)) = length (filter (\<lambda>f. frame_method f = FORWARD_SESSION) (provider.seen (at_c l)))"
    using ok(1) by (simp add: roles_ok_def opened_inv_def)
  with n have len: "length (filter ?new xs) = provider.made (at_c l)" by (simp add: names_def)
  have e: "map (announcement (at_b l)) [0..<visitor.made (at_b l)] = filter ?new xs @ p # filter ?new ys"
    using ok(1) new by (simp add: roles_ok_def announced_inv_def out)
  have "provider.made (at_c l) < visitor.made (at_b l)" using arg_cong [OF e, of length] len by simp
  then have pk: "p = announcement (at_b l) (provider.made (at_c l))"
    using arg_cong [OF e, of "\<lambda>ps. ps ! provider.made (at_c l)"] len by (simp add: nth_append)
  then have "string_of_bytes (frame_body f) = name_b l (provider.made (at_c l))"
    by (simp add: p announcement_def seen_as_def mk_frame_def method_defs)
  with out xs pk show ?thesis by blast
qed

lemma unused_data_c:
  assumes ok: "roles_ok l" "delivered l" and f: "delivers (to_c l) (provider.seen (at_c l)) (GotFrame f rest)" "frame_method f = FORWARD_SESSION"
    and u: "\<And>j. j < provider.made (at_c l) \<Longrightarrow> name_c l j \<noteq> string_of_bytes (frame_body f)"
  shows "data_for (string_of_bytes (frame_body f)) (provider.seen (at_c l)) = []"
proof -
  let ?u = "string_of_bytes (frame_body f)" and ?k = "provider.made (at_c l)"
  obtain xs ys where xs: "visitor.sent (at_b l) = xs @ announcement (at_b l) ?k # ys"
    "heard (provider.seen (at_c l)) = map (seen_as True) (map snd xs)"
    using forward_is_next [OF ok f] by blast
  have v: "refs_inv (at_b l) \<and> upstream_inv (at_b l)" and inv: "announced_inv (at_b l)" using ok(1) by (simp_all add: roles_ok_def)
  have "\<not> is_data ?u g" if "(j, g) \<in> set xs" for j g
  proof -
    have "in_order (xs @ (?k, mk_frame NEW_SESSION (build_uuid_body (name_b l ?k))) # ys)"
      using inv xs(1) by (simp add: announced_inv_def announcement_def)
    then have "\<forall>p\<in>set xs. fst p < ?k" by (rule in_order_before) (simp add: mk_frame_def)
    then have j: "j < ?k" using that by auto
    have "(j, g) \<in> set (visitor.sent (at_b l))" using that xs(1) by simp
    from visitor_mux.sender(2) [OF v this] session_is_client(2) [OF ok j] u [OF j] show ?thesis by simp
  qed
  then have "data_for ?u (map snd xs) = []" by (intro data_for_none) auto
  then have "data_for ?u (heard (provider.seen (at_c l))) = []" unfolding xs(2) by (simp del: map_map)
  then show ?thesis by simp
qed

lemma fresh_b_keeps:
  assumes m: "link_move l e = Some m" and ok: "roles_ok l" "delivered l" and fresh: "fresh_b l"
  shows "fresh_b m"
proof (cases e)
  case (Inr c)
  then show ?thesis using fresh link_move_c(2) [of l c m] m by (simp add: fresh_b_def)
next
  case (Inl b)
  note b = link_move_b(1) [OF m [unfolded Inl]]
  have refs: "refs_inv (at_b l)" and since: "k < visitor.made (at_b l) \<Longrightarrow> visitor.since (at_b l) k \<le> length (visitor.seen (at_b l))" for k
    using ok(1) by (simp_all add: roles_ok_def downstream_inv_def downstream_ok_def)
  show ?thesis
  proof (cases "b = ClientAccepted")
    case False
    from visitor_turn_same [OF b False refs] visitor_turn_seen [OF b] fresh since show ?thesis
      by (simp add: fresh_b_def same_clients_def)
  next
    case True
    then have w: "at_b m = client_accepted (at_b l)" using b by (auto split: if_splits)
    obtain u g where g: "generate_uuid (rng (at_b l)) = (u, g)" by (rule prod.exhaust)
    note s = client_accepted_simps [OF g]
    have "data_for u (visitor.seen (at_b l)) = []" if "\<forall>j<visitor.made (at_b l). name_b l j \<noteq> u"
      using unused_data_b [OF ok] that by blast
    then show ?thesis using fresh unfolding fresh_b_def w s by (auto simp: less_Suc_eq)
  qed
qed

lemma fresh_c_keeps:
  assumes m: "link_move l e = Some m" and ok: "roles_ok l" "delivered l" and fresh: "fresh_c l"
  shows "fresh_c m"
proof (cases e)
  case (Inl b)
  then show ?thesis using fresh link_move_b(2) [of l b m] m by (simp add: fresh_c_def)
next
  case (Inr c)
  note c = link_move_c [OF m [unfolded Inr]]
  note n = provider_move_names [OF c(1)]
  have since: "k < provider.made (at_c l) \<Longrightarrow> provider.since (at_c l) k \<le> length (provider.seen (at_c l))" for k
    using ok(1) by (simp add: roles_ok_def provider_inv_def session_ok_def base_ok_def Let_def)
  show ?thesis
  proof (cases "\<forall>f\<in>set (read_frames_of c). frame_method f \<noteq> FORWARD_SESSION")
    case True
    with n(1,3) fresh since show ?thesis by (simp add: fresh_c_def)
  next
    case False
    then obtain f where f: "read_frames_of c = [f]" "frame_method f = FORWARD_SESSION"
      by (auto simp: read_frames_of_def split: provider_event.splits frame_read.splits)
    let ?u = "string_of_bytes (frame_body f)" and ?p = "(at_c l)\<lparr>seen := provider.seen (at_c l) @ [f]\<rparr>"
    have q: "at_c m = forward_session ?p (frame_body f)" using n(4) [OF f] .
    have "data_for ?u (provider.seen (at_c l) @ [f]) = []" if "\<forall>j<provider.made (at_c l). name_c l j \<noteq> ?u"
      using unused_data_c [OF ok c(3) [OF f(1)] f(2)] that f(2) by (simp add: data_for_snoc data_of_method method_defs)
    then show ?thesis using fresh since unfolding fresh_c_def q forward_session_simps by (auto simp: less_Suc_eq)
  qed
qed

definition link_inv :: "link \<Rightarrow> bool" where
  "link_inv l \<longleftrightarrow> roles_ok l \<and> delivered l \<and> fresh_b l \<and> fresh_c l"

interpretation link_kept: kept_invariant link_step link_inv
proof unfold_locales
  fix l m assume "link_step l m" and inv: "link_inv l"
  then obtain e where e: "link_move l e = Some m" by (auto elim: link_stepE)
  then show "link_inv m"
    using inv link_keeps_roles delivered_keeps fresh_b_keeps fresh_c_keeps unfolding link_inv_def by blast
qed

lemma link_run_inv: "link_run g l \<Longrightarrow> link_inv l"
  unfolding link_run_def
proof (rule link_kept.reach_ok)
  have "link_run g (link_start g)" unfolding link_run_def by (rule reach.reach_start)
  then show "link_inv (link_start g)"
    using link_run_roles by (simp add: link_inv_def) (simp add: delivered_def fresh_b_def fresh_c_def link_start_def
      visitor_start_def provider_start_def heard_def)
qed

end
