(* ===== verification/Relay_Link_Claims.thy ===== *)
theory Relay_Link_Claims
  imports Relay_Link
begin

section \<open>What the link promises from end to end\<close>

text \<open>
  Bytes go from client to target and back when the frames arrive as the link has them. The lemmas are about a client whose uuid no other
  client of the visitor has; the uuids are random. \<open>Relay_System_Claims\<close> has the properties of
  the program.
\<close>

subsection \<open>The two directions\<close>

lemma link_inv_parts:
  assumes "link_run g l"
  shows "roles_ok l" "delivered l" "fresh_b l" "fresh_c l" "visitor_run g (at_b l)" "provider_run (at_c l)"
  using link_run_inv [OF assms] link_run_roles [OF assms] by (simp_all add: link_inv_def)

definition only_user :: "link \<Rightarrow> nat \<Rightarrow> bool" where
  "only_user l k \<longleftrightarrow> k < visitor.made (at_b l) \<and> (\<forall>j<visitor.made (at_b l). j \<noteq> k \<longrightarrow> name_b l j \<noteq> name_b l k)"

lemma only_user_session:
  assumes "link_run g l" "only_user l k" "j < provider.made (at_c l)"
  shows "name_c l j = name_b l k \<longleftrightarrow> j = k"
  using session_is_client [OF link_inv_parts(1,2) [OF assms(1)] assms(3)] assms(2) by (auto simp: only_user_def)

text \<open>What the provider has sent for the uuid is what it has read from the target of the session.\<close>

lemma sent_to_b:
  assumes run: "link_run g l" and k: "only_user l k"
  shows "data_for (name_b l k) (to_b l) = provider.taken (at_c l) k"
proof -
  note ok = link_inv_parts [OF run]
  have named: "named_ok (at_c l)" by (rule link_named [OF ok(1,2)])
  have "data_for (name_b l k) (map snd (provider.sent (at_c l))) = provider.taken (at_c l) k"
  proof (cases "k < provider.made (at_c l)")
    case True
    then have "name_c l k = name_b l k" using only_user_session [OF run k] by simp
    then show ?thesis
      using provider_mux.session_data [OF named True] only_user_session [OF run k] by metis
  next
    case False
    have "data_for (name_b l k) (map snd (provider.sent (at_c l))) = []"
      using only_user_session [OF run k] False by (intro provider_mux.no_session_data [OF named]) auto
    moreover have "provider.taken (at_c l) k = []" using False ok(1) by (simp add: roles_ok_def provider_inv_def)
    ultimately show ?thesis by simp
  qed
  then show ?thesis by (simp add: to_b_def del: map_map)
qed

lemma sent_to_c:
  assumes run: "link_run g l" and k: "only_user l k"
  shows "data_for (name_b l k) (to_c l) = visitor.taken (at_b l) k"
proof -
  have ok: "refs_inv (at_b l) \<and> upstream_inv (at_b l)" using link_inv_parts(1) [OF run] by (simp add: roles_ok_def)
  have "data_for (name_b l k) (map snd (visitor.sent (at_b l))) = visitor.taken (at_b l) k"
    using k by (intro visitor_mux.session_data [OF ok]) (auto simp: only_user_def)
  then show ?thesis by (simp add: to_c_def del: map_map)
qed

text \<open>All data that has come for the uuid has come since the session is there.\<close>

lemma came_to_b:
  assumes run: "link_run g l" and k: "only_user l k"
  shows "data_for (name_b l k) (drop (visitor.since (at_b l) k) (visitor.seen (at_b l))) = data_for (name_b l k) (visitor.seen (at_b l))"
proof -
  have "data_for (name_b l k) (take (visitor.since (at_b l) k) (visitor.seen (at_b l))) = []"
    using link_inv_parts(3) [OF run] k by (auto simp: fresh_b_def only_user_def)
  then show ?thesis using data_for_split [of "name_b l k" "visitor.since (at_b l) k" "visitor.seen (at_b l)"] by simp
qed

lemma came_to_c:
  assumes run: "link_run g l" and k: "only_user l k" "k < provider.made (at_c l)"
  shows "data_for (name_c l k) (drop (provider.since (at_c l) k) (provider.seen (at_c l))) = data_for (name_b l k) (provider.seen (at_c l))"
proof -
  have n: "name_c l k = name_b l k" using only_user_session [OF run k] by simp
  have "name_c l j \<noteq> name_c l k" if "j < k" for j
    using only_user_session [OF run k(1), of j] k(2) that n by simp
  then have "data_for (name_c l k) (take (provider.since (at_c l) k) (provider.seen (at_c l))) = []"
    using link_inv_parts(4) [OF run] k(2) unfolding fresh_c_def by blast
  then show ?thesis using data_for_split [of "name_c l k" "provider.since (at_c l) k" "provider.seen (at_c l)"] n by simp
qed

lemma written_to_client:
  assumes run: "link_run g l" and k: "only_user l k"
  shows "prefix (written (client (objects (at_b l) k))) (data_for (name_b l k) (visitor.seen (at_b l)))"
    "visitor.sessions (at_b l) (name_b l k) = Some k \<Longrightarrow> reader (at_b l) = ReaderReading \<Longrightarrow>
      written (client (objects (at_b l) k)) = data_for (name_b l k) (visitor.seen (at_b l))"
proof -
  have "downstream_inv (at_b l)" "k < visitor.made (at_b l)"
    using link_inv_parts(1) [OF run] k by (simp_all add: roles_ok_def only_user_def)
  note down = downstream_written [OF this, unfolded arrived_def came_to_b [OF run k]]
  show "prefix (written (client (objects (at_b l) k))) (data_for (name_b l k) (visitor.seen (at_b l)))"
    "visitor.sessions (at_b l) (name_b l k) = Some k \<Longrightarrow> reader (at_b l) = ReaderReading \<Longrightarrow>
      written (client (objects (at_b l) k)) = data_for (name_b l k) (visitor.seen (at_b l))"
    using down by blast+
qed

lemma written_to_target:
  assumes run: "link_run g l" and k: "only_user l k" "k < provider.made (at_c l)"
  shows "mset (written_to (at_c l) k) \<subseteq># mset (data_for (name_b l k) (provider.seen (at_c l)))"
    "provider.sessions (at_c l) (name_c l k) = Some k \<Longrightarrow> procs (at_c l) k = RemoteReading \<Longrightarrow> frames (at_c l) = FramesReading \<Longrightarrow>
      mset (written_to (at_c l) k) = mset (data_for (name_b l k) (provider.seen (at_c l)))"
proof -
  have "provider_inv (at_c l)" using link_inv_parts(1) [OF run] by (simp add: roles_ok_def)
  note w = provider_written [OF this k(2), unfolded came_for_def came_to_c [OF run k] on_map_def]
  show "mset (written_to (at_c l) k) \<subseteq># mset (data_for (name_b l k) (provider.seen (at_c l)))"
    "provider.sessions (at_c l) (name_c l k) = Some k \<Longrightarrow> procs (at_c l) k = RemoteReading \<Longrightarrow> frames (at_c l) = FramesReading \<Longrightarrow>
      mset (written_to (at_c l) k) = mset (data_for (name_b l k) (provider.seen (at_c l)))"
    using w by blast+
qed

subsection \<open>A run\<close>

text \<open>A client sends 7, 8 to a target, which answers 9.\<close>

definition answered :: "frame_read" where
  "answered = GotFrame (mk_frame SESSION_OK (build_uuid_body (client_uuid (mt_seed 5)))) []"

definition demo_moves :: "(visitor_event + provider_event) list" where
  "demo_moves = (let u = client_uuid (mt_seed 5) in
    [Inl (PumpReads 0 ReadFine [7, 8]), Inl (PumpSent 0), Inr (FrameRead (opens u)), Inr (FrameRead (carries u [7, 8])),
     Inr (Connected 0 True), Inr (Sent 0), Inr (DrainWritten 0 WriteOk), Inr (RemoteRead 0 ReadFine [9]), Inr (Sent 0),
     Inl (ReaderGets answered), Inl (ReaderGets (carries u [9])), Inl (ReaderWrote WriteOk)])"

definition demo_opening :: "(visitor_event + provider_event) list" where
  "demo_opening = [Inl ClientAccepted, Inl ClientAnnounced, Inl (PumpStarts 0)]"

lemma link_opens: "play link_move (link_start g) demo_opening = Some \<lparr>at_b = one_client g, at_c = provider_start\<rparr>"
  by (auto simp: demo_opening_def link_start_def one_client_def visitor_move_def visitor_start_def client_accepted_def client_announced_def Let_def
      send_frame_def set_client_pc_def pump_loop_def new_client_def split: prod.split)

lemma demo_link:
  "\<exists>l. play link_move (link_start (mt_seed 5)) (demo_opening @ demo_moves) = Some l \<and> only_user l 0 \<and> provider.made (at_c l) = 1 \<and>
    written (client (objects (at_b l) 0)) = [9] \<and> written_to (at_c l) 0 = [7, 8] \<and>
    heard (visitor.seen (at_b l)) = to_b l \<and> heard (provider.seen (at_c l)) = to_c l \<and>
    reader (at_b l) = ReaderReading \<and> frames (at_c l) = FramesReading \<and> procs (at_c l) 0 = RemoteReading \<and>
    visitor.sessions (at_b l) (name_b l 0) = Some 0 \<and> provider.sessions (at_c l) (name_c l 0) = Some 0"
proof -
  let ?u = "client_uuid (mt_seed 5)"
  have u: "length ?u = UUID_BYTES" by (rule client_uuid_length)
  have "\<exists>l. play link_move \<lparr>at_b = one_client (mt_seed 5), at_c = provider_start\<rparr> demo_moves = Some l \<and>
    only_user l 0 \<and> provider.made (at_c l) = 1 \<and>
    written (client (objects (at_b l) 0)) = [9] \<and> written_to (at_c l) 0 = [7, 8] \<and>
    heard (visitor.seen (at_b l)) = to_b l \<and> heard (provider.seen (at_c l)) = to_c l \<and>
    reader (at_b l) = ReaderReading \<and> frames (at_c l) = FramesReading \<and> procs (at_c l) 0 = RemoteReading \<and>
    visitor.sessions (at_b l) (name_b l 0) = Some 0 \<and> provider.sessions (at_c l) (name_c l 0) = Some 0"
    using uuid_data_fields [OF u] u
    by (simp add: demo_moves_def answered_def one_client_state provider_run_defs provider_start_def new_state_def Let_def
        visitor_move_def pump_read_def pump_sent_def pump_loop_def client_ops new_client_def reader_gets_def reader_frame_def
        reader_wrote_def delivers_def heard_def to_b_def to_c_def seen_as_def remote_of_def unusable_def fresh_sock_def
        read_delivers_def wrote_def sock_defs written_to_def only_user_def)
  then show ?thesis by (simp add: play_append link_opens)
qed

subsection \<open>From end to end\<close>

text \<open>
  On the link every session gets its own bytes. In every run of a paired visitor and
  provider, for a client whose uuid no other client has: what has been written to the client
  is, from the beginning and in order, what the provider has read from the target of the session with
  the same number; that session has the uuid of the client; and every byte that has been
  written to its target was read from the client. Nothing of another session is among them.
\<close>

lemma link_end_to_end:
  assumes run: "link_run g l" and k: "k < visitor.made (at_b l)"
    and single: "\<forall>j<visitor.made (at_b l). j \<noteq> k \<longrightarrow>
      ClientSession.uuid (objects (at_b l) j) \<noteq> ClientSession.uuid (objects (at_b l) k)"
  shows "prefix (written (client (objects (at_b l) k))) (provider.taken (at_c l) k) \<and>
    (k < provider.made (at_c l) \<longrightarrow>
      SessionState.uuid (states (at_c l) k) = ClientSession.uuid (objects (at_b l) k) \<and>
      mset (written_to (at_c l) k) \<subseteq># mset (visitor.taken (at_b l) k))"
proof -
  note ok = link_inv_parts [OF run]
  have only: "only_user l k" using k single by (simp add: only_user_def)
  have "prefix (data_for (name_b l k) (heard (visitor.seen (at_b l)))) (data_for (name_b l k) (to_b l))"
    using ok(2) by (intro data_for_prefix) (simp add: delivered_def)
  then have "prefix (data_for (name_b l k) (visitor.seen (at_b l))) (provider.taken (at_c l) k)"
    by (simp add: sent_to_b [OF run only])
  then have to_client: "prefix (written (client (objects (at_b l) k))) (provider.taken (at_c l) k)"
    by (rule prefix_order.trans [OF written_to_client(1) [OF run only]])
  have "mset (written_to (at_c l) k) \<subseteq># mset (visitor.taken (at_b l) k)" if c: "k < provider.made (at_c l)"
  proof -
    have "prefix (data_for (name_b l k) (heard (provider.seen (at_c l)))) (data_for (name_b l k) (to_c l))"
      using ok(2) by (intro data_for_prefix) (simp add: delivered_def)
    then have "mset (data_for (name_b l k) (provider.seen (at_c l))) \<subseteq># mset (visitor.taken (at_b l) k)"
      by (auto simp: sent_to_c [OF run only] prefix_def)
    then show ?thesis by (rule subset_mset.order_trans [OF written_to_target(1) [OF run only c]])
  qed
  then show ?thesis using to_client only_user_session [OF run only] by auto
qed

text \<open>
  On the link nothing is lost. For such a client: when the visitor has read every
  frame that the provider has sent, waits for the next and has the client on its map, the client has
  been written exactly the bytes that were read from its target; and when the provider has
  read every frame of the visitor, both of its coroutines wait for input and the session is
  on its map, the target has been written exactly the bytes, up to their order, that were read
  from the client.
\<close>

lemma link_complete:
  assumes run: "link_run g l" and k: "k < visitor.made (at_b l)"
    and single: "\<forall>j<visitor.made (at_b l). j \<noteq> k \<longrightarrow>
      ClientSession.uuid (objects (at_b l) j) \<noteq> ClientSession.uuid (objects (at_b l) k)"
  shows "(heard (visitor.seen (at_b l)) = to_b l \<and> reader (at_b l) = ReaderReading \<and>
      visitor.sessions (at_b l) (ClientSession.uuid (objects (at_b l) k)) = Some k \<longrightarrow>
      written (client (objects (at_b l) k)) = provider.taken (at_c l) k) \<and>
    (heard (provider.seen (at_c l)) = to_c l \<and> frames (at_c l) = FramesReading \<and> procs (at_c l) k = RemoteReading \<and>
      provider.sessions (at_c l) (SessionState.uuid (states (at_c l) k)) = Some k \<longrightarrow>
      mset (written_to (at_c l) k) = mset (visitor.taken (at_b l) k))"
proof (intro conjI impI)
  note ok = link_inv_parts [OF run]
  have only: "only_user l k" using k single by (simp add: only_user_def)
  assume a: "heard (visitor.seen (at_b l)) = to_b l \<and> reader (at_b l) = ReaderReading \<and> visitor.sessions (at_b l) (name_b l k) = Some k"
  then have "data_for (name_b l k) (visitor.seen (at_b l)) = provider.taken (at_c l) k"
    using data_for_heard [of "name_b l k" "visitor.seen (at_b l)"] sent_to_b [OF run only] by simp
  then show "written (client (objects (at_b l) k)) = provider.taken (at_c l) k"
    using a written_to_client(2) [OF run only] by simp
next
  note ok = link_inv_parts [OF run]
  have only: "only_user l k" using k single by (simp add: only_user_def)
  assume a: "heard (provider.seen (at_c l)) = to_c l \<and> frames (at_c l) = FramesReading \<and> procs (at_c l) k = RemoteReading \<and>
      provider.sessions (at_c l) (name_c l k) = Some k"
  have c: "k < provider.made (at_c l)" using a ok(1) unfolding roles_ok_def provider_inv_def by blast
  have "data_for (name_b l k) (provider.seen (at_c l)) = visitor.taken (at_b l) k"
    using a data_for_heard [of "name_b l k" "provider.seen (at_c l)"] sent_to_c [OF run only] by simp
  then show "mset (written_to (at_c l) k) = mset (visitor.taken (at_b l) k)"
    using a written_to_target(2) [OF run only c] by simp
qed

end
