(* ===== verification/Relay_Aconn.thy ===== *)
theory Relay_Aconn
  imports Relay_Pairs Relay_Node
begin

section \<open>The connection of a node with the server\<close>

text \<open>
  What happens to the frames that the coroutines of a node hand to \<^verbatim>\<open>aconn_write\<close> of
  \<^verbatim>\<open>relay.cpp\<close>. The strand runs the posted handlers in their order, and each of them builds
  its frame and starts an \<^verbatim>\<open>async_write\<close>. That is a composed operation: it hands the frame over in
  pieces, one \<^verbatim>\<open>async_write_some\<close> after the other, and the strand orders the handlers between the
  pieces but not the pieces of different frames. So two writes that are under way at the same
  time can mix their bytes. Every error of a write is dropped; it means that the connection
  takes no more bytes.
\<close>

subsection \<open>State and operations\<close>

text \<open>
  Writes are numbered in the order of the posts. \<open>line\<close> is what has gone out behind the
  REGISTER frame. \<open>overlapped\<close> records whether a piece of a write ever went out while an
  earlier write was not finished.
\<close>

record AConn =
  begun :: nat
  left :: "nat \<Rightarrow> ByteVector"
  line :: ByteVector
  broken :: bool
  overlapped :: bool

definition aconn_new :: AConn where
  "aconn_new = \<lparr>begun = 0, left = \<lambda>_. [], line = [], broken = False, overlapped = False\<rparr>"

definition aconn_begin :: "AConn \<Rightarrow> Frame \<Rightarrow> AConn" where
  "aconn_begin a f =
     (let frame = build_frame_bytes (frame_method f) (frame_body f)
      in a\<lparr>begun := begun a + 1, left := (left a)(begun a := frame)\<rparr>)"

definition aconn_write_some :: "AConn \<Rightarrow> nat \<Rightarrow> nat \<Rightarrow> AConn" where
  "aconn_write_some a i n =
     a\<lparr>left := (left a)(i := drop n (left a i)), line := line a @ take n (left a i),
       overlapped := overlapped a \<or> list_ex (\<lambda>j. left a j \<noteq> []) [0..<i]\<rparr>"

definition aconn_fails :: "AConn \<Rightarrow> nat \<Rightarrow> AConn" where
  "aconn_fails a i = a\<lparr>left := (left a)(i := []), broken := True\<rparr>"

datatype aconn_event = WriteBegins | WroteSome nat nat | WriteFails nat

fun aconn_move :: "AConn \<Rightarrow> Frame list \<Rightarrow> aconn_event \<Rightarrow> AConn option" where
  "aconn_move a posted WriteBegins =
     (if begun a < length posted then Some (aconn_begin a (posted ! begun a)) else None)"
| "aconn_move a posted (WroteSome i n) =
     (if i < begun a \<and> 0 < n \<and> n \<le> length (left a i) \<and> \<not> broken a then Some (aconn_write_some a i n) else None)"
| "aconn_move a posted (WriteFails i) = (if i < begun a \<and> left a i \<noteq> [] then Some (aconn_fails a i) else None)"

text \<open>The coroutine that posted the frame \<open>i\<close> resumes when its write is over.\<close>

definition write_over :: "AConn \<Rightarrow> nat \<Rightarrow> bool" where
  "write_over a i \<longleftrightarrow> i < begun a \<and> left a i = []"

subsection \<open>Without overlap the bytes are those of the frames, in order\<close>

definition aconn_ok :: "Frame list \<Rightarrow> AConn \<Rightarrow> bool" where
  "aconn_ok posted a \<longleftrightarrow> begun a \<le> length posted \<and>
     (\<not> overlapped a \<longrightarrow> prefix (line a) (wire (take (begun a) posted)) \<and>
       (\<not> broken a \<longrightarrow> line a @ concat (map (left a) [0..<begun a]) = wire (take (begun a) posted)))"

lemma aconn_ok_new: "aconn_ok posted aconn_new"
  by (simp add: aconn_ok_def aconn_new_def wire_def)

lemma aconn_ok_posts: "aconn_ok posted a \<Longrightarrow> prefix posted posts \<Longrightarrow> aconn_ok posts a"
  by (auto simp: aconn_ok_def prefix_def)

lemma concat_map_upd: "i \<notin> set is \<Longrightarrow> concat (map (f(i := x)) is) = concat (map f is)"
  by (induction "is") auto

lemma aconn_begin_ok:
  assumes ok: "aconn_ok posted a" and n: "begun a < length posted"
  shows "aconn_ok posted (aconn_begin a (posted ! begun a))"
proof -
  let ?f = "posted ! begun a"
  have "wire (take (begun a + 1) posted) = wire (take (begun a) posted) @ build_frame_bytes (frame_method ?f) (frame_body ?f)"
    using n by (simp add: take_Suc_conv_app_nth wire_append build_frame_bytes_write_frame) (simp add: wire_def)
  then show ?thesis
    using ok n by (auto simp: aconn_ok_def aconn_begin_def Let_def concat_map_upd prefix_prefix)
qed

lemma aconn_write_some_ok:
  assumes ok: "aconn_ok posted a" and i: "i < begun a" "\<not> broken a"
  shows "aconn_ok posted (aconn_write_some a i n)"
proof -
  let ?x = "left a i" and ?b = "aconn_write_some a i n"
  have "line ?b @ concat (map (left ?b) [0..<begun ?b]) = wire (take (begun ?b) posted)" if over: "\<not> overlapped ?b"
  proof -
    have before: "\<not> overlapped a" "\<forall>j<i. left a j = []" using over by (auto simp: aconn_write_some_def list_ex_iff)
    have split: "[0..<begun a] = [0..<i] @ i # [Suc i..<begun a]"
      using i by (metis le_add1 less_imp_le_nat upt_add_eq_append upt_conv_Cons add_0 le_add_diff_inverse)
    have all: "concat (map f [0..<begun a]) = f i @ concat (map f [Suc i..<begun a])"
      if "\<forall>j<i. f j = []" for f :: "nat \<Rightarrow> ByteVector"
      using that by (simp add: split)
    have "line a @ ?x @ concat (map (left a) [Suc i..<begun a]) = wire (take (begun a) posted)"
      using ok before i(2) by (simp add: aconn_ok_def all [OF before(2)])
    moreover have "concat (map (left ?b) [0..<begun a]) = drop n ?x @ concat (map (left a) [Suc i..<begun a])"
      using before(2) by (subst all) (simp_all add: aconn_write_some_def concat_map_upd)
    ultimately show ?thesis
      by (simp add: aconn_write_some_def) (simp flip: append_assoc)
  qed
  then show ?thesis using ok i by (auto simp: aconn_ok_def aconn_write_some_def intro: prefixI [OF sym])
qed

lemma aconn_fails_ok: "aconn_ok posted a \<Longrightarrow> aconn_ok posted (aconn_fails a i)"
  by (simp add: aconn_ok_def aconn_fails_def)

lemma aconn_move_ok: "aconn_move a posted e = Some a' \<Longrightarrow> aconn_ok posted a \<Longrightarrow> aconn_ok posted a'"
  by (cases e) (auto simp: aconn_begin_ok aconn_write_some_ok aconn_fails_ok split: if_splits)

lemma overlapped_stays: "aconn_move a posted e = Some a' \<Longrightarrow> overlapped a \<Longrightarrow> overlapped a'"
  by (cases e) (auto simp: aconn_begin_def aconn_write_some_def aconn_fails_def Let_def split: if_splits)

end
