(* ===== verification/Relay_System.thy ===== *)
theory Relay_System
  imports Relay_Link_Claims Relay_Aconn
begin

section \<open>Server, visitor and provider together\<close>

text \<open>
  The three roles as one system over the bytes of their connections: a visitor and a provider
  on the connections \<open>b\<close> and \<open>c\<close> of a server that may have any other connections and pairs. What a
  node hands to \<^verbatim>\<open>aconn_write\<close> goes out in the pieces of \<open>Relay_Aconn\<close>; the server reads frames from
  these bytes, and the nodes from the bytes that the server writes. As long as no write of a
  node overtakes another, the system implements the link of \<open>Relay_Link\<close>.
\<close>

subsection \<open>Frames fit their length field\<close>

definition fit_out :: "(nat \<times> Frame) list \<Rightarrow> bool" where
  "fit_out out \<longleftrightarrow> (\<forall>p\<in>set out. fits_frame (frame_body (snd p)))"

lemma fit_out_snoc [simp]: "fit_out (out @ [(k, f)]) \<longleftrightarrow> fit_out out \<and> fits_frame (frame_body f)"
  by (auto simp: fit_out_def)

lemma fits_uuid:
  assumes "length u = UUID_BYTES"
  shows "fits_frame (frame_body (mk_frame m (build_uuid_body u)))"
    "length x \<le> 65536 \<Longrightarrow> fits_frame (frame_body (mk_frame m (build_uuid_data_body u x)))"
  using assms by (simp_all add: fits_frame_def mk_frame_def uuid_data_body UUID_BYTES_def)

lemma visitor_turn_fits:
  assumes t: "visitor_turn v e = Some w" and ok: "refs_inv v \<and> upstream_inv v" and fit: "fit_out (visitor.sent v)"
  shows "fit_out (visitor.sent w)"
proof -
  have len: "k < visitor.made v \<Longrightarrow> length (ClientSession.uuid (objects v k)) = UUID_BYTES" for k
    using ok uuid_length by blast
  show ?thesis
  proof (cases e)
    case (ReaderWrote r)
    then obtain u k x where rd: "reader v = ReaderWriting u k x" and w: "w = reader_wrote v r"
      using t by (auto split: reader_pc.splits if_splits)
    have "k < visitor.made v \<and> ClientSession.uuid (objects v k) = u" using ok rd unfolding refs_inv_def by blast
    then have "length u = UUID_BYTES" using len by blast
    then show ?thesis using fit fits_uuid(1)
      by (cases r) (simp_all add: w reader_wrote_def rd Let_def client_ops)
  next
    case ClientAccepted
    obtain u g where g: "generate_uuid (rng v) = (u, g)" by (rule prod.exhaust)
    with t ClientAccepted fit fits_uuid(1) [OF generate_uuid_shape(1) [OF g]] client_accepted_simps(9) [OF g]
    show ?thesis by (auto split: if_splits)
  next
    case (PumpReads k ec x)
    then have w: "w = pump_read v k ec x" and k: "pumps v k = PumpReading" and x: "length x \<le> 65536"
      using t by (auto simp: read_delivers_def split: if_splits)
    have "k < visitor.made v" using ok k by (auto simp: refs_inv_def)
    note u = len [OF this]
    show ?thesis using fit fits_uuid(1) [OF u] fits_uuid(2) [OF u x]
      by (auto simp: w pump_read_def Let_def client_ops)
  qed (use t fit in \<open>auto simp: reader_gets_def reader_frame_keeps_clients reader_end_def reader_closed_def client_ops
      accept_failed_def client_announced_def pump_sent_def split: frame_read.splits reader_pc.splits accept_pc.splits if_splits client_pc.splits\<close>)
qed

lemma provider_sent_same:
  "provider.sent (session_finish p k) = provider.sent p" "provider.sent (session_loop p k) = provider.sent p"
  "provider.sent (drain_next p k i) = provider.sent p" "provider.sent (session_sent p k) = provider.sent p"
  "provider.sent (drain_written p k r) = provider.sent p" "provider.sent (drain_written_some p k n) = provider.sent p"
  "provider.sent (frame_written p r) = provider.sent p" "provider.sent (frame_written_some p n) = provider.sent p"
  "provider.sent (provider_frame p f) = provider.sent p"
proof -
  show finish: "provider.sent (session_finish p k) = provider.sent p" for p k
    by (simp add: session_finish_def session_ops)
  show loop: "provider.sent (session_loop p k) = provider.sent p" for p
    by (simp add: session_loop_def finish session_ops)
  show drain: "provider.sent (drain_next p k i) = provider.sent p" for p i
    by (simp add: drain_next_def loop session_ops Let_def)
  show "provider.sent (session_sent p k) = provider.sent p"
    by (cases "procs p k") (simp_all add: session_sent_def finish drain loop, simp_all add: session_ops)
  show "provider.sent (drain_written p k r) = provider.sent p"
    by (cases "procs p k") (simp_all add: drain_written_def drain Let_def, simp_all add: session_ops)
  show "provider.sent (drain_written_some p k n) = provider.sent p"
    by (cases "procs p k") (simp_all add: drain_written_some_def session_ops)
  show "provider.sent (frame_written p r) = provider.sent p"
    by (cases "frames p") (simp_all add: frame_written_def session_ops Let_def)
  show "provider.sent (frame_written_some p n) = provider.sent p"
    by (cases "frames p") (simp_all add: frame_written_some_def session_ops)
  show "provider.sent (provider_frame p f) = provider.sent p"
    by (auto simp: provider_frame_def forward_session_simps frame_data_def frame_data_eof_def frame_session_close_def session_ops Let_def
        split: option.split)
qed

lemma provider_move_fits:
  assumes m: "provider_move p e = Some q" and ok: "named_ok p" and fit: "fit_out (provider.sent p)"
  shows "fit_out (provider.sent q)"
proof -
  have len: "length (SessionState.uuid (states p k)) = UUID_BYTES" if "procs p k \<noteq> NoSession" for k
  proof -
    have "k < provider.made p" using ok that unfolding named_ok_def provider_inv_def by blast
    then show ?thesis by (rule provider_mux.name_length [OF ok])
  qed
  show ?thesis
  proof (cases e)
    case (FrameRead r)
    then show ?thesis using m fit
      by (cases r) (auto simp: provider_gets_def provider_sent_same split: if_splits)
  next
    case (Connected k b)
    then have q: "q = session_connected p k b" "procs p k = Connecting" using m by (auto split: if_splits)
    then show ?thesis using fit fits_uuid(1) [OF len [of k]]
      by (auto simp: session_connected_def session_ops Let_def)
  next
    case (RemoteRead k ec x)
    then have q: "q = target_read p k ec x" "procs p k = RemoteReading" and x: "length x \<le> 65536"
      using m by (auto simp: read_delivers_def split: if_splits)
    have u: "length (SessionState.uuid (states p k)) = UUID_BYTES" by (rule len) (simp add: q)
    then show ?thesis using fit fits_uuid(1) [OF u] fits_uuid(2) [OF u x]
      by (auto simp: q(1) target_read_def session_ops Let_def)
  qed (use m fit in \<open>auto simp: provider_sent_same split: frames_pc.splits session_pc.splits if_splits\<close>)
qed

subsection \<open>Reading a part of a wire\<close>

lemma wire_Cons: "wire (f # fs) = write_frame (frame_method f) (frame_body f) @ wire fs"
  by (simp add: wire_def)

lemma mk_frame_fields: "mk_frame (frame_method f) (frame_body f) = f"
  by (cases f) (simp add: mk_frame_def)

lemma read_frames_part:
  assumes "prefix y (wire fs)" "\<forall>f\<in>set fs. fits_frame (frame_body f)"
  shows "prefix (fst (read_frames y)) fs"
  using assms
proof (induction y arbitrary: fs rule: read_frames.induct)
  case (1 y)
  show ?case
  proof (cases "read_frame False y")
    case (GotFrame f rest)
    from "1.prems"(1) obtain z where z: "wire fs = y @ z" by (auto simp: prefix_def)
    have got: "read_frame False (wire fs) = GotFrame f (rest @ z)" unfolding z by (rule read_frame_append [OF GotFrame])
    then obtain g gs where fs: "fs = g # gs" by (cases fs) (auto simp: wire_def read_frame_def)
    then have "f = g" "rest @ z = wire gs"
      using got read_frame_written [of "frame_body g" False "frame_method g" "wire gs"] "1.prems"(2)
      by (simp_all add: wire_Cons mk_frame_fields)
    moreover from this have "prefix rest (wire gs)" by (metis prefixI)
    with "1.IH" [OF GotFrame] "1.prems"(2) have "prefix (fst (read_frames rest)) gs" by (simp add: fs)
    ultimately show ?thesis by (cases "read_frames rest") (simp add: read_frames.simps [of y] GotFrame fs)
  qed (simp_all add: read_frames.simps [of y])
qed

lemma read_frames_mono: "prefix (fst (read_frames y)) (fst (read_frames (y @ z)))"
proof (induction y rule: read_frames.induct)
  case (1 y)
  show ?case
  proof (cases "read_frame False y")
    case (GotFrame f rest)
    from read_frame_append [OF this] "1.IH" [OF this] show ?thesis
      by (cases "read_frames rest"; cases "read_frames (rest @ z)") (simp add: read_frames.simps [of y] read_frames.simps [of "y @ z"] GotFrame)
  qed (simp_all add: read_frames.simps [of y])
qed

subsection \<open>The system\<close>

text \<open>\<open>True\<close> is the direction from the visitor, as for the pumps of the server.\<close>

record system =
  srv :: server
  ends :: link
  conns :: "bool \<Rightarrow> AConn"

definition posted :: "link \<Rightarrow> bool \<Rightarrow> (nat \<times> Frame) list" where
  "posted l d = (if d then visitor.sent (at_b l) else provider.sent (at_c l))"

definition side :: "nat \<Rightarrow> nat \<Rightarrow> bool \<Rightarrow> nat" where
  "side b c d = (if d then b else c)"

text \<open>The frame that the server reads from a node is the next one in the bytes that have gone out on its connection.\<close>

fun serves :: "nat \<Rightarrow> nat \<Rightarrow> system \<Rightarrow> server_event \<Rightarrow> bool" where
  "serves b c x (PumpFrame i d (GotFrame f rest)) =
     (case pump_from (srv x) i d of None \<Rightarrow> True | Some k \<Rightarrow>
        (k = b \<longrightarrow> prefix (received (srv x) k @ [f]) (fst (read_frames (line (conns x True))))) \<and>
        (k = c \<longrightarrow> prefix (received (srv x) k @ [f]) (fst (read_frames (line (conns x False))))))"
| "serves b c x _ = True"

text \<open>What a node reads is the next frame in the bytes that the server has written to it.\<close>

definition reads_next :: "sock \<Rightarrow> Frame list \<Rightarrow> frame_read \<Rightarrow> bool" where
  "reads_next k got r = (case r of
     GotFrame f rest \<Rightarrow> prefix (mk_frame READY [] # got @ [f]) (fst (read_frames (written k)))
   | _ \<Rightarrow> True)"

text \<open>
  A coroutine that waits for \<^verbatim>\<open>aconn_write\<close> resumes when its write is over. The pump of a
  client never sends SESSION_CLOSE: a read with no bytes is an end of file to it.
\<close>

definition writes_over :: "AConn \<Rightarrow> (nat \<times> Frame) list \<Rightarrow> nat \<Rightarrow> Method list \<Rightarrow> bool" where
  "writes_over a out k ms \<longleftrightarrow>
     list_all (\<lambda>i. fst (out ! i) = k \<and> frame_method (snd (out ! i)) \<in> set ms \<longrightarrow> write_over a i) [0..<length out]"

definition visits :: "nat \<Rightarrow> system \<Rightarrow> visitor_event \<Rightarrow> bool" where
  "visits b x e = (let v = at_b (ends x); over = writes_over (conns x True) (visitor.sent v) in case e of
     ReaderGets r \<Rightarrow> reads_next (socks (srv x) b) (visitor.seen v) r
   | ReaderClosed \<Rightarrow> (case reader v of ReaderClosing u k \<Rightarrow> over k [SESSION_CLOSE] | _ \<Rightarrow> True)
   | ClientAnnounced \<Rightarrow> (case acceptor v of Announcing k \<Rightarrow> over k [NEW_SESSION] | _ \<Rightarrow> True)
   | PumpSent k \<Rightarrow> over k [DATA, DATA_EOF]
   | _ \<Rightarrow> True)"

definition provides :: "nat \<Rightarrow> system \<Rightarrow> provider_event \<Rightarrow> bool" where
  "provides c x e = (let p = at_c (ends x) in case e of
     FrameRead r \<Rightarrow> reads_next (socks (srv x) c) (provider.seen p) r
   | Sent k \<Rightarrow> writes_over (conns x False) (provider.sent p) k [SESSION_ERR, SESSION_OK, DATA, DATA_EOF, SESSION_CLOSE]
   | _ \<Rightarrow> True)"

datatype system_event =
  Serves server_event
| Visits visitor_event
| Provides provider_event
| Writes bool aconn_event

fun system_move :: "nat \<Rightarrow> nat \<Rightarrow> system \<Rightarrow> system_event \<Rightarrow> system option" where
  "system_move b c x (Serves e) =
     (if serves b c x e then map_option (\<lambda>s. x\<lparr>srv := s\<rparr>) (server_move (srv x) e) else None)"
| "system_move b c x (Visits e) =
     (if visits b x e then map_option (\<lambda>v. x\<lparr>ends := (ends x)\<lparr>at_b := v\<rparr>\<rparr>) (visitor_move (at_b (ends x)) e) else None)"
| "system_move b c x (Provides e) =
     (if provides c x e then map_option (\<lambda>p. x\<lparr>ends := (ends x)\<lparr>at_c := p\<rparr>\<rparr>) (provider_move (at_c (ends x)) e) else None)"
| "system_move b c x (Writes d e) =
     map_option (\<lambda>a. x\<lparr>conns := (conns x)(d := a)\<rparr>) (aconn_move (conns x d) (map snd (posted (ends x) d)) e)"

inductive system_step :: "nat \<Rightarrow> nat \<Rightarrow> system \<Rightarrow> system \<Rightarrow> bool" for b c where
  system_moves: "system_move b c x e = Some y \<Longrightarrow> system_step b c x y"

inductive_cases system_stepE: "system_step b c x y"

interpretation system: played_moves "system_step b c" "system_move b c" for b c
  by unfold_locales (rule system_moves)

text \<open>The nodes start when the server has paired them under \<open>tid\<close> and read nothing more from them.\<close>

definition paired :: "server \<Rightarrow> string \<Rightarrow> nat \<Rightarrow> nat \<Rightarrow> bool" where
  "paired s tid b c \<longleftrightarrow> (\<exists>m. pairs s tid = Some m \<and> mb m = Some b \<and> mc m = Some c)"

definition system_start :: "server \<Rightarrow> mt19937_64 \<Rightarrow> system" where
  "system_start s g = \<lparr>srv = s, ends = link_start g, conns = \<lambda>_. aconn_new\<rparr>"

definition system_run :: "string \<Rightarrow> nat \<Rightarrow> nat \<Rightarrow> mt19937_64 \<Rightarrow> system \<Rightarrow> bool" where
  "system_run tid b c g x \<longleftrightarrow> (\<exists>s. reach server_step server_start s \<and> paired s tid b c \<and> received s b = [] \<and> received s c = [] \<and>
     reach (system_step b c) (system_start s g) x)"

text \<open>In the whole run no write of a node has put out a byte while an earlier write of the same node was not over.\<close>

definition in_turn :: "system \<Rightarrow> bool" where
  "in_turn x \<longleftrightarrow> \<not> overlapped (conns x True) \<and> \<not> overlapped (conns x False)"

subsection \<open>Refinement\<close>

lemma server_move_received:
  assumes "server_move s e = Some t"
  shows "received t = received s \<or> (\<exists>i d f rest k. e = PumpFrame i d (GotFrame f rest) \<and> pump_from s i d = Some k \<and>
    received t = (received s)(k := received s k @ [f]))"
proof (cases e)
  case (RegFrame k r)
  then show ?thesis using assms
    by (cases r) (auto simp: reg_frame_def reg_drop_def register_def set_reg_def upd_sock_def Let_def split: if_splits option.splits)
next
  case (RegWritten k r)
  then show ?thesis using assms
    by (auto simp: reg_written_def reg_drop_def set_reg_def upd_sock_def set_pump_def Let_def split: option.splits if_splits reg_pc.splits)
next
  case (PumpFrame i d r)
  then show ?thesis using assms by (cases r) (auto simp: pump_frame_def Let_def split: option.splits if_splits)
next
  case (PumpWritten i d r)
  then show ?thesis using assms by (auto simp: pump_written_def Let_def split: option.splits if_splits pump_pc.splits)
qed (use assms in \<open>auto simp: set_reg_def split: if_splits\<close>)


text \<open>
  The invariant: what the server has read from a node is read from the bytes that have gone
  out on its connection, and these are as \<open>Relay_Aconn\<close> has them.
\<close>

abbreviation out_of :: "system \<Rightarrow> bool \<Rightarrow> Frame list" where
  "out_of x d \<equiv> map snd (posted (ends x) d)"

definition system_inv :: "string \<Rightarrow> nat \<Rightarrow> nat \<Rightarrow> system \<Rightarrow> bool" where
  "system_inv tid b c x \<longleftrightarrow> server_inv (srv x) \<and> paired (srv x) tid b c \<and>
     (\<forall>d. aconn_ok (out_of x d) (conns x d) \<and> fit_out (posted (ends x) d) \<and>
       prefix (received (srv x) (side b c d)) (fst (read_frames (line (conns x d)))))"

lemma paired_kept: "server_step s t \<Longrightarrow> paired s tid b c \<Longrightarrow> paired t tid b c"
  using server_step_slots unfolding paired_def slots_kept_def by fastforce

lemma in_turn_not: "in_turn x \<Longrightarrow> \<not> overlapped (conns x d)"
  by (cases d) (simp_all add: in_turn_def)

lemma posted_simps:
  "posted l True = visitor.sent (at_b l)" "posted l False = provider.sent (at_c l)"
  "posted (l\<lparr>at_b := v\<rparr>) False = posted l False" "posted (l\<lparr>at_c := p\<rparr>) True = posted l True"
  "side b c True = b" "side b c False = c"
  by (simp_all add: posted_def side_def)

text \<open>In turn, the bytes of a connection are those of the frames in their order, and the server reads these frames.\<close>

lemma system_received:
  assumes inv: "system_inv tid b c x" and t: "in_turn x"
  shows "prefix (line (conns x d)) (wire (out_of x d))" "prefix (received (srv x) (side b c d)) (out_of x d)"
proof -
  let ?a = "conns x d" and ?out = "out_of x d"
  have ok: "aconn_ok ?out ?a" "fit_out (posted (ends x) d)" and r: "prefix (received (srv x) (side b c d)) (fst (read_frames (line ?a)))"
    using inv unfolding system_inv_def by blast+
  have "?out = take (begun ?a) ?out @ drop (begun ?a) ?out" by simp
  then have "prefix (wire (take (begun ?a) ?out)) (wire ?out)" by (metis wire_append prefixI)
  then show line: "prefix (line ?a) (wire ?out)"
    using ok(1) in_turn_not [OF t] unfolding aconn_ok_def by (blast intro: prefix_order.trans)
  have "\<forall>f\<in>set ?out. fits_frame (frame_body f)" using ok(2) by (auto simp: fit_out_def)
  from prefix_order.trans [OF r read_frames_part [OF line this]]
  show "prefix (received (srv x) (side b c d)) ?out" .
qed

text \<open>A node reads what the other has sent, or an EOF frame.\<close>

lemma reads_delivered:
  assumes read: "reads_next k got (GotFrame f rest)" and w: "prefix (written k) (relayed d fs @ eof_bytes)"
    and fs: "prefix fs out" and out: "\<forall>f\<in>set out. fits_frame (frame_body f) \<and> frame_method f \<noteq> FRAME_EOF"
  shows "delivers (map (seen_as d) out) got (GotFrame f rest)"
proof (cases "frame_method f = FRAME_EOF")
  case False
  have sub: "\<forall>f\<in>set fs. fits_frame (frame_body f)" using fs out by (auto simp: prefix_def)
  have whole: "prefix (fst (read_frames (written k))) (mk_frame READY [] # map (seen_as d) fs @ [mk_frame FRAME_EOF []])"
    using w sub unfolding eof_wire by (intro read_frames_part) (auto intro: seen_as_fits)
  have "prefix (mk_frame READY [] # got @ [f]) (fst (read_frames (written k)))" using read by (simp add: reads_next_def)
  from prefix_order.trans [OF this whole] have "prefix (got @ [f]) (map (seen_as d) fs @ [mk_frame FRAME_EOF []])" by simp
  moreover have "got @ [f] \<noteq> map (seen_as d) fs @ [mk_frame FRAME_EOF []]" using False by (auto simp: mk_frame_def)
  ultimately have "prefix (got @ [f]) (map (seen_as d) fs)" by (auto simp: prefix_snoc)
  then have p: "prefix (got @ [f]) (map (seen_as d) out)" using fs by (meson map_mono_prefix prefix_order.trans)
  have "frame_method g \<noteq> FRAME_EOF" if "g \<in> set got" for g
  proof -
    have "g \<in> set (map (seen_as d) out)" using set_mono_prefix [OF p] that by auto
    then obtain h where "h \<in> set out" "g = seen_as d h" by auto
    with out show ?thesis by (auto simp: seen_as_def mk_frame_def method_defs)
  qed
  then have "heard got = got" by (simp add: heard_def)
  with p show ?thesis by (simp add: delivers_def)
qed (simp add: delivers_def)

lemma system_inv_parts:
  assumes inv: "system_inv tid b c x" and l: "link_inv (ends x)"
  shows "prefix (written (socks (srv x) c)) (relayed True (received (srv x) b) @ eof_bytes)"
    "prefix (written (socks (srv x) b)) (relayed False (received (srv x) c) @ eof_bytes)"
    "\<forall>f\<in>set (out_of x d). fits_frame (frame_body f) \<and> frame_method f \<noteq> FRAME_EOF"
proof -
  have roles: "roles_ok (ends x)" "delivered (ends x)" using l by (simp_all add: link_inv_def)
  have refs: "refs_inv (at_b (ends x)) \<and> upstream_inv (at_b (ends x))" using roles by (simp add: roles_ok_def)
  obtain m where pair: "pairs (srv x) tid = Some m" "mb m = Some b" "mc m = Some c" and s: "server_inv (srv x)"
    using inv by (auto simp: system_inv_def paired_def)
  show "prefix (written (socks (srv x) c)) (relayed True (received (srv x) b) @ eof_bytes)"
    "prefix (written (socks (srv x) b)) (relayed False (received (srv x) c) @ eof_bytes)"
    by (rule pair_prefix [OF s pair])+
  have fit: "fit_out (posted (ends x) d)" using inv by (simp add: system_inv_def)
  show "\<forall>f\<in>set (out_of x d). fits_frame (frame_body f) \<and> frame_method f \<noteq> FRAME_EOF"
    using fit visitor_methods [OF refs] provider_methods [OF link_named [OF roles]]
    by (cases d) (force simp: posted_simps fit_out_def method_defs)+
qed

text \<open>A move of a node is a move of the link.\<close>

lemma visitor_simulated:
  assumes m: "system_move b c x (Visits e) = Some y" and inv: "system_inv tid b c x" "in_turn x" and l: "link_inv (ends x)"
  shows "link_move (ends x) (Inl e) = Some (ends y)"
proof -
  obtain v where v: "visitor_move (at_b (ends x)) e = Some v" and y: "y = x\<lparr>ends := (ends x)\<lparr>at_b := v\<rparr>\<rparr>"
    using m by (auto split: if_splits)
  have read: "e = ReaderGets r \<Longrightarrow> reads_next (socks (srv x) b) (visitor.seen (at_b (ends x))) r" for r
    using m by (auto simp: visits_def split: if_splits)
  have "delivers (to_b (ends x)) (visitor.seen (at_b (ends x))) r" if e: "e = ReaderGets r" for r
  proof (cases r)
    case (GotFrame f rest)
    have "prefix (received (srv x) c) (out_of x False)" using system_received(2) [OF inv, of False] by (simp add: posted_simps)
    from reads_delivered [OF read [OF e, unfolded GotFrame] system_inv_parts(2) [OF inv(1) l] this system_inv_parts(3) [OF inv(1) l]]
    show ?thesis unfolding GotFrame to_b_def posted_simps .
  qed (simp_all add: delivers_def)
  then show ?thesis using v by (cases e) (simp_all add: y)
qed

lemma provider_simulated:
  assumes m: "system_move b c x (Provides e) = Some y" and inv: "system_inv tid b c x" "in_turn x" and l: "link_inv (ends x)"
  shows "link_move (ends x) (Inr e) = Some (ends y)"
proof -
  obtain p where p: "provider_move (at_c (ends x)) e = Some p" and y: "y = x\<lparr>ends := (ends x)\<lparr>at_c := p\<rparr>\<rparr>"
    using m by (auto split: if_splits)
  have read: "e = FrameRead r \<Longrightarrow> reads_next (socks (srv x) c) (provider.seen (at_c (ends x))) r" for r
    using m by (auto simp: provides_def split: if_splits)
  have "delivers (to_c (ends x)) (provider.seen (at_c (ends x))) r" if e: "e = FrameRead r" for r
  proof (cases r)
    case (GotFrame f rest)
    have "prefix (received (srv x) b) (out_of x True)" using system_received(2) [OF inv, of True] by (simp add: posted_simps)
    from reads_delivered [OF read [OF e, unfolded GotFrame] system_inv_parts(1) [OF inv(1) l] this system_inv_parts(3) [OF inv(1) l]]
    show ?thesis unfolding GotFrame to_c_def posted_simps .
  qed (simp_all add: delivers_def)
  then have "(case e of FrameRead r \<Rightarrow> delivers (to_c (ends x)) (provider.seen (at_c (ends x))) r | _ \<Rightarrow> True)"
    by (simp split: provider_event.split)
  then show ?thesis using p by (simp add: y)
qed

lemma link_posts:
  assumes m: "link_move l e = Some l'" and inv: "link_inv l"
  shows "prefix (posted l d) (posted l' d)" "fit_out (posted l d) \<Longrightarrow> fit_out (posted l' d)"
proof -
  have ok: "refs_inv (at_b l) \<and> upstream_inv (at_b l)" "named_ok (at_c l)"
    using inv link_named by (simp_all add: link_inv_def roles_ok_def)
  have "prefix (posted l d) (posted l' d) \<and> (fit_out (posted l d) \<longrightarrow> fit_out (posted l' d))"
  proof (cases e)
    case (Inl v)
    note b = link_move_b [OF m [unfolded Inl]]
    have "prefix (visitor.sent (at_b l)) (visitor.sent (at_b l'))" using visitor_turn_sent [OF b(1)] ok(1) by blast
    then show ?thesis using visitor_turn_fits [OF b(1) ok(1)] b(2) by (simp add: posted_def)
  next
    case (Inr q)
    note c = link_move_c [OF m [unfolded Inr]]
    show ?thesis using provider_move_names(2) [OF c(1)] provider_move_fits [OF c(1) ok(2)] c(2) by (simp add: posted_def)
  qed
  then show "prefix (posted l d) (posted l' d)" "fit_out (posted l d) \<Longrightarrow> fit_out (posted l' d)" by blast+
qed

lemma system_node_inv:
  assumes y: "srv y = srv x" "conns y = conns x" and l: "link_move (ends x) e = Some (ends y)"
    and inv: "system_inv tid b c x" "link_inv (ends x)"
  shows "system_inv tid b c y"
proof -
  have "prefix (out_of x d) (out_of y d)" for d by (rule map_mono_prefix [OF link_posts(1) [OF l inv(2)]])
  then have "aconn_ok (out_of y d) (conns x d)" for d
    using inv(1) aconn_ok_posts unfolding system_inv_def by blast
  then show ?thesis using inv(1) link_posts(2) [OF l inv(2)] unfolding system_inv_def y by blast
qed

lemma server_serves:
  assumes m: "server_move (srv x) e = Some t" "serves b c x e" and inv: "system_inv tid b c x"
  shows "prefix (received t (side b c d)) (fst (read_frames (line (conns x d))))"
proof -
  have old: "prefix (received (srv x) (side b c d)) (fst (read_frames (line (conns x d))))" using inv by (simp add: system_inv_def)
  from server_move_received [OF m(1)] show ?thesis
  proof (elim disjE exE conjE)
    fix i dir f rest k
    assume e: "e = PumpFrame i dir (GotFrame f rest)" "pump_from (srv x) i dir = Some k"
      and t: "received t = (received (srv x))(k := received (srv x) k @ [f])"
    show ?thesis
    proof (cases "k = side b c d")
      case True
      with m(2) e t show ?thesis by (cases d) (auto simp: side_def)
    next
      case False
      with old t show ?thesis by simp
    qed
  qed (use old in simp)
qed

lemma line_grows: "aconn_move a out e = Some a' \<Longrightarrow> \<exists>z. line a' = line a @ z"
  by (cases e) (auto simp: aconn_begin_def aconn_write_some_def aconn_fails_def Let_def split: if_splits)

lemma in_turn_before: "system_move b c x e = Some y \<Longrightarrow> in_turn y \<Longrightarrow> in_turn x"
proof (cases e)
  case (Writes d w)
  assume m: "system_move b c x e = Some y" and t: "in_turn y"
  then obtain a where "aconn_move (conns x d) (out_of x d) w = Some a" "y = x\<lparr>conns := (conns x)(d := a)\<rparr>"
    using Writes by auto
  then show "in_turn x" using t overlapped_stays by (cases d) (auto simp: in_turn_def)
qed (auto simp: in_turn_def split: if_splits)

lemma system_move_simulated:
  assumes m: "system_move b c x e = Some y" and t: "in_turn x" and inv: "system_inv tid b c x" and l: "link_inv (ends x)"
  shows "system_inv tid b c y \<and> (ends y = ends x \<or> link_step (ends x) (ends y))"
proof (cases e)
  case (Serves se)
  obtain r where r: "server_move (srv x) se = Some r" "serves b c x se" and y: "y = x\<lparr>srv := r\<rparr>"
    using m Serves by (auto split: if_splits)
  have st: "server_step (srv x) r" by (rule moved [OF r(1)])
  have "server_inv r" "paired r tid b c" using inv server_step_keeps [OF st] paired_kept [OF st] unfolding system_inv_def by blast+
  then show ?thesis using inv server_serves [OF r inv] unfolding system_inv_def by (simp add: y)
next
  case (Visits ve)
  note sim = visitor_simulated [OF m [unfolded Visits] inv t l]
  have "srv y = srv x" "conns y = conns x" using m Visits by (auto split: if_splits)
  from system_node_inv [OF this sim inv l] link_moves [OF sim] show ?thesis by blast
next
  case (Provides pe)
  note sim = provider_simulated [OF m [unfolded Provides] inv t l]
  have "srv y = srv x" "conns y = conns x" using m Provides by (auto split: if_splits)
  from system_node_inv [OF this sim inv l] link_moves [OF sim] show ?thesis by blast
next
  case (Writes d w)
  obtain a where a: "aconn_move (conns x d) (out_of x d) w = Some a" and y: "y = x\<lparr>conns := (conns x)(d := a)\<rparr>"
    using m Writes by auto
  obtain z where z: "line a = line (conns x d) @ z" using line_grows [OF a] by blast
  have "prefix (received (srv x) (side b c d)) (fst (read_frames (line (conns x d))))" using inv by (simp add: system_inv_def)
  from prefix_order.trans [OF this read_frames_mono] have "prefix (received (srv x) (side b c d)) (fst (read_frames (line a)))"
    unfolding z .
  moreover have "aconn_ok (out_of x d) a" using inv by (intro aconn_move_ok [OF a]) (simp add: system_inv_def)
  ultimately show ?thesis using inv by (simp add: y system_inv_def)
qed

interpretation system_kept: kept_invariant "system_step b c" "\<lambda>x. in_turn x \<longrightarrow> system_inv tid b c x \<and> link_inv (ends x)" for tid b c
proof unfold_locales
  fix x y assume s: "system_step b c x y" and inv: "in_turn x \<longrightarrow> system_inv tid b c x \<and> link_inv (ends x)"
  from s obtain e where e: "system_move b c x e = Some y" by (auto elim: system_stepE)
  show "in_turn y \<longrightarrow> system_inv tid b c y \<and> link_inv (ends y)"
  proof
    assume "in_turn y"
    with in_turn_before [OF e] inv have ok: "in_turn x" "system_inv tid b c x" "link_inv (ends x)" by blast+
    from system_move_simulated [OF e ok] link_kept.kept [of "ends x" "ends y"] ok(3)
    show "system_inv tid b c y \<and> link_inv (ends y)" by metis
  qed
qed

lemma system_starts:
  assumes "reach server_step server_start s" "paired s tid b c" "received s b = []" "received s c = []"
  shows "system_inv tid b c (system_start s g)" "link_inv (link_start g)"
proof -
  have "received s (side b c d) = []" "posted (link_start g) d = []" for d
    using assms(3,4) by (simp_all add: side_def posted_def link_start_def visitor_start_def provider_start_def)
  then show "system_inv tid b c (system_start s g)"
    using assms(2) server_reach_inv [OF assms(1)]
    by (simp add: system_inv_def system_start_def fit_out_def aconn_ok_new)
  have "link_run g (link_start g)" unfolding link_run_def by (rule reach.reach_start)
  then show "link_inv (link_start g)" by (rule link_run_inv)
qed

lemma system_reach:
  assumes "reach (system_step b c) (system_start s g) x"
    and s: "reach server_step server_start s" "paired s tid b c" "received s b = []" "received s c = []"
  shows "in_turn x \<longrightarrow> link_run g (ends x) \<and> system_inv tid b c x"
  using assms(1)
proof (induction rule: reach.induct)
  case reach_start
  show ?case using system_starts(1) [OF s] by (simp add: system_start_def link_run_def reach.reach_start)
next
  case (reach_step x y)
  show ?case
  proof
    assume t: "in_turn y"
    from reach_step.hyps(2) obtain e where e: "system_move b c x e = Some y" by (auto elim: system_stepE)
    from reach_step.IH in_turn_before [OF e t] have ok: "in_turn x" "link_run g (ends x)" "system_inv tid b c x" by simp_all
    with system_move_simulated [OF e ok(1,3) link_run_inv [OF ok(2)]] show "link_run g (ends y) \<and> system_inv tid b c y"
      by (auto simp: link_run_def intro: reach.reach_step)
  qed
qed

lemma system_run_link:
  assumes "system_run tid b c g x" "in_turn x"
  shows "link_run g (ends x)" "system_inv tid b c x"
  using assms system_reach unfolding system_run_def by blast+

end
