(* ===== verification/Relay_System_Claims.thy ===== *)
theory Relay_System_Claims
  imports Relay_System
begin

section \<open>What the relay promises from end to end\<close>

text \<open>
  The claims about server, visitor and provider together. The first part shows the converse of the
  refinement for runs in which every frame is passed on at once: what the link can do, the
  system can do as well. So a run of the two nodes alone can be played on the bytes.
\<close>

subsection \<open>Passing a frame on\<close>

text \<open>Every connection is at rest: what the server has read has gone out, and no write is under way.\<close>

definition at_rest :: "Frame list \<Rightarrow> AConn" where
  "at_rest fs = \<lparr>begun = length fs, left = \<lambda>_. [], line = wire fs, broken = False, overlapped = False\<rparr>"

definition promptly :: "string \<Rightarrow> nat \<Rightarrow> nat \<Rightarrow> system \<Rightarrow> bool" where
  "promptly tid b c x \<longleftrightarrow> server_inv (srv x) \<and> paired (srv x) tid b c \<and>
     (\<forall>d. server.pumps (srv x) tid d = pump_pc.PumpReading \<and> \<not> unusable (socks (srv x) (side b c d)) \<and> fit_out (posted (ends x) d) \<and>
       prefix (received (srv x) (side b c d)) (out_of x d) \<and> conns x d = at_rest (received (srv x) (side b c d)))"

definition caught_up :: "nat \<Rightarrow> nat \<Rightarrow> system \<Rightarrow> bool" where
  "caught_up b c x \<longleftrightarrow> (\<forall>d. received (srv x) (side b c d) = out_of x d)"

lemma line_passes:
  assumes "n = length fs" "n < length out" "out ! n = f"
  shows "\<exists>a. aconn_move (at_rest fs) out WriteBegins = Some a \<and>
    aconn_move a out (WroteSome n (length (build_frame_bytes (frame_method f) (frame_body f)))) = Some (at_rest (fs @ [f]))"
proof -
  have "build_frame_bytes (frame_method f) (frame_body f) \<noteq> []" by (simp add: build_frame_bytes_write_frame write_frame_def Let_def)
  moreover have "wire (fs @ [f]) = wire fs @ build_frame_bytes (frame_method f) (frame_body f)"
    by (simp add: wire_append build_frame_bytes_write_frame) (simp add: wire_def)
  ultimately show ?thesis
    using assms by (simp add: at_rest_def aconn_begin_def aconn_write_some_def Let_def fun_eq_iff list_ex_iff)
qed

lemma server_passes:
  assumes inv: "server_inv s" and p: "paired s tid b c" and idle: "server.pumps s tid d = pump_pc.PumpReading" "\<not> unusable (socks s (side b c d))"
    and to: "\<not> unusable (socks s (side b c (\<not> d)))" and f: "frame_method f \<noteq> FRAME_EOF"
  shows "\<exists>r t. server_move s (PumpFrame tid d (GotFrame f [])) = Some r \<and> server_move r (PumpWritten tid d WriteOk) = Some t \<and>
    received t = (received s)(side b c d := received s (side b c d) @ [f]) \<and> server.pumps t tid = server.pumps s tid \<and>
    (\<forall>k. unusable (socks t k) = unusable (socks s k))"
proof -
  have ends: "pump_from s tid d = Some (side b c d)" "pump_to s tid d = Some (side b c (\<not> d))"
    using p by (auto simp: paired_def pump_from_def pump_to_def side_def)
  have "is_open (socks s (side b c d))" using idle by (simp add: unusable_def)
  with ends idle(1) to f show ?thesis
    by (auto simp: pump_frame_def pump_written_def set_pump_def upd_sock_def can_write_def Let_def pump_from_def pump_to_def
        wrote_def unusable_def sock_defs fun_eq_iff)
qed

lemma paired_apart:
  assumes inv: "server_inv s" and p: "paired s tid b c" and on: "server.pumps s tid True = pump_pc.PumpReading"
  shows "b \<noteq> c"
proof -
  have "pump_from s tid True = Some b" "pump_to s tid True = Some c" using p by (auto simp: paired_def pump_from_def pump_to_def)
  from live_pump [OF inv _ this] on show ?thesis by (metis pump_pc.distinct(1))
qed

lemma prompt_pass:
  assumes x: "promptly tid b c x" and l: "link_inv (ends x)" and todo: "received (srv x) (side b c d) \<noteq> out_of x d"
  shows "\<exists>es y f. play (system_move b c) x es = Some y \<and> promptly tid b c y \<and> ends y = ends x \<and>
    received (srv y) = (received (srv x))(side b c d := received (srv x) (side b c d) @ [f])"
proof -
  let ?got = "received (srv x) (side b c d)" and ?out = "out_of x d"
  note ok = x [unfolded promptly_def, THEN conjunct1] x [unfolded promptly_def, THEN conjunct2, THEN conjunct1]
  have idle: "server.pumps (srv x) tid d = pump_pc.PumpReading" "\<not> unusable (socks (srv x) (side b c d'))" "fit_out (posted (ends x) d')"
    "prefix (received (srv x) (side b c d')) (out_of x d')" "conns x d' = at_rest (received (srv x) (side b c d'))" for d d'
    using x unfolding promptly_def by blast+
  obtain f rest where out: "?out = ?got @ f # rest" using idle(4) [of d] todo by (metis prefixE append_Nil2 neq_Nil_conv)
  then have n: "length ?got < length ?out" "?out ! length ?got = f" by (metis length_append less_add_same_cancel1 length_greater_0_conv list.discI) (metis nth_append_length out)
  have f: "f \<in> set ?out" using out by (metis in_set_conv_decomp)
  have inv: "system_inv tid b c x"
    unfolding system_inv_def
  proof (intro conjI allI)
    fix d
    show "aconn_ok (out_of x d) (conns x d)"
      using prefix_length_le [OF idle(4) [of d]] idle(4) [of d] by (auto simp: idle(5) aconn_ok_def at_rest_def prefix_def)
    have "\<forall>f\<in>set (received (srv x) (side b c d)). fits_frame (frame_body f)"
      using idle(3,4) [of d] set_mono_prefix by (fastforce simp: fit_out_def)
    then show "prefix (received (srv x) (side b c d)) (fst (read_frames (line (conns x d))))"
      by (simp add: idle(5) at_rest_def read_wire)
  qed (use ok idle(3) in auto)
  have f_ok: "fits_frame (frame_body f)" "frame_method f \<noteq> FRAME_EOF" using system_inv_parts(3) [OF inv l] f by blast+
  have sub: "\<forall>g\<in>set (?got @ [f]). fits_frame (frame_body g)"
    using system_inv_parts(3) [OF inv l, of d] unfolding out by auto
  obtain a where a: "aconn_move (at_rest ?got) ?out WriteBegins = Some a"
    "aconn_move a ?out (WroteSome (length ?got) (length (build_frame_bytes (frame_method f) (frame_body f)))) = Some (at_rest (?got @ [f]))"
    using line_passes [OF refl n] by blast
  obtain r t where r: "server_move (srv x) (PumpFrame tid d (GotFrame f [])) = Some r" "server_move r (PumpWritten tid d WriteOk) = Some t"
    and t: "received t = (received (srv x))(side b c d := ?got @ [f])" "server.pumps t tid = server.pumps (srv x) tid"
      "\<forall>k. unusable (socks t k) = unusable (socks (srv x) k)"
    using server_passes [OF ok idle(1,2) idle(2) f_ok(2)] by blast
  let ?y = "x\<lparr>srv := t, conns := (conns x)(d := at_rest (?got @ [f]))\<rparr>"
  have bc: "b \<noteq> c" using paired_apart [OF ok] idle(1) by blast
  have reads: "pump_from (srv x) tid d = Some (side b c d)" using ok(2) by (auto simp: paired_def pump_from_def side_def)
  have "fst (read_frames (line (at_rest (?got @ [f])))) = ?got @ [f]" using sub by (simp add: at_rest_def read_wire)
  then have "serves b c (x\<lparr>conns := (conns x)(d := at_rest (?got @ [f]))\<rparr>) (PumpFrame tid d (GotFrame f []))"
    using reads bc by (cases d) (simp_all add: side_def)
  then have moves: "play (system_move b c) x [Writes d WriteBegins, Writes d (WroteSome (length ?got) (length (build_frame_bytes (frame_method f) (frame_body f)))),
      Serves (PumpFrame tid d (GotFrame f [])), Serves (PumpWritten tid d WriteOk)] = Some ?y"
    using a r by (simp add: idle(5) del: server_move.simps)
  have good: "promptly tid b c ?y"
    unfolding promptly_def
  proof (intro conjI allI)
    have st: "server_step (srv x) r" "server_step r t" using r moved by blast+
    show "server_inv (srv ?y)" "paired (srv ?y) tid b c"
      using server_step_keeps [OF st(2) server_step_keeps [OF st(1) ok(1)]] paired_kept [OF st(2) paired_kept [OF st(1) ok(2)]] by simp_all
    fix e
    have other: "e \<noteq> d \<Longrightarrow> side b c e \<noteq> side b c d" using bc by (cases e; cases d) (simp_all add: side_def)
    show "prefix (received (srv ?y) (side b c e)) (out_of ?y e)"
      using out idle(4) [of e] other by (cases "e = d") (simp_all add: t(1) prefix_def)
    show "conns ?y e = at_rest (received (srv ?y) (side b c e))" using idle(5) other by (simp add: t(1))
  qed (use idle t in simp_all)
  show ?thesis
  proof (intro exI conjI)
    show "received (srv ?y) = (received (srv x))(side b c d := ?got @ [f])" by (simp add: t(1))
  qed (rule moves good | simp)+
qed

lemma catch_up:
  assumes "reach (system_step b c) s0 x" "promptly tid b c x" "link_inv (ends x)"
  shows "\<exists>y. reach (system_step b c) s0 y \<and> promptly tid b c y \<and> caught_up b c y \<and> ends y = ends x"
  using assms
proof (induction "\<Sum>d\<in>{True, False}. length (posted (ends x) d) - length (received (srv x) (side b c d))" arbitrary: x rule: less_induct)
  case less
  show ?case
  proof (cases "caught_up b c x")
    case False
    then obtain d where d: "received (srv x) (side b c d) \<noteq> out_of x d" by (auto simp: caught_up_def)
    obtain es y f where y: "play (system_move b c) x es = Some y" "promptly tid b c y" "ends y = ends x"
      and r: "received (srv y) = (received (srv x))(side b c d := received (srv x) (side b c d) @ [f])"
      using prompt_pass [OF less.prems(2,3) d] by blast
    have "side b c True \<noteq> side b c False"
      using less.prems(2) paired_apart unfolding promptly_def side_def by metis
    moreover have "length (received (srv y) (side b c d)) \<le> length (posted (ends x) d)"
      using y(2,3) prefix_length_le unfolding promptly_def by (metis length_map)
    ultimately have "(\<Sum>d\<in>{True, False}. length (posted (ends y) d) - length (received (srv y) (side b c d))) <
        (\<Sum>d\<in>{True, False}. length (posted (ends x) d) - length (received (srv x) (side b c d)))"
      by (cases d) (auto simp: y(3) r)
    from less.hyps [OF this system.play_reach [OF less.prems(1) y(1)] y(2)] y(3) less.prems(3) show ?thesis by simp
  qed (use less.prems in blast)
qed

subsection \<open>Playing a run of the link\<close>

text \<open>A move that reads no EOF frame, which only the server makes up.\<close>

definition no_eof :: "visitor_event + provider_event \<Rightarrow> bool" where
  "no_eof e = (case e of
     Inl (ReaderGets (GotFrame f rest)) \<Rightarrow> frame_method f \<noteq> FRAME_EOF
   | Inr (FrameRead (GotFrame f rest)) \<Rightarrow> frame_method f \<noteq> FRAME_EOF
   | _ \<Rightarrow> True)"

definition all_heard :: "link \<Rightarrow> bool" where
  "all_heard l \<longleftrightarrow> heard (visitor.seen (at_b l)) = visitor.seen (at_b l) \<and> heard (provider.seen (at_c l)) = provider.seen (at_c l)"

lemma all_heard_keeps:
  assumes "link_move l e = Some m" "no_eof e" "all_heard l"
  shows "all_heard m"
proof (cases e)
  case (Inl v)
  note b = link_move_b [OF assms(1) [unfolded Inl]]
  have "heard (gets_frames v) = gets_frames v"
    using assms(2) by (auto simp: Inl no_eof_def gets_frames_def heard_def split: visitor_event.splits frame_read.splits)
  then show ?thesis using assms(3) visitor_turn_seen [OF b(1)] b(2) by (simp add: all_heard_def heard_append)
next
  case (Inr p)
  note c = link_move_c [OF assms(1) [unfolded Inr]]
  have "heard (read_frames_of p) = read_frames_of p"
    using assms(2) by (auto simp: Inr no_eof_def read_frames_of_def heard_def split: provider_event.splits frame_read.splits)
  then show ?thesis using assms(3) provider_move_names(1) [OF c(1)] c(2) by (simp add: all_heard_def heard_append)
qed

lemma rested_over: "writes_over (at_rest (map snd out)) out k ms"
  by (simp add: writes_over_def list_all_iff write_over_def at_rest_def)

lemma caught_up_reads:
  assumes x: "promptly tid b c x" "caught_up b c x" and l: "link_inv (ends x)"
  shows "fst (read_frames (written (socks (srv x) (side b c (\<not> d))))) = mk_frame READY [] # map (seen_as d) (out_of x d)"
proof -
  have s: "server_inv (srv x)" "paired (srv x) tid b c" "server.pumps (srv x) tid d = pump_pc.PumpReading"
    using x(1) by (simp_all add: promptly_def)
  have "pump_from (srv x) tid d = Some (side b c d)" "pump_to (srv x) tid d = Some (side b c (\<not> d))"
    using s(2) by (auto simp: paired_def pump_from_def pump_to_def side_def)
  from live_pump [OF s(1) _ this] s(3) have "pumping (srv x) tid d (side b c d) (side b c (\<not> d))" by (metis pump_pc.distinct(1))
  then have w: "written (socks (srv x) (side b c (\<not> d))) = wire (mk_frame READY [] # map (seen_as d) (out_of x d))"
    using s(3) x(2) by (simp add: pumping_def relayed_wire caught_up_def)
  have "\<forall>f\<in>set (out_of x d). fits_frame (frame_body f)" using x(1) by (auto simp: promptly_def fit_out_def)
  then show ?thesis unfolding w by (subst read_wire) (auto intro: seen_as_fits)
qed

lemma link_lifts:
  assumes x: "promptly tid b c x" "caught_up b c x" and l: "link_inv (ends x)" "all_heard (ends x)"
    and m: "link_move (ends x) e = Some l'" "no_eof e"
  shows "\<exists>e'. system_move b c x e' = Some (x\<lparr>ends := l'\<rparr>)" "promptly tid b c (x\<lparr>ends := l'\<rparr>)"
proof -
  have rest: "conns x d = at_rest (out_of x d)" for d using x by (simp add: promptly_def caught_up_def)
  have over: "writes_over (conns x True) (visitor.sent (at_b (ends x))) k ms" "writes_over (conns x False) (provider.sent (at_c (ends x))) k ms" for k ms
    unfolding rest posted_simps by (rule rested_over)+
  have reads: "fst (read_frames (written (socks (srv x) b))) = mk_frame READY [] # to_b (ends x)"
    "fst (read_frames (written (socks (srv x) c))) = mk_frame READY [] # to_c (ends x)"
    using caught_up_reads [OF x l(1), of False] caught_up_reads [OF x l(1), of True] by (simp_all add: posted_simps to_b_def to_c_def)
  have heard: "heard (visitor.seen (at_b (ends x))) = visitor.seen (at_b (ends x))"
    "heard (provider.seen (at_c (ends x))) = provider.seen (at_c (ends x))"
    using l(2) by (simp_all add: all_heard_def)
  show "\<exists>e'. system_move b c x e' = Some (x\<lparr>ends := l'\<rparr>)"
  proof (cases e)
    case (Inl v)
    have "visits b x v"
      using m unfolding Inl by (cases v)
        (auto simp: visits_def over no_eof_def reads_next_def reads delivers_def heard split: frame_read.splits reader_pc.splits accept_pc.splits if_splits)
    then have "system_move b c x (Visits v) = Some (x\<lparr>ends := l'\<rparr>)" using m(1) by (auto simp: Inl split: if_splits)
    then show ?thesis ..
  next
    case (Inr p)
    have "provides c x p"
      using m unfolding Inr by (cases p)
        (auto simp: provides_def over no_eof_def reads_next_def reads delivers_def heard split: frame_read.splits if_splits)
    then have "system_move b c x (Provides p) = Some (x\<lparr>ends := l'\<rparr>)" using m(1) by (auto simp: Inr split: if_splits)
    then show ?thesis ..
  qed
  have "prefix (out_of x d) (map snd (posted l' d))" for d by (rule map_mono_prefix [OF link_posts(1) [OF m(1) l(1)]])
  then show "promptly tid b c (x\<lparr>ends := l'\<rparr>)"
    using x(1) link_posts(2) [OF m(1) l(1)] unfolding promptly_def by (auto intro: prefix_order.trans)
qed

text \<open>Every run of the link in which the server makes up no EOF frame can be played on the bytes, with no write overtaking another.\<close>

lemma link_played:
  assumes "play link_move (ends x) es = Some l'" "\<forall>e\<in>set es. no_eof e"
    and "reach (system_step b c) s0 x" "promptly tid b c x" "caught_up b c x" "link_inv (ends x)" "all_heard (ends x)"
  shows "\<exists>y. reach (system_step b c) s0 y \<and> promptly tid b c y \<and> caught_up b c y \<and> ends y = l'"
  using assms
proof (induction es arbitrary: x)
  case (Cons e es)
  then obtain m where m: "link_move (ends x) e = Some m" "play link_move m es = Some l'" by (auto split: option.splits)
  have e: "no_eof e" "\<forall>e\<in>set es. no_eof e" using Cons.prems(2) by simp_all
  note lift = link_lifts [OF Cons.prems(4-7) m(1) e(1)]
  have "reach (system_step b c) s0 (x\<lparr>ends := m\<rparr>)" using lift(1) Cons.prems(3) system_moves reach.reach_step by metis
  moreover have inv: "link_inv m" using link_kept.kept [OF link_moves [OF m(1)]] Cons.prems(6) .
  ultimately obtain y where y: "reach (system_step b c) s0 y" "promptly tid b c y" "caught_up b c y" "ends y = m"
    using catch_up [of b c s0 "x\<lparr>ends := m\<rparr>" tid] lift(2) by auto
  from Cons.IH [of y] y m(2) e inv all_heard_keeps [OF m(1) e(1) Cons.prems(7)] show ?case by simp
qed auto

lemma promptly_in_turn: "promptly tid b c x \<Longrightarrow> in_turn x"
  by (simp add: promptly_def in_turn_def at_rest_def)

lemma link_run_played:
  assumes s: "reach server_step server_start s" "paired s tid b c" "received s b = []" "received s c = []"
    and on: "\<And>d. server.pumps s tid d = pump_pc.PumpReading" "\<not> unusable (socks s b)" "\<not> unusable (socks s c)"
    and es: "play link_move (link_start g) es = Some l" "\<forall>e\<in>set es. no_eof e"
  shows "\<exists>x. reach (system_step b c) (system_start s g) x \<and> promptly tid b c x \<and> caught_up b c x \<and> ends x = l"
proof -
  let ?x = "system_start s g"
  have start: "ends ?x = link_start g" by (simp add: system_start_def)
  have none: "posted (link_start g) d = []" "received s (side b c d) = []" for d
    using s(3,4) by (simp_all add: side_def posted_def link_start_def visitor_start_def provider_start_def)
  have "at_rest [] = aconn_new" by (simp add: at_rest_def aconn_new_def wire_def)
  moreover have "\<not> unusable (socks s (side b c d))" for d using on(2,3) by (simp add: side_def)
  ultimately have "promptly tid b c ?x"
    using server_reach_inv [OF s(1)] s(2) on(1) none by (simp add: promptly_def system_start_def fit_out_def)
  moreover have "caught_up b c ?x" using none by (simp add: caught_up_def system_start_def)
  moreover have "link_inv (ends ?x)" using system_starts(2) [OF s] by (simp add: system_start_def)
  moreover have "all_heard (ends ?x)" by (simp add: system_start_def link_start_def visitor_start_def provider_start_def all_heard_def heard_def)
  ultimately show ?thesis
    using link_played [of ?x es l b c ?x tid] es reach.reach_start [of "system_step b c" ?x] start by auto
qed

subsection \<open>A run\<close>

lemma paired_start:
  "\<exists>s. reach server_step server_start s \<and> paired s demo_id 0 1 \<and> received s 0 = [] \<and> received s 1 = [] \<and>
    (\<forall>d. server.pumps s demo_id d = pump_pc.PumpReading) \<and> \<not> unusable (socks s 0) \<and> \<not> unusable (socks s 1) \<and>
    peers s 0 = Some (demo_id, CHR ''B'')"
proof -
  have "played demo_pairing (\<lambda>s. (case pairs s demo_id of None \<Rightarrow> False | Some m \<Rightarrow> mb m = Some 0 \<and> mc m = Some 1) \<and>
      received s 0 = [] \<and> received s 1 = [] \<and> server.pumps s demo_id True = pump_pc.PumpReading \<and>
      server.pumps s demo_id False = pump_pc.PumpReading \<and> \<not> unusable (socks s 0) \<and> \<not> unusable (socks s 1) \<and>
      peers s 0 = Some (demo_id, CHR ''B''))"
    by code_simp
  from played_reach [OF this] show ?thesis by (auto simp: paired_def all_bool_eq split: option.splits)
qed

lemma demo_system:
  "\<exists>x. system_run demo_id 0 1 (mt_seed 5) x \<and> in_turn x \<and> only_user (ends x) 0 \<and> provider.made (at_c (ends x)) = 1 \<and>
    written (client (objects (at_b (ends x)) 0)) = [9] \<and> written_to (at_c (ends x)) 0 = [7, 8] \<and>
    heard (visitor.seen (at_b (ends x))) = to_b (ends x) \<and> heard (provider.seen (at_c (ends x))) = to_c (ends x) \<and>
    reader (at_b (ends x)) = ReaderReading \<and> frames (at_c (ends x)) = FramesReading \<and> procs (at_c (ends x)) 0 = RemoteReading \<and>
    visitor.sessions (at_b (ends x)) (name_b (ends x) 0) = Some 0 \<and> provider.sessions (at_c (ends x)) (name_c (ends x) 0) = Some 0"
proof -
  obtain s where s: "reach server_step server_start s" "paired s demo_id 0 1" "received s 0 = []" "received s 1 = []"
    "\<And>d. server.pumps s demo_id d = pump_pc.PumpReading" "\<not> unusable (socks s 0)" "\<not> unusable (socks s 1)"
    using paired_start by blast
  have "\<forall>e\<in>set (demo_opening @ demo_moves). no_eof e"
    by (simp add: demo_opening_def demo_moves_def Let_def no_eof_def answered_def opens_def carries_def mk_frame_def method_defs)
  with demo_link link_run_played [OF s, of "mt_seed 5"] obtain x where
    x: "reach (system_step 0 1) (system_start s (mt_seed 5)) x" "promptly demo_id 0 1 x"
      "play link_move (link_start (mt_seed 5)) (demo_opening @ demo_moves) = Some (ends x)" by blast
  have "system_run demo_id 0 1 (mt_seed 5) x" using s(1-4) x(1) unfolding system_run_def by blast
  then show ?thesis using demo_link x(3) promptly_in_turn [OF x(2)] by auto
qed

subsection \<open>Two writes at once\<close>

text \<open>
  The first client has been announced and sends four bytes, whose frame is 41 bytes long behind
  its length, and a second client connects. The DATA frame gets its first four bytes out,
  then the NEW_SESSION frame goes out as a whole: the two are one frame to the server.
\<close>

definition two_writes :: "mt19937_64 \<Rightarrow> visitor" where
  "two_writes g = client_accepted (pump_read (one_client g) 0 ReadFine [1, 2, 3, 4])"

definition mixed_frame :: "string \<Rightarrow> Frame" where
  "mixed_frame u = mk_frame 0 (drop 1 (write_frame NEW_SESSION (build_uuid_body u)))"

lemma two_writes_moves:
  "visitor_move (one_client g) (PumpReads 0 ReadFine [1, 2, 3, 4]) = Some (pump_read (one_client g) 0 ReadFine [1, 2, 3, 4])"
  "visitor_move (pump_read (one_client g) 0 ReadFine [1, 2, 3, 4]) ClientAccepted = Some (two_writes g)"
  by (simp_all add: visitor_move_def two_writes_def one_client_state pump_read_def client_ops read_delivers_def new_client_def fresh_sock_def)

lemma two_writes_state:
  "visitor.sent (two_writes g) = [(0, mk_frame NEW_SESSION (build_uuid_body (client_uuid g))),
     (0, mk_frame DATA (build_uuid_data_body (client_uuid g) [1, 2, 3, 4])),
     (1, mk_frame NEW_SESSION (build_uuid_body (client_uuid (snd (generate_uuid g)))))]"
  "visitor.pumps (two_writes g) 0 = PumpSentData" "acceptor (two_writes g) = Announcing 1"
proof -
  let ?v = "pump_read (one_client g) 0 ReadFine [1, 2, 3, 4]"
  have "rng ?v = snd (generate_uuid g)" by (simp add: one_client_state pump_read_def client_ops)
  then obtain h where h: "generate_uuid (rng ?v) = (client_uuid (snd (generate_uuid g)), h)"
    by (cases "generate_uuid (snd (generate_uuid g))") (simp add: client_uuid_def)
  show "visitor.sent (two_writes g) = [(0, mk_frame NEW_SESSION (build_uuid_body (client_uuid g))),
     (0, mk_frame DATA (build_uuid_data_body (client_uuid g) [1, 2, 3, 4])),
     (1, mk_frame NEW_SESSION (build_uuid_body (client_uuid (snd (generate_uuid g)))))]"
    "visitor.pumps (two_writes g) 0 = PumpSentData" "acceptor (two_writes g) = Announcing 1"
    unfolding two_writes_def client_accepted_simps [OF h] by (simp_all add: one_client_state pump_read_def client_ops new_client_def)
qed

lemma mixed_bytes:
  assumes "length u = UUID_BYTES" "length w = UUID_BYTES"
  shows "take 4 (build_frame_bytes DATA (build_uuid_data_body u [1, 2, 3, 4])) @ build_frame_bytes NEW_SESSION (build_uuid_body w) =
      wire [mixed_frame w]"
    "length (build_frame_bytes NEW_SESSION (build_uuid_body w)) = 41"
    "fits_frame (frame_body (mixed_frame w))"
  using assms by (simp_all add: build_frame_bytes_write_frame write_frame_def wire_def mixed_frame_def mk_frame_def Let_def
      build_uuid_body_def bytes_of_string_def uuid_data_body UUID_BYTES_def fits_frame_def)

definition mixing :: "mt19937_64 \<Rightarrow> system_event list" where
  "mixing g = [Visits (PumpReads 0 ReadFine [1, 2, 3, 4]), Visits ClientAccepted, Writes True WriteBegins, Writes True WriteBegins,
     Writes True (WroteSome 1 4), Writes True (WroteSome 2 41)]"

lemma mixing_plays:
  assumes x: "promptly tid b c x" "caught_up b c x" and e: "ends x = \<lparr>at_b = one_client g, at_c = provider_start\<rparr>"
  shows "\<exists>y. play (system_move b c) x (mixing g) = Some y \<and> srv y = srv x \<and> at_b (ends y) = two_writes g \<and>
    line (conns y True) = wire [mk_frame NEW_SESSION (build_uuid_body (client_uuid g)), mixed_frame (client_uuid (snd (generate_uuid g)))]"
proof -
  let ?u = "client_uuid g" and ?w = "client_uuid (snd (generate_uuid g))"
  have rest: "conns x True = at_rest [mk_frame NEW_SESSION (build_uuid_body ?u)]"
    using x by (simp add: promptly_def caught_up_def e posted_simps one_client_state)
  have line: "wire [mk_frame NEW_SESSION (build_uuid_body ?u), mixed_frame ?w] = wire [mk_frame NEW_SESSION (build_uuid_body ?u)] @
      take 4 (build_frame_bytes DATA (build_uuid_data_body ?u [1, 2, 3, 4])) @ build_frame_bytes NEW_SESSION (build_uuid_body ?w)"
    unfolding mixed_bytes(1) [OF client_uuid_length client_uuid_length] by (simp add: wire_def)
  have "4 \<le> length (build_frame_bytes DATA (build_uuid_data_body ?u [1, 2, 3, 4]))"
    by (simp add: build_frame_bytes_write_frame write_frame_def Let_def)
  then show ?thesis
    using mixed_bytes(2) [of ?u ?w, OF client_uuid_length client_uuid_length]
    unfolding mixing_def line
    by (simp add: visits_def e two_writes_moves rest posted_simps two_writes_state at_rest_def aconn_begin_def aconn_write_some_def Let_def mk_frame_def)
qed

lemma mixed_not_sent: "mixed_frame u \<notin> snd ` set (visitor.sent (two_writes g))"
  by (auto simp: two_writes_state mixed_frame_def mk_frame_def method_defs)

subsection \<open>Properties\<close>

text \<open>
  Property C4. End to end, every session gets its own bytes. In every run of a server with a visitor and a
  provider that it has paired, over the bytes of their connections and whatever else the server
  serves, in which no write of a node puts out bytes before an earlier one is over: for a
  client whose uuid no other client has, what has been written to the client is, from the
  beginning and in order, what the provider has read from the target of the session with
  the same number; that session has the uuid of the client; and every byte that has been
  written to its target was read from the client. Nothing of another session is among them.
\<close>

theorem relay_end_to_end:
  assumes run: "system_run tid b c g x" "in_turn x" and k: "k < visitor.made (at_b (ends x))"
    and single: "\<forall>j<visitor.made (at_b (ends x)). j \<noteq> k \<longrightarrow>
      ClientSession.uuid (objects (at_b (ends x)) j) \<noteq> ClientSession.uuid (objects (at_b (ends x)) k)"
  shows "prefix (written (client (objects (at_b (ends x)) k))) (provider.taken (at_c (ends x)) k) \<and>
    (k < provider.made (at_c (ends x)) \<longrightarrow>
      SessionState.uuid (states (at_c (ends x)) k) = ClientSession.uuid (objects (at_b (ends x)) k) \<and>
      mset (written_to (at_c (ends x)) k) \<subseteq># mset (visitor.taken (at_b (ends x)) k))"
  by (rule link_end_to_end [OF system_run_link(1) [OF run] k single])

theorem relay_end_to_end_witness:
  "\<exists>x. system_run demo_id 0 1 (mt_seed 5) x \<and> written (client (objects (at_b (ends x)) 0)) = [9] \<and>
    prefix [9] (provider.taken (at_c (ends x)) 0) \<and> written_to (at_c (ends x)) 0 = [7, 8] \<and>
    mset [7, 8] \<subseteq># mset (visitor.taken (at_b (ends x)) 0)"
proof -
  obtain x where x: "system_run demo_id 0 1 (mt_seed 5) x" "in_turn x" "only_user (ends x) 0" "provider.made (at_c (ends x)) = 1"
    "written (client (objects (at_b (ends x)) 0)) = [9]" "written_to (at_c (ends x)) 0 = [7, 8]"
    using demo_system by blast
  have "0 < visitor.made (at_b (ends x))" "\<forall>j<visitor.made (at_b (ends x)). j \<noteq> 0 \<longrightarrow> name_b (ends x) j \<noteq> name_b (ends x) 0"
    using x(3) by (simp_all add: only_user_def)
  from relay_end_to_end [OF x(1,2) this] x show ?thesis by (intro exI [of _ x]) simp
qed

text \<open>
  Property C5. End to end, nothing is lost on the way. In such a run and for such a client: when the visitor has read every
  frame that the provider has sent, waits for the next and has the client on its map, the client has
  been written exactly the bytes that were read from its target; and when the provider has
  read every frame of the visitor, both of its coroutines wait for input and the session is
  on its map, the target has been written exactly the bytes, up to their order, that were read
  from the client.
\<close>

theorem relay_complete:
  assumes run: "system_run tid b c g x" "in_turn x" and k: "k < visitor.made (at_b (ends x))"
    and single: "\<forall>j<visitor.made (at_b (ends x)). j \<noteq> k \<longrightarrow>
      ClientSession.uuid (objects (at_b (ends x)) j) \<noteq> ClientSession.uuid (objects (at_b (ends x)) k)"
  shows "(heard (visitor.seen (at_b (ends x))) = to_b (ends x) \<and> reader (at_b (ends x)) = ReaderReading \<and>
      visitor.sessions (at_b (ends x)) (ClientSession.uuid (objects (at_b (ends x)) k)) = Some k \<longrightarrow>
      written (client (objects (at_b (ends x)) k)) = provider.taken (at_c (ends x)) k) \<and>
    (heard (provider.seen (at_c (ends x))) = to_c (ends x) \<and> frames (at_c (ends x)) = FramesReading \<and>
      procs (at_c (ends x)) k = RemoteReading \<and>
      provider.sessions (at_c (ends x)) (SessionState.uuid (states (at_c (ends x)) k)) = Some k \<longrightarrow>
      mset (written_to (at_c (ends x)) k) = mset (visitor.taken (at_b (ends x)) k))"
  by (rule link_complete [OF system_run_link(1) [OF run] k single])

theorem relay_complete_witness:
  "\<exists>x. system_run demo_id 0 1 (mt_seed 5) x \<and> written (client (objects (at_b (ends x)) 0)) = [9] \<and>
    provider.taken (at_c (ends x)) 0 = [9] \<and> written_to (at_c (ends x)) 0 = [7, 8] \<and>
    mset (visitor.taken (at_b (ends x)) 0) = mset [7, 8]"
proof -
  obtain x where x: "system_run demo_id 0 1 (mt_seed 5) x" "in_turn x" "only_user (ends x) 0" "provider.made (at_c (ends x)) = 1"
    "written (client (objects (at_b (ends x)) 0)) = [9]" "written_to (at_c (ends x)) 0 = [7, 8]"
    "heard (visitor.seen (at_b (ends x))) = to_b (ends x)" "heard (provider.seen (at_c (ends x))) = to_c (ends x)"
    "reader (at_b (ends x)) = ReaderReading" "frames (at_c (ends x)) = FramesReading" "procs (at_c (ends x)) 0 = RemoteReading"
    "visitor.sessions (at_b (ends x)) (name_b (ends x) 0) = Some 0" "provider.sessions (at_c (ends x)) (name_c (ends x) 0) = Some 0"
    using demo_system by blast
  have "0 < visitor.made (at_b (ends x))" "\<forall>j<visitor.made (at_b (ends x)). j \<noteq> 0 \<longrightarrow> name_b (ends x) j \<noteq> name_b (ends x) 0"
    using x(3) by (simp_all add: only_user_def)
  from relay_complete [OF x(1,2) this] x show ?thesis by (intro exI [of _ x]) simp
qed

text \<open>
  Property C6. The three roles together implement the link. For every run of a server, whatever else it
  serves, with a visitor and a provider that it has paired, over the bytes of their connections
  and in which no write of a node puts out bytes before an earlier one is over: what the two
  nodes do is a run of the link; the bytes on each of their connections are, from the beginning, those of the frames that the
  node has handed to \<^verbatim>\<open>aconn_write\<close>; and the server has read these frames, in their order and
  from the first on.
\<close>

theorem relay_refines_link:
  assumes "system_run tid b c g x" "in_turn x"
  shows "link_run g (ends x) \<and> paired (srv x) tid b c \<and>
    prefix (line (conns x True)) (wire (map snd (visitor.sent (at_b (ends x))))) \<and>
    prefix (line (conns x False)) (wire (map snd (provider.sent (at_c (ends x))))) \<and>
    prefix (received (srv x) b) (map snd (visitor.sent (at_b (ends x)))) \<and>
    prefix (received (srv x) c) (map snd (provider.sent (at_c (ends x))))"
proof -
  note inv = system_run_link [OF assms]
  show ?thesis
    using inv system_received [OF inv(2) assms(2), of True] system_received [OF inv(2) assms(2), of False]
    by (simp add: posted_simps system_inv_def)
qed

theorem relay_refines_link_witness:
  "\<exists>x. system_run demo_id 0 1 (mt_seed 5) x \<and> link_run (mt_seed 5) (ends x) \<and> provider.made (at_c (ends x)) = 1"
proof -
  obtain x where x: "system_run demo_id 0 1 (mt_seed 5) x" "in_turn x" "provider.made (at_c (ends x)) = 1"
    using demo_system by blast
  from relay_refines_link [OF x(1,2)] x show ?thesis by blast
qed

text \<open>
  Property C40. Two writes of a node that are under way at once can mix their frames. With every seed of the
  uuids there is a run in which the pump of the first client waits for its DATA frame and the
  accept loop for its NEW_SESSION frame, and the server has read from the visitor a frame
  that the visitor has never sent: the head of the one with the bytes of the other.
\<close>

theorem relay_frames_mix:
  "\<exists>x f. system_run demo_id 0 1 g x \<and> visitor.pumps (at_b (ends x)) 0 = PumpSentData \<and> acceptor (at_b (ends x)) = Announcing 1 \<and>
    f \<in> set (received (srv x) 0) \<and> f \<notin> snd ` set (visitor.sent (at_b (ends x)))"
proof -
  let ?f = "mixed_frame (client_uuid (snd (generate_uuid g)))"
  obtain s where s: "reach server_step server_start s" "paired s demo_id 0 1" "received s 0 = []" "received s 1 = []"
    "\<And>d. server.pumps s demo_id d = pump_pc.PumpReading" "\<not> unusable (socks s 0)" "\<not> unusable (socks s 1)"
    using paired_start by blast
  have plain: "\<forall>e\<in>set demo_opening. no_eof e" by (simp add: demo_opening_def no_eof_def)
  obtain x where x: "reach (system_step 0 1) (system_start s g) x" "promptly demo_id 0 1 x" "caught_up 0 1 x"
    "ends x = \<lparr>at_b = one_client g, at_c = provider_start\<rparr>"
    using link_run_played [OF s link_opens plain] by blast
  obtain y where y: "play (system_move 0 1) x (mixing g) = Some y" "srv y = srv x" "at_b (ends y) = two_writes g"
    "line (conns y True) = wire [mk_frame NEW_SESSION (build_uuid_body (client_uuid g)), ?f]"
    using mixing_plays [OF x(2-4)] by blast
  have idle: "server_inv (srv x)" "paired (srv x) demo_id 0 1" "server.pumps (srv x) demo_id True = pump_pc.PumpReading"
    "\<not> unusable (socks (srv x) (side 0 1 True))" "\<not> unusable (socks (srv x) (side 0 1 (\<not> True)))"
    using x(2) unfolding promptly_def by blast+
  have got: "received (srv x) 0 = [mk_frame NEW_SESSION (build_uuid_body (client_uuid g))]"
    using x(3) by (simp add: caught_up_def x(4) posted_simps one_client_state side_def all_bool_eq)
  have plain_f: "frame_method ?f \<noteq> FRAME_EOF" by (simp add: mixed_frame_def mk_frame_def method_defs)
  obtain r t where t: "server_move (srv x) (PumpFrame demo_id True (GotFrame ?f [])) = Some r"
    "server_move r (PumpWritten demo_id True WriteOk) = Some t" "received t = (received (srv x))(0 := received (srv x) 0 @ [?f])"
    using server_passes [OF idle plain_f] unfolding posted_simps by blast
  have "fst (read_frames (line (conns y True))) = [mk_frame NEW_SESSION (build_uuid_body (client_uuid g)), ?f]"
    unfolding y(4) using mixed_bytes(3) [OF client_uuid_length client_uuid_length] fits_uuid(1) [OF client_uuid_length]
    by (subst read_wire) auto
  then have "serves 0 1 y (PumpFrame demo_id True (GotFrame ?f []))"
    using idle(2) got by (auto simp: y(2) paired_def pump_from_def)
  then have "play (system_move 0 1) y [Serves (PumpFrame demo_id True (GotFrame ?f [])), Serves (PumpWritten demo_id True WriteOk)] =
      Some (y\<lparr>srv := t\<rparr>)"
    using t(1,2) by (simp add: y(2) del: server_move.simps)
  then have "reach (system_step 0 1) (system_start s g) (y\<lparr>srv := t\<rparr>)"
    using system.play_reach [OF system.play_reach [OF x(1) y(1)]] by blast
  then have "system_run demo_id 0 1 g (y\<lparr>srv := t\<rparr>)" using s(1-4) unfolding system_run_def by blast
  then show ?thesis
    using mixed_not_sent [of "client_uuid (snd (generate_uuid g))" g] t(3) y(3) two_writes_state(2,3) [of g]
    by (intro exI [of _ "y\<lparr>srv := t\<rparr>"] exI [of _ ?f]) simp
qed

end
