(* ===== verification/Spec2Isabelle.thy ===== *)
theory Spec2Isabelle
  imports Tunnel_Pair Cli Udp Relay_System_Claims
begin

text \<open>
  The program. msg801 is a command line tool with three services. \<^verbatim>\<open>tunnel\<close> listens on one TCP
  address and forwards every connection to another, the bytes of both directions going through
  a chain of processors that encrypt, authenticate or pad them; two tunnels with the same
  arguments, one of them reversed, make an encrypted link. \<^verbatim>\<open>relay\<close> brings two hosts behind NAT
  together: a server (role A) pairs a visitor (B) and a provider (C) of the same id and passes
  their frames on; the visitor accepts clients, the provider connects to a target for each of
  them, and a uuid in the frames tells the sessions apart. \<^verbatim>\<open>udp\<close> sends and prints datagrams.

  Conventions. Bytes, sizes and ports are words of their C++ width (\<open>u8\<close> to \<open>u64\<close>), buffers are
  lists of bytes, an exception is the \<open>Throw\<close> of \<open>outcome\<close>, and a call that never returns is
  \<open>Diverge\<close>. A loop that runs on data is a recursion whose termination is proved; the padding
  loop, which may not end, is a \<open>partial_function (option)\<close>. No fuel is used anywhere. The
  coroutines and callbacks of Asio are modelled by one function per resumption, from one
  suspension to the next, on a record of the shared state; a record of program counters says
  where every coroutine is suspended. The functions are collected in an executable move
  function and a step relation, and a property of "every run" is one of every reachable state, so it
  holds for every interleaving, every fragmentation of the streams and every failure of a
  read or write that TCP allows. What the network delivers is in the event of the move.

  Foundations. \<open>Prelude\<close>: byte types (\<^verbatim>\<open>byte_types.hpp\<close>), outcomes, list and word lemmas. \<open>Transition\<close>: runs
  of a step relation; the locales \<open>kept_invariant\<close> and \<open>played_moves\<close>, interpreted for each system.
  \<open>Socket\<close>: what the code can observe of a TCP socket. \<open>External\<close>: what is not under src/ as the record of
  parameters that the definitions take: the SHA-512, HMAC and random bytes of OpenSSL, the algorithm of
  \<^verbatim>\<open>uniform_int_distribution\<close>, the clock and the random device. \<open>Mt19937\<close>: \<^verbatim>\<open>std::mt19937_64\<close>, computed.
  \<open>Byte_Stream\<close>: the interface of a processor as locales, interpreted by every processor and by
  the chain: a decoder that does not care where its input is cut and undoes the encoder. \<open>Text\<close>: \<^verbatim>\<open>find\<close>, \<^verbatim>\<open>rfind\<close>, \<^verbatim>\<open>stoull\<close>.

  Processors (\<^verbatim>\<open>include/msg801/tunnel/*.hpp\<close>, \<^verbatim>\<open>lib/src/{identity,cfb,padding,processor_chain}.cpp\<close>).
  \<open>Identity\<close>, \<open>Cfb\<close>, \<open>Cfb_Nonce\<close>, \<open>Padding\<close>: the record of the object's members and a function per
  method. Shown: what one end packs the other unpacks, however the bytes are cut; a nonce packet is
  checked before anything is decrypted; the padding parser implements a recursive
  specification, its buffer is bounded, and it returns exactly for a positive chunk size.
  \<open>Chain\<close>: \<^verbatim>\<open>ProcessorChain\<close> over the sum of the processors; \<open>Chain_Codec\<close> and \<open>Chain_Roles\<close> lift the laws of
  one processor to a chain and to the pair of a chain and its reverse. \<open>Config\<close>: the
  \<^verbatim>\<open>--processor\<close> arguments and \<^verbatim>\<open>build_processor_chain\<close> (\<^verbatim>\<open>tunnel.cpp\<close>), with the exact set of accepted texts.

  Tunnel (\<^verbatim>\<open>tunnel.cpp\<close>). \<open>Tunnel\<close>: the state of a session and the resumptions of \<^verbatim>\<open>read_local\<close>,
  \<^verbatim>\<open>read_remote\<close>, \<^verbatim>\<open>stat_loop\<close> and \<^verbatim>\<open>start_session\<close>. \<open>Tunnel_Session\<close>: its invariant, half close, errors,
  counters. \<open>Tunnel_Accept\<close>: \<^verbatim>\<open>do_accept\<close> and \<^verbatim>\<open>run_tunnel\<close>. \<open>Tunnel_Pair\<close>: the two tunnels of a link as one
  system, and that the link is transparent.

  Relay (\<^verbatim>\<open>relay.cpp\<close>). \<open>Relay_Frame\<close>: frames, their reader and writers, the uuids. \<open>Relay_Server\<close>: role A,
  registration and the two pumps of a pair, with its invariant; \<open>Relay_Pairs\<close>: that pairs are kept
  apart and frames in order, and what a disconnect does. \<open>Relay_Node\<close>: \<^verbatim>\<open>run_node\<close>, the start of a
  role, \<^verbatim>\<open>aconn_write\<close>. \<open>Relay_Streams\<close>: the byte streams of one uuid in a list of frames. \<open>Relay_Visitor\<close>: role B;
  \<open>Relay_Clients\<close>, \<open>Relay_Delivery\<close> and \<open>Relay_Life\<close> are its invariants (references and what is sent, what is
  written to clients, when sessions end) and \<open>Relay_Visitor_Claims\<close> its properties. \<open>Relay_Provider\<close>: role C;
  \<open>Relay_Sessions\<close> is its invariant, \<open>Relay_Provider_Claims\<close> its properties. In both roles the fields \<open>sent\<close>,
  \<open>seen\<close>, \<open>since\<close> and \<open>taken\<close> record what was sent, received and read; no operation depends on them.

  \<open>Relay_Mux\<close> is the interface that the two roles share, a sender that mixes its sessions on one
  connection, as a locale; \<open>Relay_Opening\<close> interprets it for both and relates NEW_SESSION to the
  numbering of the clients and sessions. \<open>Relay_Link\<close> is the abstract connection of a visitor and a
  provider: whole frames in order. \<open>Relay_Link_Claims\<close> shows that on it bytes go from end to end.
  \<open>Relay_Aconn\<close> is what becomes of a frame handed to \<^verbatim>\<open>aconn_write\<close>: the handlers run in the order of the posts,
  but each starts a composed write whose pieces mix with those of another write that is not over, and which can
  fail. \<open>Relay_System\<close> puts server, visitor and provider together over the bytes of their connections: the server reads
  frames from the bytes that have gone out, a node from the bytes that the server has written, and a
  coroutine that waits for \<^verbatim>\<open>aconn_write\<close> resumes when its write is over. It shows that the system implements the
  link in every run in which no write of a node puts out bytes while an earlier one is not
  over (\<open>in_turn\<close>); then the bytes are those of the frames in order. \<open>Relay_System_Claims\<close> has the properties of
  the system, shows that a run of the link can be played on the bytes, and that the condition
  is needed: without it the server can read a frame that nobody has sent.

  Command line. \<open>Udp\<close>: \<^verbatim>\<open>udp_sender.cpp\<close> and \<^verbatim>\<open>udp_server.cpp\<close>. \<open>Cli\<close>: \<^verbatim>\<open>main.cpp\<close>, the help
  formatter, the dispatch and how the process ends.

  Not modelled. The text of the logs and messages; CLI11 (the parser and the base class of the formatter) and spdlog, which are
  third party; Asio itself, beyond what an operation delivers. The server's
  \<^verbatim>\<open>dead_mtx\<close> has no effect, as the program runs one thread. Exhausted memory and
  the exceptions of an abort are outside. After the visitor has used a dangling reference
  it makes no further step, since the C++ standard promises nothing.
\<close>

end
